(* ===== verification/Cogno_Prelude.thy ===== *)
theory Cogno_Prelude
  imports Complex_Main "HOL-Library.Multiset" "HOL-Library.Sublist"
begin

text \<open>
  What the components of the development share: the JavaScript operations the sources use
  (\<open>??\<close>, \<open>Array.prototype.sort\<close>, \<open>Map.prototype.set\<close>, \<open>String(bigint)\<close>, \<open>trim\<close>), with the
  lemmas the component proofs rest on.  A JavaScript \<open>bigint\<close> or a \<open>number\<close> that only ever holds
  integers is an \<^typ>\<open>int\<close>; a JavaScript string of which the code only compares, concatenates and
  slices code units is a \<^typ>\<open>string\<close>; \<open>null\<close> and \<open>undefined\<close> are \<^const>\<open>None\<close>.
\<close>

named_theorems store_simps \<open>what a read returns after a write of a device-local store\<close>
named_theorems cmp_simps \<open>unfolding rules of the comparators\<close>

section \<open>Nullish values\<close>

definition coalesce :: "'a option \<Rightarrow> 'a \<Rightarrow> 'a" where
  "coalesce x d = (case x of None \<Rightarrow> d | Some v \<Rightarrow> v)"

lemma coalesce_simps [simp]: "coalesce None d = d" "coalesce (Some v) d = v"
  by (simp_all add: coalesce_def)

section \<open>The stable sort of JavaScript arrays\<close>

text \<open>
  \<open>Array.prototype.sort\<close> is stable and orders by the sign of the comparator: an element goes
  before another when the comparator is not positive.  For a comparator that is a total preorder
  (the locale below) every stable sort returns the same array, so insertion sort stands for all.
\<close>

fun js_insert :: "('a \<Rightarrow> 'a \<Rightarrow> 'n::{zero,linorder}) \<Rightarrow> 'a \<Rightarrow> 'a list \<Rightarrow> 'a list" where
  "js_insert cmp x [] = [x]"
| "js_insert cmp x (y # ys) = (if cmp x y \<le> 0 then x # y # ys else y # js_insert cmp x ys)"

definition js_sort :: "('a \<Rightarrow> 'a \<Rightarrow> 'n::{zero,linorder}) \<Rightarrow> 'a list \<Rightarrow> 'a list" where
  "js_sort cmp xs = foldr (js_insert cmp) xs []"

lemma js_sort_simps [simp]:
  "js_sort cmp [] = []"
  "js_sort cmp (x # xs) = js_insert cmp x (js_sort cmp xs)"
  by (simp_all add: js_sort_def)

lemma mset_js_insert [simp]: "mset (js_insert cmp x xs) = add_mset x (mset xs)"
  by (induction xs) auto

lemma mset_js_sort [simp]: "mset (js_sort cmp xs) = mset xs"
  by (induction xs) auto

lemma set_js_sort [simp]: "set (js_sort cmp xs) = set xs"
  using mset_js_sort [of cmp xs] by (metis set_mset_mset)

lemma length_js_sort [simp]: "length (js_sort cmp xs) = length xs"
  using mset_js_sort [of cmp xs] by (metis size_mset)

lemma set_js_insert [simp]: "set (js_insert cmp x xs) = insert x (set xs)"
  by (induction xs) auto

lemma js_insert_cong:
  assumes "\<And>y. y \<in> set ys \<Longrightarrow> (f x y \<le> 0) = (g x y \<le> 0)"
  shows "js_insert f x ys = js_insert g x ys"
  using assms by (induction ys) auto

lemma js_sort_cong:
  assumes "\<And>x y. x \<in> set xs \<Longrightarrow> y \<in> set xs \<Longrightarrow> (f x y \<le> 0) = (g x y \<le> 0)"
  shows "js_sort f xs = js_sort g xs"
  using assms
proof (induction xs)
  case Nil
  then show ?case by simp
next
  case (Cons x xs)
  then have "js_sort f xs = js_sort g xs" by simp
  with Cons.prems show ?case by (auto intro!: js_insert_cong)
qed

locale comparator =
  fixes cmp :: "'a \<Rightarrow> 'a \<Rightarrow> 'n::{zero,linorder}"
  assumes sign: "0 < cmp x y \<longleftrightarrow> cmp y x < 0"
    and trans: "cmp x y \<le> 0 \<Longrightarrow> cmp y z \<le> 0 \<Longrightarrow> cmp x z \<le> 0"
begin

abbreviation before :: "'a \<Rightarrow> 'a \<Rightarrow> bool" where
  "before x y \<equiv> cmp x y \<le> 0"

lemma total: "\<not> before x y \<Longrightarrow> before y x"
  using sign [of x y] by (simp add: not_le less_imp_le)

lemma equal_sym: "cmp x y = 0 \<Longrightarrow> cmp y x = 0"
  using sign [of x y] sign [of y x] by (metis less_irrefl linorder_neqE)

lemma refl: "cmp x x = 0"
  using sign [of x x] by (metis linorder_neqE less_asym)

lemma sorted_insert:
  "sorted_wrt before xs \<Longrightarrow> sorted_wrt before (js_insert cmp x xs)"
proof (induction xs)
  case Nil
  then show ?case by simp
next
  case (Cons y ys)
  then show ?case using total [of x y] by (auto intro: trans)
qed

lemma sorted_sort: "sorted_wrt before (js_sort cmp xs)"
  by (induction xs) (auto intro: sorted_insert)

lemma insert_id:
  "sorted_wrt before (x # xs) \<Longrightarrow> js_insert cmp x xs = x # xs"
  by (cases xs) auto

lemma sort_id: "sorted_wrt before xs \<Longrightarrow> js_sort cmp xs = xs"
proof (induction xs)
  case Nil
  then show ?case by simp
next
  case (Cons x xs)
  then have "js_sort cmp xs = xs" by simp
  with Cons.prems insert_id [of x xs] show ?case by simp
qed

lemma sort_idem: "js_sort cmp (js_sort cmp xs) = js_sort cmp xs"
  by (rule sort_id [OF sorted_sort])

lemma filter_insert_eq:
  assumes "cmp z x = 0"
  shows "filter (\<lambda>y. cmp z y = 0) (js_insert cmp x ys) = x # filter (\<lambda>y. cmp z y = 0) ys"
proof (induction ys)
  case Nil
  with assms show ?case by simp
next
  case (Cons y ys)
  show ?case
  proof (cases "before x y")
    case True
    with assms show ?thesis by simp
  next
    case False
    have "cmp z y \<noteq> 0"
    proof
      assume "cmp z y = 0"
      moreover have "cmp x z = 0" using assms by (rule equal_sym)
      ultimately have "before x y" using trans [of x z y] by simp
      with False show False by simp
    qed
    with False Cons show ?thesis by simp
  qed
qed

lemma filter_insert_neq:
  "cmp z x \<noteq> 0 \<Longrightarrow> filter (\<lambda>y. cmp z y = 0) (js_insert cmp x ys) = filter (\<lambda>y. cmp z y = 0) ys"
  by (induction ys) auto

text \<open>Stability: elements the comparator cannot tell apart keep their order.\<close>

lemma stable: "filter (\<lambda>y. cmp z y = 0) (js_sort cmp xs) = filter (\<lambda>y. cmp z y = 0) xs"
  by (induction xs) (auto simp: filter_insert_eq filter_insert_neq)

text \<open>
  Where the comparator is strict on the elements, the result depends on the elements only and not
  on the order in which they arrive.
\<close>

lemma sorted_unique:
  assumes "sorted_wrt before xs" "sorted_wrt before ys" "mset xs = mset ys"
    and strict: "\<And>x y. x \<in> set xs \<Longrightarrow> y \<in> set xs \<Longrightarrow> cmp x y = 0 \<Longrightarrow> x = y"
  shows "xs = ys"
  using assms
proof (induction xs arbitrary: ys)
  case Nil
  then show ?case by simp
next
  case (Cons x xs)
  then obtain y ys' where ys: "ys = y # ys'" by (cases ys) auto
  have eq_set: "set (x # xs) = set (y # ys')"
    using Cons.prems(3) ys by (metis set_mset_mset)
  have "before x y" using Cons.prems(1) eq_set refl [of x]
    by (metis eq_refl insert_iff list.set(2) sorted_wrt.simps(2) list.set_intros(1))
  moreover have "before y x" using Cons.prems(2) ys eq_set refl [of y]
    by (metis eq_refl insert_iff list.set(2) sorted_wrt.simps(2) list.set_intros(1))
  ultimately have "cmp x y = 0"
    using sign [of y x] by (metis order.order_iff_strict less_le_not_le)
  then have "x = y" using Cons.prems(4) eq_set by auto
  moreover have "xs = ys'"
    by (rule Cons.IH) (use Cons.prems ys \<open>x = y\<close> in auto)
  ultimately show ?case using ys by simp
qed

lemma sort_perm:
  assumes "mset xs = mset ys"
    and "\<And>x y. x \<in> set xs \<Longrightarrow> y \<in> set xs \<Longrightarrow> cmp x y = 0 \<Longrightarrow> x = y"
  shows "js_sort cmp xs = js_sort cmp ys"
  by (rule sorted_unique) (use assms sorted_sort in auto)

end

section \<open>Insertion-ordered maps\<close>

text \<open>
  A JavaScript \<open>Map\<close> (and an object used as a dictionary) keeps its keys in insertion order, and
  writing a key that is present keeps its place.  Reads are \<^const>\<open>map_of\<close>.
\<close>

type_synonym ('k, 'v) omap = "('k \<times> 'v) list"

fun omap_set :: "'k \<Rightarrow> 'v \<Rightarrow> ('k, 'v) omap \<Rightarrow> ('k, 'v) omap" where
  "omap_set k v [] = [(k, v)]"
| "omap_set k v ((k', v') # m) = (if k' = k then (k, v) # m else (k', v') # omap_set k v m)"

definition omap_del :: "'k \<Rightarrow> ('k, 'v) omap \<Rightarrow> ('k, 'v) omap" where
  "omap_del k m = filter (\<lambda>(k', _). k' \<noteq> k) m"

definition omap_ok :: "('k, 'v) omap \<Rightarrow> bool" where
  "omap_ok m \<longleftrightarrow> distinct (map fst m)"

lemma map_of_omap_set [simp]: "map_of (omap_set k v m) = (map_of m)(k \<mapsto> v)"
  by (induction m) auto

lemma map_of_omap_del [simp]: "map_of (omap_del k m) = (map_of m)(k := None)"
  by (induction m) (auto simp: omap_del_def)

lemma keys_omap_set [simp]: "fst ` set (omap_set k v m) = insert k (fst ` set m)"
  by (induction m) (force split: if_splits)+

lemma omap_ok_set [simp]: "omap_ok m \<Longrightarrow> omap_ok (omap_set k v m)"
  unfolding omap_ok_def by (induction k v m rule: omap_set.induct) auto

lemma omap_ok_del [simp]: "omap_ok m \<Longrightarrow> omap_ok (omap_del k m)"
  unfolding omap_ok_def omap_del_def by (simp add: distinct_map_filter)

lemma length_omap_set: "length (omap_set k v m) = (if k \<in> fst ` set m then length m else Suc (length m))"
  by (induction m) (force split: if_splits)+

lemma omap_ok_Nil [simp]: "omap_ok []"
  by (simp add: omap_ok_def)

section \<open>Decimal strings\<close>

definition digit_char :: "nat \<Rightarrow> char" where
  "digit_char d = char_of (48 + d)"

fun show_nat :: "nat \<Rightarrow> string" where
  "show_nat n = (if n < 10 then [digit_char n] else show_nat (n div 10) @ [digit_char (n mod 10)])"

declare show_nat.simps [simp del]

text \<open>\<open>String(i)\<close> of a \<open>bigint\<close>.\<close>

definition show_int :: "int \<Rightarrow> string" where
  "show_int i = (if i < 0 then CHR ''-'' # show_nat (nat (- i)) else show_nat (nat i))"

definition is_digit :: "char \<Rightarrow> bool" where
  "is_digit c \<longleftrightarrow> 48 \<le> (of_char c :: nat) \<and> (of_char c :: nat) \<le> 57"

text \<open>The regular expression \<open>/^\d+$/\<close>.\<close>

definition is_digits :: "string \<Rightarrow> bool" where
  "is_digits s \<longleftrightarrow> s \<noteq> [] \<and> list_all is_digit s"

text \<open>\<open>BigInt(s)\<close> of a string of digits.\<close>

definition parse_nat :: "string \<Rightarrow> nat" where
  "parse_nat s = foldl (\<lambda>a c. 10 * a + (of_char c - 48)) 0 s"

lemma of_char_digit [simp]: "d < 10 \<Longrightarrow> (of_char (digit_char d) :: nat) = 48 + d"
  by (simp add: digit_char_def)

lemma is_digit_digit [simp]: "d < 10 \<Longrightarrow> is_digit (digit_char d)"
  by (simp add: is_digit_def)

lemma show_nat_digits [simp]: "is_digits (show_nat n)"
proof (induction n rule: show_nat.induct)
  case (1 n)
  show ?case
    by (subst show_nat.simps) (use 1 in \<open>auto simp: is_digits_def\<close>)
qed

lemma parse_show_nat [simp]: "parse_nat (show_nat n) = n"
proof (induction n rule: show_nat.induct)
  case (1 n)
  show ?case
    by (subst show_nat.simps) (use 1 in \<open>auto simp: parse_nat_def\<close>)
qed

lemma show_nat_not_minus: "show_nat n \<noteq> CHR ''-'' # s"
  using show_nat_digits [of n] by (auto simp: is_digits_def is_digit_def)

lemma show_int_inject [simp]: "show_int i = show_int j \<longleftrightarrow> i = j"
proof
  have inj: "m = n" if "show_nat m = show_nat n" for m n
    using that by (metis parse_show_nat)
  assume "show_int i = show_int j"
  then show "i = j"
    using show_nat_not_minus show_nat_not_minus [symmetric]
    by (auto simp: show_int_def split: if_splits dest!: inj)
qed simp

lemma show_int_digits [simp]: "is_digits (show_int i) \<longleftrightarrow> 0 \<le> i"
  by (auto simp: show_int_def) (simp add: is_digits_def is_digit_def)

lemma parse_show_int: "0 \<le> i \<Longrightarrow> int (parse_nat (show_int i)) = i"
  by (simp add: show_int_def)

section \<open>Strings\<close>

text \<open>The code units below 256 that \<open>trim\<close> and \<open>\s\<close> take for white space.\<close>

definition js_space :: "char \<Rightarrow> bool" where
  "js_space c \<longleftrightarrow> (of_char c :: nat) \<in> {9, 10, 11, 12, 13, 32, 160}"

definition js_trim :: "string \<Rightarrow> string" where
  "js_trim s = rev (dropWhile js_space (rev (dropWhile js_space s)))"

lemma dropWhile_idem [simp]: "dropWhile P (dropWhile P xs) = dropWhile P xs"
  by (induction xs) auto

lemma hd_dropWhile_not: "dropWhile P xs \<noteq> [] \<Longrightarrow> \<not> P (hd (dropWhile P xs))"
  by (induction xs) auto

lemma dropWhile_rev_dropWhile:
  assumes "ys = [] \<or> \<not> P (hd ys)"
  shows "dropWhile P (rev (dropWhile P (rev ys))) = rev (dropWhile P (rev ys))"
proof -
  define zs where "zs = rev (dropWhile P (rev ys))"
  obtain us where "ys = zs @ us"
    unfolding zs_def by (metis rev_append rev_rev_ident takeWhile_dropWhile_id)
  with assms have "zs = [] \<or> \<not> P (hd zs)" by (cases zs) auto
  then show ?thesis unfolding zs_def [symmetric] by (cases zs) auto
qed

lemma js_trim_idem [simp]: "js_trim (js_trim s) = js_trim s"
  unfolding js_trim_def
  using dropWhile_rev_dropWhile [of "dropWhile js_space s" js_space] hd_dropWhile_not [of js_space s]
  by (metis dropWhile_idem rev_rev_ident)

lemma js_trim_Nil [simp]: "js_trim [] = []"
  by (simp add: js_trim_def)

end
