(* ===== verification/Unicode.thy ===== *)
theory Unicode
  imports Cogno_Prelude "HOL-Library.Sublist" "HOL-Library.Word"
begin

text \<open>
  Text as the browser handles it.  A string is its list of Unicode code points (\<open>for (const ch of s)\<close>,
  the iteration of every function below, yields exactly these); the theories on text and on URLs use
  this type.  Here are what the platform provides: UTF-8 in both directions (\<open>TextEncoder\<close>, and the
  Encoding Standard's decoder with its replacement character), the white space of \<open>\s\<close>,
  \<open>encodeURIComponent\<close> and the query parser of \<open>URLSearchParams\<close>; and the byte measure of
  \<open>app/src/lib/bytes.ts\<close>.
\<close>

type_synonym ustring = "nat list"

definition ascii :: "string \<Rightarrow> ustring" where
  "ascii s = map of_char s"

definition surrogate :: "nat \<Rightarrow> bool" where
  "surrogate c \<longleftrightarrow> 0xD800 \<le> c \<and> c \<le> 0xDFFF"

definition scalar :: "nat \<Rightarrow> bool" where
  "scalar c \<longleftrightarrow> c \<le> 0x10FFFF \<and> \<not> surrogate c"

definition white :: "nat \<Rightarrow> bool" where
  "white c \<longleftrightarrow> 9 \<le> c \<and> c \<le> 13 \<or> c = 32 \<or> c = 160 \<or> c = 0x1680 \<or> 0x2000 \<le> c \<and> c \<le> 0x200A \<or>
     c = 0x2028 \<or> c = 0x2029 \<or> c = 0x202F \<or> c = 0x205F \<or> c = 0x3000 \<or> c = 0xFEFF"

definition utrim :: "ustring \<Rightarrow> ustring" where
  "utrim s = rev (dropWhile white (rev (dropWhile white s)))"

section \<open>UTF-8\<close>

definition utf8_char :: "nat \<Rightarrow> nat list" where
  "utf8_char c =
     (if c < 0x80 then [c]
      else if c < 0x800 then [0xC0 + c div 64, 0x80 + c mod 64]
      else if surrogate c then [0xEF, 0xBF, 0xBD]
      else if c < 0x10000 then [0xE0 + c div 4096, 0x80 + c div 64 mod 64, 0x80 + c mod 64]
      else [0xF0 + c div 262144, 0x80 + c div 4096 mod 64, 0x80 + c div 64 mod 64, 0x80 + c mod 64])"

definition utf8_encode :: "ustring \<Rightarrow> nat list" where
  "utf8_encode s = concat (map utf8_char s)"

lemma utf8_encode_simps [simp]:
  "utf8_encode [] = []" "utf8_encode (c # s) = utf8_char c @ utf8_encode s"
  "utf8_encode (s @ t) = utf8_encode s @ utf8_encode t"
  by (simp_all add: utf8_encode_def)

lemma utf8_char_nonempty [simp]: "utf8_char c \<noteq> []"
  by (simp add: utf8_char_def)

lemma utf8_encode_ascii: "list_all (\<lambda>c. c < 0x80) s \<Longrightarrow> utf8_encode s = s"
  by (induction s) (simp_all add: utf8_char_def)

definition contb :: "nat \<Rightarrow> bool" where
  "contb b \<longleftrightarrow> 0x80 \<le> b \<and> b \<le> 0xBF"

text \<open>The second byte of a three- or four-byte sequence: no overlong form, no surrogate, no value above U+10FFFF.\<close>

definition second_ok :: "nat \<Rightarrow> nat \<Rightarrow> bool" where
  "second_ok b c \<longleftrightarrow> (if b = 0xE0 then 0xA0 else if b = 0xF0 then 0x90 else 0x80) \<le> c \<and>
     c \<le> (if b = 0xED then 0x9F else if b = 0xF4 then 0x8F else 0xBF)"

fun utf8_decode :: "nat list \<Rightarrow> ustring" where
  "utf8_decode [] = []"
| "utf8_decode (b # bs) =
     (if b < 0x80 then b # utf8_decode bs
      else if 0xC2 \<le> b \<and> b \<le> 0xDF then
        (case bs of
           c # r \<Rightarrow> if contb c then ((b - 0xC0) * 64 + (c - 0x80)) # utf8_decode r else 0xFFFD # utf8_decode (c # r)
         | [] \<Rightarrow> [0xFFFD])
      else if 0xE0 \<le> b \<and> b \<le> 0xEF then
        (case bs of
           c # d # r \<Rightarrow> if \<not> second_ok b c then 0xFFFD # utf8_decode (c # d # r)
             else if contb d then ((b - 0xE0) * 4096 + (c - 0x80) * 64 + (d - 0x80)) # utf8_decode r
             else 0xFFFD # utf8_decode (d # r)
         | [c] \<Rightarrow> if second_ok b c then [0xFFFD] else 0xFFFD # utf8_decode [c]
         | [] \<Rightarrow> [0xFFFD])
      else if 0xF0 \<le> b \<and> b \<le> 0xF4 then
        (case bs of
           c # d # e # r \<Rightarrow> if \<not> second_ok b c then 0xFFFD # utf8_decode (c # d # e # r)
             else if \<not> contb d then 0xFFFD # utf8_decode (d # e # r)
             else if contb e then ((b - 0xF0) * 262144 + (c - 0x80) * 4096 + (d - 0x80) * 64 + (e - 0x80)) # utf8_decode r
             else 0xFFFD # utf8_decode (e # r)
         | [c, d] \<Rightarrow> if \<not> second_ok b c then 0xFFFD # utf8_decode [c, d]
             else if contb d then [0xFFFD] else 0xFFFD # utf8_decode [d]
         | [c] \<Rightarrow> if second_ok b c then [0xFFFD] else 0xFFFD # utf8_decode [c]
         | [] \<Rightarrow> [0xFFFD])
      else 0xFFFD # utf8_decode bs)"

declare utf8_decode.simps(2) [simp del]

lemma radix64:
  fixes c :: nat
  shows "c = c div 64 * 64 + c mod 64"
    and "c = c div 4096 * 4096 + c div 64 mod 64 * 64 + c mod 64"
    and "c = c div 262144 * 262144 + c div 4096 mod 64 * 4096 + c div 64 mod 64 * 64 + c mod 64"
proof -
  have d: "c div 64 div 64 = c div 4096" "c div 4096 div 64 = c div 262144"
    by (simp_all add: div_mult2_eq [symmetric])
  show 1: "c = c div 64 * 64 + c mod 64" by simp
  have 2: "c div 64 = c div 4096 * 64 + c div 64 mod 64"
    using div_mult_mod_eq [of "c div 64" 64] unfolding d by simp
  have 3: "c div 4096 = c div 262144 * 64 + c div 4096 mod 64"
    using div_mult_mod_eq [of "c div 4096" 64] unfolding d by simp
  show "c = c div 4096 * 4096 + c div 64 mod 64 * 64 + c mod 64" using 1 2 by linarith
  then show "c = c div 262144 * 262144 + c div 4096 mod 64 * 4096 + c div 64 mod 64 * 64 + c mod 64"
    using 3 by linarith
qed

lemma utf8_decode_char:
  assumes "scalar c"
  shows "utf8_decode (utf8_char c @ bs) = c # utf8_decode bs"
proof -
  consider "c < 0x80" | "0x80 \<le> c" "c < 0x800" | "0x800 \<le> c" "c < 0x10000" | "0x10000 \<le> c" by linarith
  then show ?thesis
  proof cases
    case 1
    then show ?thesis by (simp add: utf8_char_def utf8_decode.simps(2))
  next
    case 2
    define x z where "x = c div 64" and "z = c mod 64"
    have c: "c = x * 64 + z" unfolding x_def z_def by (rule radix64)
    moreover have z: "z \<le> 63" by (simp add: z_def)
    moreover have "2 \<le> x" "x \<le> 31" using 2 c z by linarith+
    moreover have "utf8_char c = [0xC0 + x, 0x80 + z]"
      using 2 by (simp add: utf8_char_def x_def z_def)
    ultimately show ?thesis by (simp add: utf8_decode.simps(2) contb_def)
  next
    case 3
    define x y z where "x = c div 4096" and "y = c div 64 mod 64" and "z = c mod 64"
    have c: "c = x * 4096 + y * 64 + z" unfolding x_def y_def z_def by (rule radix64)
    have le: "y \<le> 63" "z \<le> 63" by (simp_all add: y_def z_def)
    have x: "x \<le> 15" using 3 c by linarith
    have "x = 0 \<longrightarrow> 32 \<le> y" using 3 c le by (intro impI) linarith
    moreover have "x = 13 \<longrightarrow> y \<le> 31" using assms 3 c le unfolding scalar_def surrogate_def by linarith
    ultimately have "second_ok (0xE0 + x) (0x80 + y)" using le x by (auto simp: second_ok_def)
    moreover have "utf8_char c = [0xE0 + x, 0x80 + y, 0x80 + z]"
      using 3 assms by (simp add: utf8_char_def scalar_def x_def y_def z_def)
    ultimately show ?thesis using le x c by (simp add: utf8_decode.simps(2) contb_def)
  next
    case 4
    define w x y z where "w = c div 262144" and "x = c div 4096 mod 64" and "y = c div 64 mod 64" and "z = c mod 64"
    have c: "c = w * 262144 + x * 4096 + y * 64 + z" unfolding w_def x_def y_def z_def by (rule radix64)
    have le: "x \<le> 63" "y \<le> 63" "z \<le> 63" by (simp_all add: x_def y_def z_def)
    have w: "w \<le> 4" using assms c unfolding scalar_def by linarith
    have "w = 0 \<longrightarrow> 16 \<le> x" using 4 c le by (intro impI) linarith
    moreover have "w = 4 \<longrightarrow> x \<le> 15" using assms c le unfolding scalar_def by linarith
    ultimately have "second_ok (0xF0 + w) (0x80 + x)" using le w by (auto simp: second_ok_def)
    moreover have "utf8_char c = [0xF0 + w, 0x80 + x, 0x80 + y, 0x80 + z]"
      using 4 assms by (simp add: utf8_char_def scalar_def w_def x_def y_def z_def)
    ultimately show ?thesis using le w c by (simp add: utf8_decode.simps(2) contb_def)
  qed
qed

lemma utf8_roundtrip: "list_all scalar s \<Longrightarrow> utf8_decode (utf8_encode s) = s"
  by (induction s) (simp_all add: utf8_decode_char)

lemma utf8_char_bytes: "scalar c \<Longrightarrow> list_all (\<lambda>b. b < 256) (utf8_char c)"
  by (auto simp: utf8_char_def scalar_def)

lemma utf8_encode_bytes: "list_all scalar s \<Longrightarrow> list_all (\<lambda>b. b < 256) (utf8_encode s)"
  by (induction s) (simp_all add: utf8_char_bytes)

text \<open>\<open>Binary.fromText\<close> of the client library: the bytes of a text.\<close>

definition fromText :: "ustring \<Rightarrow> 8 word list" where
  "fromText s = map of_nat (utf8_encode s)"

lemma fromText_append: "fromText (s @ t) = fromText s @ fromText t"
  by (simp add: fromText_def)

section \<open>The byte measure of a bounded field\<close>

record byte_measure =
  bm_bytes :: int
  bm_remaining :: int
  bm_over :: bool

definition utf8Bytes :: "ustring \<Rightarrow> nat" where
  "utf8Bytes s = length (utf8_encode s)"

fun clamp_loop :: "nat \<Rightarrow> nat \<Rightarrow> ustring \<Rightarrow> ustring \<Rightarrow> ustring" where
  "clamp_loop maxBytes tot out [] = out"
| "clamp_loop maxBytes tot out (ch # s) =
     (let b = utf8Bytes [ch]
      in if maxBytes < tot + b then out else clamp_loop maxBytes (tot + b) (out @ [ch]) s)"

definition clampToBytes :: "ustring \<Rightarrow> nat \<Rightarrow> ustring" where
  "clampToBytes s maxBytes = clamp_loop maxBytes 0 [] s"

definition measureBytes :: "ustring \<Rightarrow> nat \<Rightarrow> byte_measure" where
  "measureBytes value maxBytes =
     (let bytes = int (utf8Bytes value)
      in \<lparr>bm_bytes = bytes, bm_remaining = int maxBytes - bytes, bm_over = (int maxBytes < bytes)\<rparr>)"

lemma utf8Bytes_simps [simp]:
  "utf8Bytes [] = 0" "utf8Bytes (c # s) = length (utf8_char c) + utf8Bytes s"
  "utf8Bytes (s @ t) = utf8Bytes s + utf8Bytes t"
  by (simp_all add: utf8Bytes_def)

lemma utf8_char_pos: "0 < length (utf8_char c)"
  by simp

lemma clamp_loop_spec:
  assumes "tot = utf8Bytes out" and "tot \<le> m"
  shows "\<exists>r. prefix r s \<and> clamp_loop m tot out s = out @ r \<and> utf8Bytes (out @ r) \<le> m \<and>
           (\<forall>p. prefix p s \<longrightarrow> utf8Bytes (out @ p) \<le> m \<longrightarrow> prefix p r)"
  using assms
proof (induction s arbitrary: tot out)
  case (Cons c s)
  show ?case
  proof (cases "m < tot + length (utf8_char c)")
    case True
    with Cons.prems show ?thesis by (intro exI [of _ "[]"]) (auto simp: prefix_Cons)
  next
    case False
    with Cons.prems Cons.IH [of "tot + length (utf8_char c)" "out @ [c]"] obtain r where
      r: "prefix r s" "clamp_loop m (tot + length (utf8_char c)) (out @ [c]) s = (out @ [c]) @ r"
        "utf8Bytes ((out @ [c]) @ r) \<le> m"
        "\<forall>p. prefix p s \<longrightarrow> utf8Bytes ((out @ [c]) @ p) \<le> m \<longrightarrow> prefix p r"
      by auto
    with False show ?thesis by (intro exI [of _ "c # r"]) (auto simp: prefix_Cons)
  qed
qed simp

text \<open>
  C8: clamping a draft keeps its longest prefix of whole code points whose UTF-8 form fits: the result
  is a prefix, it fits the cap and so is accepted by the measure the button is gated on, and every
  prefix of the draft that fits is a prefix of it.
\<close>

theorem clampToBytes_longest:
  "prefix (clampToBytes s m) s \<and> \<not> bm_over (measureBytes (clampToBytes s m) m) \<and>
   (\<forall>p. prefix p s \<and> \<not> bm_over (measureBytes p m) \<longrightarrow> prefix p (clampToBytes s m))"
  using clamp_loop_spec [of 0 "[]" m s]
  by (auto simp: clampToBytes_def measureBytes_def Let_def)

lemma clampToBytes_longest_witness:
  "prefix (clampToBytes [0x41, 0x20AC, 0x42] 4) [0x41, 0x20AC, 0x42] \<and>
   \<not> bm_over (measureBytes [0x41, 0x20AC] 4) \<and> prefix [0x41, 0x20AC] (clampToBytes [0x41, 0x20AC, 0x42] 4)"
proof -
  have "\<not> bm_over (measureBytes [0x41, 0x20AC] 4)"
    by (simp add: measureBytes_def utf8_char_def surrogate_def)
  then show ?thesis using clampToBytes_longest [of "[0x41, 0x20AC, 0x42]" 4] by simp
qed

end
