(* ===== verification/Routes.thy ===== *)
theory Routes
  imports Unicode
begin

text \<open>
  Where a visitor may go and where the sign-in flow sends them back to: the route table
  (\<open>app/src/lib/routeAccess.ts\<close>), the validated return target (\<open>returnTo.ts\<close>), the remembered content
  route (\<open>onboardingReturn.ts\<close>) and the dynamic segment of a route (\<open>routeSegment.ts\<close>).  The return
  target comes off the URL, so it is the security boundary: it is shown never to leave the origin.

  \<open>encodeURIComponent\<close>, \<open>decodeURIComponent\<close> and \<open>URLSearchParams\<close> are written out from their standards;
  \<open>sessionStorage\<close> is one cell that may be unavailable.
\<close>

section \<open>Percent encoding\<close>

definition unreserved :: "nat \<Rightarrow> bool" where
  "unreserved b \<longleftrightarrow> 48 \<le> b \<and> b \<le> 57 \<or> 65 \<le> b \<and> b \<le> 90 \<or> 97 \<le> b \<and> b \<le> 122 \<or> b \<in> set (ascii ''-_.!~*()'') \<or> b = 39"

definition hex_digit :: "nat \<Rightarrow> nat" where
  "hex_digit d = (if d < 10 then 48 + d else 55 + d)"

definition pct_byte :: "nat \<Rightarrow> nat list" where
  "pct_byte b = (if unreserved b then [b] else [37, hex_digit (b div 16), hex_digit (b mod 16)])"

text \<open>\<open>None\<close> is the \<open>URIError\<close> of a lone surrogate.\<close>

definition encodeURIComponent :: "ustring \<Rightarrow> ustring option" where
  "encodeURIComponent s =
     (if list_ex surrogate s then None else Some (concat (map pct_byte (utf8_encode s))))"

definition hex_value :: "nat \<Rightarrow> nat option" where
  "hex_value c = (if 48 \<le> c \<and> c \<le> 57 then Some (c - 48) else if 65 \<le> c \<and> c \<le> 70 then Some (c - 55)
                  else if 97 \<le> c \<and> c \<le> 102 then Some (c - 87) else None)"

fun percent_decode :: "nat list \<Rightarrow> nat list" where
  "percent_decode (b # h # l # bs) =
     (if b = 37 then (case (hex_value h, hex_value l) of
          (Some x, Some y) \<Rightarrow> (16 * x + y) # percent_decode bs
        | _ \<Rightarrow> b # percent_decode (h # l # bs))
      else b # percent_decode (h # l # bs))"
| "percent_decode bs = bs"

section \<open>URLSearchParams\<close>

fun split_on :: "nat \<Rightarrow> ustring \<Rightarrow> ustring list" where
  "split_on d [] = [[]]"
| "split_on d (c # s) = (if c = d then [] # split_on d s
                         else case split_on d s of [] \<Rightarrow> [[c]] | x # xs \<Rightarrow> (c # x) # xs)"

definition form_decode :: "ustring \<Rightarrow> ustring" where
  "form_decode s = utf8_decode (percent_decode (utf8_encode (map (\<lambda>c. if c = 43 then 32 else c) s)))"

definition form_pair :: "ustring \<Rightarrow> ustring \<times> ustring" where
  "form_pair p = (form_decode (takeWhile (\<lambda>c. c \<noteq> 61) p), form_decode (drop 1 (dropWhile (\<lambda>c. c \<noteq> 61) p)))"

definition search_params :: "ustring \<Rightarrow> (ustring \<times> ustring) list" where
  "search_params search =
     (let q = (case search of c # s \<Rightarrow> if c = 63 then s else search | [] \<Rightarrow> [])
      in map form_pair (filter (\<lambda>p. p \<noteq> []) (split_on 38 q)))"

definition params_get :: "ustring \<Rightarrow> ustring \<Rightarrow> ustring option" where
  "params_get search name = map_of (search_params search) name"

section \<open>The validated return target\<close>

definition RETURN_PARAM :: ustring where "RETURN_PARAM = ascii ''next''"
definition DEFAULT_RETURN :: ustring where "DEFAULT_RETURN = ascii ''/''"

definition starts :: "ustring \<Rightarrow> string \<Rightarrow> bool" where
  "starts s p \<longleftrightarrow> prefix (ascii p) s"

text \<open>The character class of the third guard: the C0 controls, DEL and white space.\<close>

definition control_or_white :: "nat \<Rightarrow> bool" where
  "control_or_white c \<longleftrightarrow> c \<le> 0x1F \<or> c = 0x7F \<or> white c"

definition safeReturnTo :: "ustring option \<Rightarrow> ustring" where
  "safeReturnTo raw = (case raw of None \<Rightarrow> DEFAULT_RETURN | Some s \<Rightarrow>
     if s = [] then DEFAULT_RETURN
     else if \<not> starts s ''/'' then DEFAULT_RETURN
     else if starts s ''//'' \<or> prefix [47, 92] s then DEFAULT_RETURN
     else if list_ex control_or_white s then DEFAULT_RETURN
     else if s = ascii ''/welcome'' \<or> starts s ''/welcome/'' \<or> starts s ''/welcome?'' then DEFAULT_RETURN
     else s)"

definition readReturnTo :: "ustring \<Rightarrow> ustring" where
  "readReturnTo search = safeReturnTo (params_get search RETURN_PARAM)"

definition welcomeUrlFor :: "ustring option \<Rightarrow> ustring \<Rightarrow> ustring option" where
  "welcomeUrlFor pathname search =
     (let here = coalesce pathname [] @ search;
          target = safeReturnTo (Some here)
      in if target = DEFAULT_RETURN then Some (ascii ''/welcome/'')
         else map_option (\<lambda>enc. ascii ''/welcome/?'' @ RETURN_PARAM @ ascii ''='' @ enc) (encodeURIComponent target))"

section \<open>The route table\<close>

definition PUBLIC_SEGMENTS :: "string list" where
  "PUBLIC_SEGMENTS = ['''', ''explore'', ''governance'', ''post'', ''u'', ''legal'', ''privacy'', ''policy'',
     ''bookmarks'', ''lists'']"

definition WELCOME_SEGMENT :: string where "WELCOME_SEGMENT = ''welcome''"

definition has_segment :: "string list \<Rightarrow> ustring \<Rightarrow> bool" where
  "has_segment segs s \<longleftrightarrow> s \<in> set (map ascii segs)"

definition firstSegment :: "ustring \<Rightarrow> ustring" where
  "firstSegment pathname = (case split_on 47 pathname of _ # seg # _ \<Rightarrow> seg | _ \<Rightarrow> [])"

definition isPublicPath :: "ustring option \<Rightarrow> bool" where
  "isPublicPath pathname = (case pathname of None \<Rightarrow> False
     | Some p \<Rightarrow> if p = [] then False else has_segment PUBLIC_SEGMENTS (firstSegment p))"

definition isWalledForGuest :: "ustring option \<Rightarrow> bool" where
  "isWalledForGuest pathname = (case pathname of None \<Rightarrow> True
     | Some p \<Rightarrow> if p = [] then True
        else let seg = firstSegment p
             in if seg = ascii WELCOME_SEGMENT then False else \<not> has_segment PUBLIC_SEGMENTS seg)"

section \<open>The remembered content route\<close>

definition RETURNABLE_SEGMENTS :: "string list" where "RETURNABLE_SEGMENTS = [''post'', ''u'']"

definition HUB_SEGMENTS :: "string list" where
  "HUB_SEGMENTS = ['''', ''explore'', ''governance'', ''legal'', ''privacy'', ''policy'', ''bookmarks'', ''lists'']"

record session_cell =
  sc_available :: bool
  sc_value :: "ustring option"

definition rememberContentRoute :: "ustring \<Rightarrow> session_cell \<Rightarrow> session_cell" where
  "rememberContentRoute pathname cell =
     (let seg = firstSegment pathname
      in if \<not> sc_available cell then cell
         else if has_segment RETURNABLE_SEGMENTS seg then cell\<lparr>sc_value := Some pathname\<rparr>
         else if has_segment HUB_SEGMENTS seg then cell\<lparr>sc_value := None\<rparr>
         else cell)"

definition consumeReturnTarget :: "ustring \<Rightarrow> session_cell \<Rightarrow> ustring \<times> session_cell" where
  "consumeReturnTarget search cell =
     (let fromNext = readReturnTo search
      in if fromNext \<noteq> DEFAULT_RETURN then (fromNext, cell)
         else if \<not> sc_available cell then (DEFAULT_RETURN, cell)
         else case sc_value cell of
                Some remembered \<Rightarrow> if remembered = [] then (DEFAULT_RETURN, cell)
                  else (safeReturnTo (Some remembered), cell\<lparr>sc_value := None\<rparr>)
              | None \<Rightarrow> (DEFAULT_RETURN, cell))"

section \<open>The dynamic segment\<close>

text \<open>\<open>decodeURIComponent\<close> rejects a malformed escape and an ill-formed byte sequence.\<close>

fun pct_bytes :: "ustring \<Rightarrow> nat list option" where
  "pct_bytes [] = Some []"
| "pct_bytes (c # s) =
     (if c = 37 then (case s of
          h # l # r \<Rightarrow> (case (hex_value h, hex_value l) of
              (Some x, Some y) \<Rightarrow> map_option ((#) (16 * x + y)) (pct_bytes r)
            | _ \<Rightarrow> None)
        | _ \<Rightarrow> None)
      else map_option ((@) (utf8_char c)) (pct_bytes s))"

definition decodeURIComponent :: "ustring \<Rightarrow> ustring option" where
  "decodeURIComponent s = (case pct_bytes s of None \<Rightarrow> None
     | Some bs \<Rightarrow> if utf8_encode (utf8_decode bs) = bs then Some (utf8_decode bs) else None)"

definition routeSegmentOf :: "ustring \<Rightarrow> ustring \<Rightarrow> ustring" where
  "routeSegmentOf pathname base =
     (let pre = 47 # base @ [47]
      in if \<not> prefix pre pathname then []
         else let seg = hd (split_on 47 (drop (length pre) pathname))
              in coalesce (decodeURIComponent seg) seg)"

definition holdSegment :: "ustring \<Rightarrow> ustring \<Rightarrow> ustring" where
  "holdSegment prev nxt = (if nxt \<noteq> [] then nxt else prev)"

section \<open>Encoding and decoding\<close>

lemma hex_value_digit: "d < 16 \<Longrightarrow> hex_value (hex_digit d) = Some d"
  by (auto simp: hex_value_def hex_digit_def)

lemma ascii_simps [simp]: "ascii [] = []" "ascii (c # s) = of_char c # ascii s" "ascii (s @ t) = ascii s @ ascii t"
  by (simp_all add: ascii_def)

lemma unreserved_set: "set (ascii ''-_.!~*()'') = {45, 95, 46, 33, 126, 42, 40, 41}"
  by (auto simp: ascii_def)

lemma not_unreserved_37 [simp]: "\<not> unreserved 37"
  by (simp add: unreserved_def unreserved_set)

lemma percent_decode_plain: "b \<noteq> 37 \<Longrightarrow> percent_decode (b # bs) = b # percent_decode bs"
  by (cases bs rule: percent_decode.cases) (auto split: prod.splits option.splits)

lemma percent_decode_byte:
  assumes "b < 256"
  shows "percent_decode (pct_byte b @ bs) = b # percent_decode bs"
proof (cases "unreserved b")
  case True
  then have "b \<noteq> 37" by auto
  with True show ?thesis by (simp add: pct_byte_def percent_decode_plain)
next
  case False
  have "hex_value (hex_digit (b div 16)) = Some (b div 16)" using assms by (intro hex_value_digit) linarith
  moreover have "hex_value (hex_digit (b mod 16)) = Some (b mod 16)" by (rule hex_value_digit) simp
  moreover have "16 * (b div 16) + b mod 16 = b" by simp
  ultimately show ?thesis using False by (simp add: pct_byte_def)
qed

lemma percent_decode_encode: "list_all (\<lambda>b. b < 256) bs \<Longrightarrow> percent_decode (concat (map pct_byte bs)) = bs"
  by (induction bs) (simp_all add: percent_decode_byte)

lemma unreserved_hex: "d < 16 \<Longrightarrow> unreserved (hex_digit d)"
  by (cases "d < 10") (simp_all add: hex_digit_def unreserved_def)

lemma pct_byte_chars:
  assumes "c \<in> set (pct_byte b)" and "b < 256"
  shows "unreserved c \<or> c = 37"
proof -
  have "unreserved (hex_digit (b div 16))" "unreserved (hex_digit (b mod 16))"
    using assms(2) by (auto intro!: unreserved_hex)
  with assms(1) show ?thesis by (cases "unreserved b") (auto simp: pct_byte_def)
qed

definition url_safe :: "ustring \<Rightarrow> bool" where
  "url_safe s \<longleftrightarrow> (\<forall>c \<in> set s. unreserved c \<or> c = 37)"

lemma url_safe_encoded:
  "list_all (\<lambda>b. b < 256) bs \<Longrightarrow> url_safe (concat (map pct_byte bs))"
  unfolding url_safe_def by (auto simp: list_all_iff dest: pct_byte_chars)

lemma url_safe_ascii: "url_safe s \<Longrightarrow> c \<in> set s \<Longrightarrow> c < 0x80 \<and> c \<notin> {38, 61, 43, 47, 63}"
  by (auto simp: url_safe_def unreserved_def unreserved_set)

lemma encodeURIComponent_scalar:
  assumes "list_all scalar s"
  shows "\<exists>enc. encodeURIComponent s = Some enc \<and> url_safe enc \<and> percent_decode enc = utf8_encode s"
proof -
  have "\<not> list_ex surrogate s" using assms by (auto simp: list_ex_iff list_all_iff scalar_def)
  then show ?thesis
    using utf8_encode_bytes [OF assms]
    by (simp add: encodeURIComponent_def url_safe_encoded percent_decode_encode)
qed

lemma form_decode_encoded:
  assumes "url_safe enc" and "percent_decode enc = utf8_encode s" and "list_all scalar s"
  shows "form_decode enc = s"
proof -
  have "map (\<lambda>c. if c = 43 then 32 else c) enc = enc"
    using url_safe_ascii [OF assms(1)] by (intro map_idI) auto
  moreover have "utf8_encode enc = enc"
    using url_safe_ascii [OF assms(1)] by (intro utf8_encode_ascii) (auto simp: list_all_iff)
  ultimately show ?thesis using assms(2,3) by (simp add: form_decode_def utf8_roundtrip)
qed

lemma split_on_none: "d \<notin> set s \<Longrightarrow> split_on d s = [s]"
  by (induction s) auto

lemma split_on_first: "d \<notin> set s \<Longrightarrow> \<exists>rest. split_on d (s @ t) = (case split_on d t of x # xs \<Rightarrow> (s @ x) # xs | [] \<Rightarrow> rest)"
  by (induction s) (auto split: list.splits)

lemma split_on_nonempty [simp]: "split_on d s \<noteq> []"
  by (induction s) (auto split: list.splits)

lemma hd_split_on: "hd (split_on d s) = takeWhile (\<lambda>c. c \<noteq> d) s"
proof (induction s)
  case (Cons c s)
  then show ?case by (cases "split_on d s") auto
qed simp

section \<open>The return target stays on this origin\<close>

text \<open>
  How a browser resolves the target against the current page (the URL Standard's basic parser): it
  strips C0 controls and spaces at the ends and every tab and newline, then a scheme makes it an
  absolute URL, and two leading slashes, of either kind, introduce a host.
\<close>

definition url_strip :: "ustring \<Rightarrow> ustring" where
  "url_strip s = filter (\<lambda>c. c \<notin> {9, 10, 13})
     (rev (dropWhile (\<lambda>c. c \<le> 0x20) (rev (dropWhile (\<lambda>c. c \<le> 0x20) s))))"

definition alpha :: "nat \<Rightarrow> bool" where
  "alpha c \<longleftrightarrow> 65 \<le> c \<and> c \<le> 90 \<or> 97 \<le> c \<and> c \<le> 122"

definition has_scheme :: "ustring \<Rightarrow> bool" where
  "has_scheme s = (case s of [] \<Rightarrow> False
     | c # r \<Rightarrow> alpha c \<and> prefix [58] (dropWhile (\<lambda>c. alpha c \<or> 48 \<le> c \<and> c \<le> 57 \<or> c \<in> {43, 45, 46}) r))"

definition leaves_origin :: "ustring \<Rightarrow> bool" where
  "leaves_origin s = (let t = url_strip s
     in has_scheme t \<or> (case t of a # b # _ \<Rightarrow> a \<in> {47, 92} \<and> b \<in> {47, 92} | _ \<Rightarrow> False))"

lemma dropWhile_none: "(\<And>c. c \<in> set s \<Longrightarrow> \<not> P c) \<Longrightarrow> dropWhile P s = s"
  by (cases s) auto

lemma control_low: "c \<le> 0x20 \<Longrightarrow> control_or_white c"
  by (cases "c = 0x20") (simp_all add: control_or_white_def white_def)

lemma url_strip_clean:
  assumes "\<not> list_ex control_or_white s"
  shows "url_strip s = s"
proof -
  have no: "\<not> c \<le> 0x20" if "c \<in> set s" for c
    using assms that control_low by (auto simp: list_ex_iff)
  then have "dropWhile (\<lambda>c. c \<le> 0x20) s = s" "dropWhile (\<lambda>c. c \<le> 0x20) (rev s) = rev s"
    by (auto intro!: dropWhile_none)
  moreover have "filter (\<lambda>c. c \<notin> {9, 10, 13}) s = s" using no [of 9] no [of 10] no [of 13] by (intro filter_True) auto
  ultimately show ?thesis by (simp add: url_strip_def)
qed

lemma guard_chain:
  "(if a then d else if b then d else if c then d else if e then d else if f then d else s) = d \<or>
   (if a then d else if b then d else if c then d else if e then d else if f then d else s) = s \<and> \<not> b \<and> \<not> c \<and> \<not> e"
  by simp

lemma safeReturnTo_cases:
  "safeReturnTo raw = DEFAULT_RETURN \<or>
   (\<exists>s. raw = Some s \<and> safeReturnTo raw = s \<and> starts s ''/'' \<and> \<not> starts s ''//'' \<and> \<not> prefix [47, 92] s \<and>
        \<not> list_ex control_or_white s)"
proof (cases raw)
  case (Some s)
  have "safeReturnTo raw = DEFAULT_RETURN \<or>
      safeReturnTo raw = s \<and> \<not> \<not> starts s ''/'' \<and> \<not> (starts s ''//'' \<or> prefix [47, 92] s) \<and> \<not> list_ex control_or_white s"
    unfolding safeReturnTo_def Some option.case by (rule guard_chain)
  with Some show ?thesis by blast
qed (simp add: safeReturnTo_def)

text \<open>
  C9: whatever the URL or the session storage held, the page a visitor is sent to after signing in is
  on this origin: the validated target has no scheme and no host, contains no control character or
  white space, and is either the untouched candidate or the timeline.
\<close>

theorem safeReturnTo_same_origin:
  "\<not> leaves_origin (safeReturnTo raw) \<and> \<not> list_ex control_or_white (safeReturnTo raw) \<and>
   (safeReturnTo raw = DEFAULT_RETURN \<or> raw = Some (safeReturnTo raw))"
proof -
  have dflt: "\<not> leaves_origin DEFAULT_RETURN" "\<not> list_ex control_or_white DEFAULT_RETURN"
    by (simp_all add: DEFAULT_RETURN_def leaves_origin_def url_strip_def has_scheme_def alpha_def
        control_or_white_def white_def)
  consider "safeReturnTo raw = DEFAULT_RETURN"
    | s where "raw = Some s" "safeReturnTo raw = s" "starts s ''/''" "\<not> starts s ''//''" "\<not> prefix [47, 92] s"
        "\<not> list_ex control_or_white s"
    using safeReturnTo_cases [of raw] by blast
  then show ?thesis
  proof cases
    case 2
    then obtain r where "s = 47 # r" by (cases s) (auto simp: starts_def)
    with 2 have "\<not> leaves_origin s"
      by (cases r) (auto simp: leaves_origin_def url_strip_clean has_scheme_def alpha_def starts_def)
    with 2 show ?thesis by simp
  qed (use dflt in simp)
qed

text \<open>
  C10: the destination carried across the wall survives it: reading back the query of the sign-in URL
  built for a page gives the validated target of that page, for every well-formed path and query.
\<close>

theorem welcomeUrl_roundtrip:
  assumes "list_all scalar (coalesce p [] @ q)" and "welcomeUrlFor p q = Some url"
  shows "readReturnTo (dropWhile (\<lambda>c. c \<noteq> 63) url) = safeReturnTo (Some (coalesce p [] @ q))"
proof -
  define t where "t = safeReturnTo (Some (coalesce p [] @ q))"
  have t: "list_all scalar t"
    using assms(1) by (auto simp: t_def safeReturnTo_def DEFAULT_RETURN_def scalar_def surrogate_def)
  show ?thesis
  proof (cases "t = DEFAULT_RETURN")
    case True
    then have "url = ascii ''/welcome/''" using assms(2) by (simp add: welcomeUrlFor_def Let_def t_def)
    then show ?thesis using True by (simp add: t_def readReturnTo_def params_get_def search_params_def safeReturnTo_def)
  next
    case False
    obtain enc where enc: "encodeURIComponent t = Some enc" "url_safe enc" "percent_decode enc = utf8_encode t"
      using encodeURIComponent_scalar [OF t] by blast
    note safe = url_safe_ascii [OF enc(2)]
    have url: "url = ascii ''/welcome/?next='' @ enc"
      using assms(2) False enc(1) by (simp add: welcomeUrlFor_def Let_def t_def RETURN_PARAM_def)
    have q: "dropWhile (\<lambda>c. c \<noteq> 63) url = 63 # ascii ''next='' @ enc" by (simp add: url)
    have "split_on 38 (ascii ''next='' @ enc) = [ascii ''next='' @ enc]"
      using safe by (intro split_on_none) auto
    then have "search_params (63 # ascii ''next='' @ enc) = [form_pair (ascii ''next='' @ enc)]"
      by (simp add: search_params_def)
    moreover have "form_pair (ascii ''next='' @ enc) = (ascii ''next'', t)"
      using form_decode_encoded [OF enc(2,3) t]
      by (simp add: form_pair_def form_decode_def [of "ascii ''next''", simplified] utf8_char_def utf8_decode.simps)
    ultimately have "params_get (63 # ascii ''next='' @ enc) RETURN_PARAM = Some t"
      by (simp only: params_get_def RETURN_PARAM_def) simp
    moreover have "safeReturnTo (Some t) = t"
      by (auto simp: t_def safeReturnTo_def DEFAULT_RETURN_def starts_def control_or_white_def white_def)
    ultimately show ?thesis by (simp add: q readReturnTo_def t_def)
  qed
qed

lemmas return_evals = safeReturnTo_def DEFAULT_RETURN_def starts_def control_or_white_def white_def
  firstSegment_def WELCOME_SEGMENT_def isPublicPath_def has_segment_def RETURNABLE_SEGMENTS_def PUBLIC_SEGMENTS_def
  scalar_def surrogate_def

lemmas encode_evals = encodeURIComponent_def utf8_char_def pct_byte_def hex_digit_def unreserved_def

lemma welcomeUrl_roundtrip_witness:
  "welcomeUrlFor (Some (ascii ''/post/1/'')) [] = Some (ascii ''/welcome/?next=%2Fpost%2F1%2F'') \<and>
   readReturnTo (dropWhile (\<lambda>c. c \<noteq> 63) (ascii ''/welcome/?next=%2Fpost%2F1%2F'')) =
     safeReturnTo (Some (coalesce (Some (ascii ''/post/1/'')) [] @ []))"
proof -
  have url: "welcomeUrlFor (Some (ascii ''/post/1/'')) [] = Some (ascii ''/welcome/?next=%2Fpost%2F1%2F'')"
    by (simp add: welcomeUrlFor_def RETURN_PARAM_def return_evals encode_evals)
  have "list_all scalar (coalesce (Some (ascii ''/post/1/'')) [] @ [])" by (simp add: return_evals)
  from welcomeUrl_roundtrip [OF this url] url show ?thesis by blast
qed

text \<open>
  The guard against returning to the wall misses a fragment: a target on the welcome page itself is
  kept when it carries a \<open>#\<close>.
\<close>

theorem welcome_fragment_kept:
  "safeReturnTo (Some (ascii ''/welcome#x'')) = ascii ''/welcome#x'' \<and>
   firstSegment (takeWhile (\<lambda>c. c \<noteq> 35) (ascii ''/welcome#x'')) = ascii WELCOME_SEGMENT"
  by (simp add: return_evals)

section \<open>The route table and the remembered route\<close>

lemma public_split:
  "has_segment PUBLIC_SEGMENTS seg \<longleftrightarrow> has_segment RETURNABLE_SEGMENTS seg \<or> has_segment HUB_SEGMENTS seg"
  by (auto simp: has_segment_def PUBLIC_SEGMENTS_def RETURNABLE_SEGMENTS_def HUB_SEGMENTS_def)

lemma returnable_not_hub: "\<not> (has_segment RETURNABLE_SEGMENTS seg \<and> has_segment HUB_SEGMENTS seg)"
  by (auto simp: has_segment_def RETURNABLE_SEGMENTS_def HUB_SEGMENTS_def)

lemma readReturnTo_empty [simp]: "readReturnTo [] = DEFAULT_RETURN"
  by (simp add: readReturnTo_def params_get_def search_params_def safeReturnTo_def)

text \<open>
  Signing in from a public page lands where it should, whatever was remembered before: on the post
  or profile being read, or on the timeline from a hub, and the remembered route is cleared.  A guest
  meets the wall on exactly the paths that are neither public nor the welcome page.
\<close>

lemma onboarding_returns_to_content:
  assumes "sc_available cell" and "p \<noteq> []" and "isPublicPath (Some p)"
  shows "consumeReturnTarget [] (rememberContentRoute p cell) =
           (if has_segment RETURNABLE_SEGMENTS (firstSegment p) then safeReturnTo (Some p) else DEFAULT_RETURN,
            cell\<lparr>sc_value := None\<rparr>) \<and>
         \<not> isWalledForGuest (Some p) \<and>
         (isWalledForGuest (Some r) \<longleftrightarrow> \<not> isPublicPath (Some r) \<and> firstSegment r \<noteq> ascii WELCOME_SEGMENT)"
proof -
  have seg: "has_segment PUBLIC_SEGMENTS (firstSegment p)" using assms(2,3) by (simp add: isPublicPath_def)
  have empty: "firstSegment [] \<noteq> ascii WELCOME_SEGMENT" by (simp add: firstSegment_def WELCOME_SEGMENT_def)
  have "consumeReturnTarget [] (rememberContentRoute p cell) =
           (if has_segment RETURNABLE_SEGMENTS (firstSegment p) then safeReturnTo (Some p) else DEFAULT_RETURN,
            cell\<lparr>sc_value := None\<rparr>)"
  proof (cases "has_segment RETURNABLE_SEGMENTS (firstSegment p)")
    case True
    with assms show ?thesis by (simp add: rememberContentRoute_def consumeReturnTarget_def Let_def)
  next
    case False
    with seg public_split [of "firstSegment p"] assms show ?thesis
      by (simp add: rememberContentRoute_def consumeReturnTarget_def Let_def)
  qed
  moreover have "\<not> isWalledForGuest (Some p)" using assms(2) seg by (simp add: isWalledForGuest_def Let_def)
  moreover have "isWalledForGuest (Some r) \<longleftrightarrow> \<not> isPublicPath (Some r) \<and> firstSegment r \<noteq> ascii WELCOME_SEGMENT"
    using empty by (cases "r = []") (auto simp: isWalledForGuest_def isPublicPath_def Let_def)
  ultimately show ?thesis by blast
qed

lemma onboarding_returns_to_content_witness:
  "consumeReturnTarget [] (rememberContentRoute (ascii ''/post/7/'') \<lparr>sc_available = True, sc_value = None\<rparr>) =
     (ascii ''/post/7/'', \<lparr>sc_available = True, sc_value = None\<rparr>) \<and> isWalledForGuest (Some (ascii ''/settings/''))"
proof -
  have pub: "isPublicPath (Some (ascii ''/post/7/''))" by (simp add: return_evals)
  have val: "has_segment RETURNABLE_SEGMENTS (firstSegment (ascii ''/post/7/''))"
    "safeReturnTo (Some (ascii ''/post/7/'')) = ascii ''/post/7/''"
    "\<not> isPublicPath (Some (ascii ''/settings/''))" "firstSegment (ascii ''/settings/'') \<noteq> ascii WELCOME_SEGMENT"
    by (simp_all add: return_evals)
  from onboarding_returns_to_content [of "\<lparr>sc_available = True, sc_value = None\<rparr>", OF _ _ pub, of "ascii ''/settings/''"] val
  show ?thesis by simp
qed

section \<open>The dynamic segment round-trips\<close>

lemma pct_bytes_plain: "c \<noteq> 37 \<Longrightarrow> pct_bytes (c # s) = map_option ((@) (utf8_char c)) (pct_bytes s)"
  by simp

lemma pct_bytes_byte:
  assumes "b < 256"
  shows "pct_bytes (pct_byte b @ s) = map_option ((#) b) (pct_bytes s)"
proof (cases "unreserved b")
  case True
  then have "b \<noteq> 37" "b < 0x80" by (auto simp: unreserved_def unreserved_set)
  with True show ?thesis by (simp add: pct_byte_def utf8_char_def) (cases "pct_bytes s", simp_all)
next
  case False
  have "hex_value (hex_digit (b div 16)) = Some (b div 16)" using assms by (intro hex_value_digit) linarith
  moreover have "hex_value (hex_digit (b mod 16)) = Some (b mod 16)" by (rule hex_value_digit) simp
  ultimately show ?thesis using False by (simp add: pct_byte_def)
qed

lemma pct_bytes_encode: "list_all (\<lambda>b. b < 256) bs \<Longrightarrow> pct_bytes (concat (map pct_byte bs)) = Some bs"
  by (induction bs) (simp_all add: pct_bytes_byte)

lemma decode_encodeURIComponent:
  assumes "list_all scalar s" and "encodeURIComponent s = Some enc"
  shows "decodeURIComponent enc = Some s"
  using assms pct_bytes_encode [OF utf8_encode_bytes [OF assms(1)]] utf8_roundtrip [OF assms(1)]
  by (auto simp: decodeURIComponent_def encodeURIComponent_def split: if_splits)

text \<open>
  The segment read back from the URL of a dynamic route is the one the link was built from, for
  every well-formed address or id, and an overlay URL on top of the route does not lose it.
\<close>

lemma routeSegment_roundtrip:
  assumes "list_all scalar seg" and "encodeURIComponent seg = Some enc" and "seg \<noteq> []"
  shows "routeSegmentOf (47 # base @ 47 # enc @ 47 # rest) base = seg \<and>
         holdSegment (routeSegmentOf (47 # base @ 47 # enc @ 47 # rest) base) (routeSegmentOf [] base) = seg"
proof -
  have "url_safe enc" using encodeURIComponent_scalar [OF assms(1)] assms(2) by auto
  from url_safe_ascii [OF this] have no: "47 \<notin> set enc" by blast
  have "takeWhile (\<lambda>c. c \<noteq> 47) (enc @ 47 # rest) = enc" using no by (subst takeWhile_append2) auto
  then have "hd (split_on 47 (enc @ 47 # rest)) = enc" by (simp add: hd_split_on)
  moreover have "prefix (47 # base @ [47]) (47 # base @ 47 # enc @ 47 # rest)" by simp
  ultimately have "routeSegmentOf (47 # base @ 47 # enc @ 47 # rest) base = seg"
    using decode_encodeURIComponent [OF assms(1,2)] by (simp add: routeSegmentOf_def Let_def)
  with assms(3) show ?thesis by (simp add: holdSegment_def routeSegmentOf_def)
qed

lemma routeSegment_roundtrip_witness:
  "routeSegmentOf (47 # ascii ''u'' @ 47 # ascii ''a%2Fb'' @ 47 # []) (ascii ''u'') = ascii ''a/b''"
proof -
  have "list_all scalar (ascii ''a/b'')" "encodeURIComponent (ascii ''a/b'') = Some (ascii ''a%2Fb'')"
    by (simp_all add: return_evals encode_evals)
  from routeSegment_roundtrip [OF this, of "ascii ''u''" "[]"] show ?thesis by simp
qed

end
