(* ===== verification/Cogno_Types.thy ===== *)
theory Cogno_Types
  imports Cogno_Prelude
begin

text \<open>
  The shared vocabulary of the frontend (\<open>app/src/lib/types.ts\<close>): the records the data layer produces
  and the React layer consumes.  An optional field is an \<^typ>\<open>'a option\<close>; \<open>myVote\<close> of a post, which
  may be absent, \<open>null\<close> or a direction, is an option of an option.
\<close>

type_synonym ss58 = string

text \<open>The direction of a vote, the kind of an observed Cardano role, the kind of a poll.\<close>

datatype vote = Up | Down

datatype role_kind = Spo | DRep | Committee

datatype poll_kind = StakePoll | GovernancePoll | SpoPoll | DrepPoll

datatype gov_action_type =
    Info | NoConfidence | UpdateCommittee | NewConstitution | HardFork | ParamChange | TreasuryWithdrawal

record observed_role_view =
  rv_kind :: role_kind
  rv_id :: string
  rv_weight :: "int option"

record quoted_ref =
  q_id :: int
  q_author :: ss58
  q_text :: string
  q_authorRevoked :: bool
  q_displayName :: "string option"
  q_avatar :: "string option"
  q_authorRoles :: "observed_role_view list option"

record cogno_post =
  p_id :: int
  p_author :: ss58
  p_text :: string
  p_parent :: "int option"
  p_at :: int
  p_authorRevoked :: "bool option"
  p_quote :: "quoted_ref option"
  p_isPoll :: "bool option"
  p_upWeight :: "int option"
  p_downWeight :: "int option"
  p_upCount :: "int option"
  p_downCount :: "int option"
  p_score :: "int option"
  p_replyCount :: "int option"
  p_authorDisplayName :: "string option"
  p_authorAvatar :: "string option"
  p_authorWeight :: "int option"
  p_authorRoles :: "observed_role_view list option"
  p_myVote :: "vote option option"

record viewer_post_state =
  vs_myVote :: "vote option"

record poll_option_view =
  o_index :: int
  o_label :: string
  o_weight :: int
  o_count :: int
  o_spoWeight :: int
  o_spoCount :: int
  o_drepWeight :: int
  o_drepCount :: int

record gov_action_view =
  ga_actionType :: gov_action_type
  ga_anchorUrl :: string
  ga_anchorHash :: "string option"

record poll_view =
  pv_hostId :: int
  pv_options :: "poll_option_view list"
  pv_totalWeight :: int
  pv_totalCount :: int
  pv_kind :: poll_kind
  pv_action :: "gov_action_view option"
  pv_closeAt :: "int option"
  pv_finalized :: bool

record follow_edges =
  fe_followers :: "ss58 list"
  fe_following :: "ss58 list"
  fe_followerCount :: int
  fe_followingCount :: int

record suggestion =
  sg_author :: ss58
  sg_displayName :: "string option"
  sg_avatar :: "string option"
  sg_weight :: "int option"
  sg_followerCount :: int
  sg_accountScore :: "int option"

record feed_page =
  fp_posts :: "cogno_post list"
  fp_endCursor :: "string option"
  fp_hasNextPage :: bool
  fp_totalCount :: "int option"
  fp_asOf :: "int option"

record profile_view =
  pr_author :: "ss58 option"
  pr_identityHash :: "string option"
  pr_postCount :: int
  pr_banned :: bool
  pr_weight :: "int option"
  pr_displayName :: "string option"
  pr_bio :: "string option"
  pr_avatar :: "string option"
  pr_banner :: "string option"
  pr_location :: "string option"
  pr_website :: "string option"
  pr_pinnedPostId :: "int option"
  pr_followerCount :: "int option"
  pr_followingCount :: "int option"
  pr_observedRoles :: "observed_role_view list option"
  pr_page :: feed_page

record thread_view =
  t_root :: cogno_post
  t_ancestors :: "cogno_post list"
  t_replies :: "cogno_post list"
  t_replyCount :: int
  t_repliesCursor :: "int option"
  t_parent :: "quoted_ref option"
  t_lastActivity :: "int option"

text \<open>A post with every optional field absent, for building concrete inputs.\<close>

definition bare_post :: "int \<Rightarrow> ss58 \<Rightarrow> string \<Rightarrow> int \<Rightarrow> cogno_post" where
  "bare_post i a t blk = \<lparr>p_id = i, p_author = a, p_text = t, p_parent = None, p_at = blk,
     p_authorRevoked = None, p_quote = None, p_isPoll = None, p_upWeight = None, p_downWeight = None,
     p_upCount = None, p_downCount = None, p_score = None, p_replyCount = None,
     p_authorDisplayName = None, p_authorAvatar = None, p_authorWeight = None, p_authorRoles = None,
     p_myVote = None\<rparr>"

lemma bare_post_sel [simp]:
  "p_id (bare_post i a t b) = i" "p_author (bare_post i a t b) = a"
  "p_text (bare_post i a t b) = t" "p_at (bare_post i a t b) = b"
  "p_upCount (bare_post i a t b) = None" "p_downCount (bare_post i a t b) = None"
  "p_replyCount (bare_post i a t b) = None" "p_score (bare_post i a t b) = None"
  "p_upWeight (bare_post i a t b) = None" "p_downWeight (bare_post i a t b) = None"
  by (simp_all add: bare_post_def)

end
