(* ===== verification/Pallet_Microblog.thy ===== *)
theory Pallet_Microblog
  imports Cogno_Types "HOL-Library.Word"
begin

text \<open>
  The chain side of the application, \<open>pallets/microblog/src/lib.rs\<close>: the storage of posts, votes,
  follows and polls, the calls that write it, and the invariant its \<open>try_state\<close> hook checks
  (\<open>check_tally_consistency\<close>).  The reverse indexes and counters the pallet keeps beside the posts
  are shown to be exactly the filtered lists of post ids they denormalise, after every call.

  A \<open>u64\<close>, \<open>u32\<close> or \<open>u128\<close> is a \<^typ>\<open>nat\<close> with the saturation written out.  A storage double map
  whose rows are counted is an association list per first key: the pallet only probes and counts
  them, so the hash order of the rows does not matter.  What other pallets and the runtime provide
  (the block number, the identity binding, the observed stake, the profile and role fields of an
  author) are fields of the same state.
  The events a call deposits are appended to the log of the block, which the next block clears; log lines
  are not part of the state.
\<close>

section \<open>Saturating arithmetic\<close>

definition u32_max :: nat where "u32_max = 2 ^ 32 - 1"
definition u64_max :: nat where "u64_max = 2 ^ 64 - 1"

definition saturating_add :: "nat \<Rightarrow> nat \<Rightarrow> nat \<Rightarrow> nat" where
  "saturating_add mx a b = min (a + b) mx"

lemma saturating_add_1 [simp]: "n < mx \<Longrightarrow> saturating_add mx n 1 = Suc n"
  by (simp add: saturating_add_def)

lemma saturating_add_Suc_0 [simp]: "n < mx \<Longrightarrow> saturating_add mx n (Suc 0) = Suc n"
  by (simp add: saturating_add_def)

section \<open>Storage\<close>

type_synonym u8 = "8 word"
type_synonym bytes = "u8 list"

record post =
  po_author :: ss58
  po_text :: bytes
  po_parent :: "nat option"
  po_at :: nat
  po_quote :: "nat option"

record vote_counts =
  up_count :: nat
  down_count :: nat

record gov_action =
  gv_action_type :: gov_action_type
  gv_anchor_url :: bytes
  gv_anchor_hash :: "bytes option"

record poll =
  pl_options :: "bytes list"
  pl_close_at :: "nat option"
  pl_kind :: poll_kind
  pl_action :: "gov_action option"

datatype event =
    PostCreated nat ss58 | Voted nat ss58 vote | VoteCleared nat ss58 | AccountVoted ss58 ss58 vote
  | AccountVoteCleared ss58 ss58 | Followed ss58 ss58 | Unfollowed ss58 ss58 | PollCreated nat ss58
  | PollVoted nat ss58 nat

record chain =
  block_number :: nat
  System_Events :: "event list"
  PkhOf :: "ss58 \<Rightarrow> bool"
  stakers :: "ss58 list"
  VotingPower :: "ss58 \<Rightarrow> nat"
  AuthorFields :: "ss58 \<Rightarrow> bytes \<times> bytes \<times> (nat \<times> bytes) list"
  NextPostId :: nat
  Posts :: "nat \<Rightarrow> post option"
  ByAuthor :: "ss58 \<Rightarrow> nat \<Rightarrow> nat option"
  ByAuthorCount :: "ss58 \<Rightarrow> nat"
  NextTopLevelSeq :: nat
  TopLevelPosts :: "nat \<Rightarrow> nat option"
  TopLevelByAuthor :: "ss58 \<Rightarrow> nat \<Rightarrow> nat option"
  TopLevelByAuthorCount :: "ss58 \<Rightarrow> nat"
  ReplyCount :: "nat \<Rightarrow> nat"
  RepliesByParent :: "nat \<Rightarrow> (nat, unit) omap"
  RepliesByParentSeq :: "nat \<Rightarrow> nat \<Rightarrow> nat option"
  Votes :: "nat \<Rightarrow> (ss58, vote) omap"
  VoteTally :: "nat \<Rightarrow> vote_counts"
  VotesByAccount :: "ss58 \<Rightarrow> (nat, unit) omap"
  LikesByAccount :: "ss58 \<Rightarrow> (bytes, unit) omap"
  AccountVotes :: "ss58 \<Rightarrow> (ss58, vote) omap"
  AccountVoteTally :: "ss58 \<Rightarrow> vote_counts"
  Following :: "ss58 \<Rightarrow> (ss58, unit) omap"
  Followers :: "ss58 \<Rightarrow> (ss58, unit) omap"
  FollowingCount :: "ss58 \<Rightarrow> nat"
  FollowerCount :: "ss58 \<Rightarrow> nat"
  Polls :: "nat \<Rightarrow> poll option"
  PollVotes :: "nat \<Rightarrow> (ss58, nat) omap"
  PollTally :: "nat \<Rightarrow> nat \<Rightarrow> nat"

definition genesis :: chain where
  "genesis = \<lparr>
     block_number = 0, System_Events = [], PkhOf = (\<lambda>_. False), stakers = [], VotingPower = (\<lambda>_. 0),
     AuthorFields = (\<lambda>_. ([], [], [])), NextPostId = 0, Posts = (\<lambda>_. None), ByAuthor = (\<lambda>_ _. None), ByAuthorCount = (\<lambda>_. 0),
     NextTopLevelSeq = 0, TopLevelPosts = (\<lambda>_. None), TopLevelByAuthor = (\<lambda>_ _. None),
     TopLevelByAuthorCount = (\<lambda>_. 0), ReplyCount = (\<lambda>_. 0), RepliesByParent = (\<lambda>_. []),
     RepliesByParentSeq = (\<lambda>_ _. None), Votes = (\<lambda>_. []),
     VoteTally = (\<lambda>_. \<lparr>up_count = 0, down_count = 0\<rparr>), VotesByAccount = (\<lambda>_. []),
     LikesByAccount = (\<lambda>_. []), AccountVotes = (\<lambda>_. []),
     AccountVoteTally = (\<lambda>_. \<lparr>up_count = 0, down_count = 0\<rparr>), Following = (\<lambda>_. []),
     Followers = (\<lambda>_. []), FollowingCount = (\<lambda>_. 0), FollowerCount = (\<lambda>_. 0),
     Polls = (\<lambda>_. None), PollVotes = (\<lambda>_. []), PollTally = (\<lambda>_ _. 0)\<rparr>"

datatype dispatch_error =
    NotAllowed | TooLong | NotFound | NotVoted | SelfAccountVote | TargetNotAllowed | SelfFollow
  | AlreadyFollowing | NotFollowing | PollCloseRequired | PollDurationTooShort | PollDurationTooLong
  | NotEnoughOptions | OptionTooLong | TooManyOptions | GovActionRequiresChamber | InvalidAnchor
  | PollNotFound | InvalidOption | PollClosed

text \<open>The constants of the runtime (\<open>runtime/src/configs\<close>) the calls read.\<close>

record config =
  MaxLength :: nat
  MaxPollOptions :: nat
  MaxPollOptionLen :: nat
  MaxAnchorUrlLen :: nat
  MinPollDuration :: nat
  MaxPollDuration :: nat

section \<open>The indexes\<close>

definition index_by_author :: "nat \<Rightarrow> ss58 \<Rightarrow> chain \<Rightarrow> chain" where
  "index_by_author i a st =
     (let s = ByAuthorCount st a
      in st\<lparr>ByAuthor := (ByAuthor st)(a := (ByAuthor st a)(s \<mapsto> i)),
            ByAuthorCount := (ByAuthorCount st)(a := saturating_add u64_max s 1)\<rparr>)"

definition index_top_level :: "nat \<Rightarrow> ss58 \<Rightarrow> chain \<Rightarrow> chain" where
  "index_top_level i a st =
     (let author_seq = TopLevelByAuthorCount st a; s = NextTopLevelSeq st
      in st\<lparr>TopLevelByAuthor := (TopLevelByAuthor st)(a := (TopLevelByAuthor st a)(author_seq \<mapsto> i)),
            TopLevelByAuthorCount := (TopLevelByAuthorCount st)(a := saturating_add u64_max author_seq 1),
            TopLevelPosts := (TopLevelPosts st)(s \<mapsto> i),
            NextTopLevelSeq := saturating_add u64_max s 1\<rparr>)"

definition index_reply :: "nat \<Rightarrow> nat \<Rightarrow> chain \<Rightarrow> chain" where
  "index_reply i p st =
     (let s = ReplyCount st p
      in st\<lparr>ReplyCount := (ReplyCount st)(p := saturating_add u32_max s 1),
            RepliesByParent := (RepliesByParent st)(p := omap_set i () (RepliesByParent st p)),
            RepliesByParentSeq := (RepliesByParentSeq st)(p := (RepliesByParentSeq st p)(s \<mapsto> i))\<rparr>)"

text \<open>\<open>u64::to_be_bytes\<close> and its inverse: eight bytes, the most significant first.\<close>

fun to_be_bytes :: "nat \<Rightarrow> nat \<Rightarrow> bytes" where
  "to_be_bytes 0 n = []"
| "to_be_bytes (Suc k) n = of_nat (n div 256 ^ k mod 256) # to_be_bytes k n"

definition from_be_bytes :: "bytes \<Rightarrow> nat" where
  "from_be_bytes bs = foldl (\<lambda>n b. n * 256 + unat b) 0 bs"

definition desc_key :: "nat \<Rightarrow> bytes" where
  "desc_key post_id = to_be_bytes 8 (u64_max - post_id)"

definition post_of_desc_key :: "bytes \<Rightarrow> nat" where
  "post_of_desc_key key = u64_max - from_be_bytes key"

definition index_like :: "ss58 \<Rightarrow> nat \<Rightarrow> chain \<Rightarrow> chain" where
  "index_like who pid st =
     st\<lparr>VotesByAccount := (VotesByAccount st)(who := omap_set pid () (VotesByAccount st who)),
        LikesByAccount := (LikesByAccount st)(who := omap_set (desc_key pid) () (LikesByAccount st who))\<rparr>"

definition unindex_like :: "ss58 \<Rightarrow> nat \<Rightarrow> chain \<Rightarrow> chain" where
  "unindex_like who pid st =
     st\<lparr>VotesByAccount := (VotesByAccount st)(who := omap_del pid (VotesByAccount st who)),
        LikesByAccount := (LikesByAccount st)(who := omap_del (desc_key pid) (LikesByAccount st who))\<rparr>"

section \<open>The calls\<close>

definition deposit_event :: "event \<Rightarrow> chain \<Rightarrow> chain" where
  "deposit_event e st = st\<lparr>System_Events := System_Events st @ [e]\<rparr>"

text \<open>
  What the three creating calls share: the author index, the row itself, the spine of replies or of
  top-level posts, and the id counter.
\<close>

definition insert_post :: "ss58 \<Rightarrow> bytes \<Rightarrow> nat option \<Rightarrow> nat option \<Rightarrow> chain \<Rightarrow> chain" where
  "insert_post who txt par quo st =
     (let i = NextPostId st;
          st1 = index_by_author i who st;
          st2 = st1\<lparr>Posts := (Posts st1)(i \<mapsto>
                  \<lparr>po_author = who, po_text = txt, po_parent = par, po_at = block_number st, po_quote = quo\<rparr>)\<rparr>;
          st3 = (case par of Some p \<Rightarrow> index_reply i p st2 | None \<Rightarrow> index_top_level i who st2)
      in st3\<lparr>NextPostId := saturating_add u64_max i 1\<rparr>)"

definition post_message :: "config \<Rightarrow> ss58 \<Rightarrow> bytes \<Rightarrow> nat option \<Rightarrow> chain \<Rightarrow> dispatch_error + chain" where
  "post_message T who txt par st =
     (if \<not> PkhOf st who then Inl NotAllowed
      else if MaxLength T < length txt then Inl TooLong
      else Inr (deposit_event (PostCreated (NextPostId st) who) (insert_post who txt par None st)))"

definition quote_post :: "config \<Rightarrow> ss58 \<Rightarrow> bytes \<Rightarrow> nat \<Rightarrow> chain \<Rightarrow> dispatch_error + chain" where
  "quote_post T who txt quoted_id st =
     (if \<not> PkhOf st who then Inl NotAllowed
      else if Posts st quoted_id = None then Inl NotFound
      else if MaxLength T < length txt then Inl TooLong
      else Inr (deposit_event (PostCreated (NextPostId st) who) (insert_post who txt None (Some quoted_id) st)))"

fun inc_count :: "vote \<Rightarrow> vote_counts \<Rightarrow> vote_counts" where
  "inc_count Up t = t\<lparr>up_count := saturating_add u32_max (up_count t) 1\<rparr>"
| "inc_count Down t = t\<lparr>down_count := saturating_add u32_max (down_count t) 1\<rparr>"

fun dec_count :: "vote \<Rightarrow> vote_counts \<Rightarrow> vote_counts" where
  "dec_count Up t = t\<lparr>up_count := up_count t - 1\<rparr>"
| "dec_count Down t = t\<lparr>down_count := down_count t - 1\<rparr>"

text \<open>The closure given to \<open>VoteTally::mutate\<close>: the previous direction off, the new one on.\<close>

definition recount :: "vote option \<Rightarrow> vote \<Rightarrow> vote_counts \<Rightarrow> vote_counts" where
  "recount prev dir t = inc_count dir (case prev of Some d \<Rightarrow> dec_count d t | None \<Rightarrow> t)"

definition vote_post :: "ss58 \<Rightarrow> nat \<Rightarrow> vote \<Rightarrow> chain \<Rightarrow> dispatch_error + chain" where
  "vote_post who pid dir st =
     (if \<not> PkhOf st who then Inl NotAllowed
      else if Posts st pid = None then Inl NotFound
      else
        let st1 = st\<lparr>VoteTally := (VoteTally st)(pid := recount (map_of (Votes st pid) who) dir (VoteTally st pid))\<rparr>;
            st2 = st1\<lparr>Votes := (Votes st)(pid := omap_set who dir (Votes st pid))\<rparr>
        in Inr (deposit_event (Voted pid who dir)
             (case dir of Up \<Rightarrow> index_like who pid st2 | Down \<Rightarrow> unindex_like who pid st2)))"

definition clear_vote :: "ss58 \<Rightarrow> nat \<Rightarrow> chain \<Rightarrow> dispatch_error + chain" where
  "clear_vote who pid st =
     (if \<not> PkhOf st who then Inl NotAllowed
      else case map_of (Votes st pid) who of
        None \<Rightarrow> Inl NotVoted
      | Some prev \<Rightarrow>
          let st1 = unindex_like who pid (st\<lparr>Votes := (Votes st)(pid := omap_del who (Votes st pid))\<rparr>)
          in Inr (deposit_event (VoteCleared pid who) (st1\<lparr>VoteTally := (VoteTally st)(pid := dec_count prev (VoteTally st pid))\<rparr>)))"

definition vote_account :: "ss58 \<Rightarrow> ss58 \<Rightarrow> vote \<Rightarrow> chain \<Rightarrow> dispatch_error + chain" where
  "vote_account who target dir st =
     (if \<not> PkhOf st who then Inl NotAllowed
      else if who = target then Inl SelfAccountVote
      else if \<not> PkhOf st target then Inl TargetNotAllowed
      else Inr (deposit_event (AccountVoted target who dir)
             (st\<lparr>AccountVoteTally := (AccountVoteTally st)
                     (target := recount (map_of (AccountVotes st target) who) dir (AccountVoteTally st target)),
                   AccountVotes := (AccountVotes st)(target := omap_set who dir (AccountVotes st target))\<rparr>)))"

definition clear_account_vote :: "ss58 \<Rightarrow> ss58 \<Rightarrow> chain \<Rightarrow> dispatch_error + chain" where
  "clear_account_vote who target st =
     (if \<not> PkhOf st who then Inl NotAllowed
      else case map_of (AccountVotes st target) who of
        None \<Rightarrow> Inl NotVoted
      | Some prev \<Rightarrow>
          Inr (deposit_event (AccountVoteCleared target who)
            (st\<lparr>AccountVotes := (AccountVotes st)(target := omap_del who (AccountVotes st target)),
                  AccountVoteTally := (AccountVoteTally st)(target := dec_count prev (AccountVoteTally st target))\<rparr>)))"

definition follow :: "ss58 \<Rightarrow> ss58 \<Rightarrow> chain \<Rightarrow> dispatch_error + chain" where
  "follow who target st =
     (if \<not> PkhOf st who then Inl NotAllowed
      else if who = target then Inl SelfFollow
      else if map_of (Following st who) target \<noteq> None then Inl AlreadyFollowing
      else Inr (deposit_event (Followed who target)
             (st\<lparr>Following := (Following st)(who := omap_set target () (Following st who)),
                   Followers := (Followers st)(target := omap_set who () (Followers st target)),
                   FollowingCount := (FollowingCount st)(who := saturating_add u32_max (FollowingCount st who) 1),
                   FollowerCount := (FollowerCount st)(target := saturating_add u32_max (FollowerCount st target) 1)\<rparr>)))"

definition unfollow :: "ss58 \<Rightarrow> ss58 \<Rightarrow> chain \<Rightarrow> dispatch_error + chain" where
  "unfollow who target st =
     (if \<not> PkhOf st who then Inl NotAllowed
      else if map_of (Following st who) target = None then Inl NotFollowing
      else Inr (deposit_event (Unfollowed who target)
             (st\<lparr>Following := (Following st)(who := omap_del target (Following st who)),
                   Followers := (Followers st)(target := omap_del who (Followers st target)),
                   FollowingCount := (FollowingCount st)(who := FollowingCount st who - 1),
                   FollowerCount := (FollowerCount st)(target := FollowerCount st target - 1)\<rparr>)))"

section \<open>Polls\<close>

definition has_spo :: "poll_kind \<Rightarrow> bool" where
  "has_spo k = (k = GovernancePoll \<or> k = SpoPoll)"

definition has_drep :: "poll_kind \<Rightarrow> bool" where
  "has_drep k = (k = GovernancePoll \<or> k = DrepPoll)"

definition has_chambers :: "poll_kind \<Rightarrow> bool" where
  "has_chambers k = (has_spo k \<or> has_drep k)"

text \<open>The loop that bounds each option and then the option set.\<close>

fun bound_options :: "config \<Rightarrow> bytes list \<Rightarrow> bytes list \<Rightarrow> dispatch_error + bytes list" where
  "bound_options T acc [] = Inr acc"
| "bound_options T acc (opt # opts) =
     (if MaxPollOptionLen T < length opt then Inl OptionTooLong
      else if MaxPollOptions T \<le> length acc then Inl TooManyOptions
      else bound_options T (acc @ [opt]) opts)"

definition bound_action :: "config \<Rightarrow> poll_kind \<Rightarrow> gov_action option \<Rightarrow> dispatch_error + gov_action option" where
  "bound_action T k act = (case act of
     None \<Rightarrow> Inr None
   | Some inp \<Rightarrow>
       if \<not> has_chambers k then Inl GovActionRequiresChamber
       else if gv_anchor_url inp = [] then Inl InvalidAnchor
       else if MaxAnchorUrlLen T < length (gv_anchor_url inp) then Inl InvalidAnchor
       else Inr (Some inp))"

definition create_poll ::
  "config \<Rightarrow> ss58 \<Rightarrow> bytes \<Rightarrow> bytes list \<Rightarrow> nat option \<Rightarrow> poll_kind \<Rightarrow> gov_action option \<Rightarrow> chain \<Rightarrow> dispatch_error + chain"
where
  "create_poll T who question opts close_at k act st =
     (if \<not> PkhOf st who then Inl NotAllowed
      else case close_at of
        None \<Rightarrow> Inl PollCloseRequired
      | Some deadline \<Rightarrow>
          if deadline < saturating_add u32_max (block_number st) (MinPollDuration T) then Inl PollDurationTooShort
          else if saturating_add u32_max (block_number st) (MaxPollDuration T) < deadline then Inl PollDurationTooLong
          else if length opts < 2 then Inl NotEnoughOptions
          else if MaxLength T < length question then Inl TooLong
          else case bound_options T [] opts of
            Inl e \<Rightarrow> Inl e
          | Inr bounded \<Rightarrow> (case bound_action T k act of
              Inl e \<Rightarrow> Inl e
            | Inr action \<Rightarrow>
                Inr (deposit_event (PollCreated (NextPostId st) who)
                  (deposit_event (PostCreated (NextPostId st) who) ((insert_post who question None None st)
                  \<lparr>Polls := (Polls st)(NextPostId st \<mapsto>
                     \<lparr>pl_options = bounded, pl_close_at = close_at, pl_kind = k, pl_action = action\<rparr>)\<rparr>)))))"

definition cast_poll_vote :: "ss58 \<Rightarrow> nat \<Rightarrow> nat \<Rightarrow> chain \<Rightarrow> dispatch_error + chain" where
  "cast_poll_vote who pid option st =
     (if \<not> PkhOf st who then Inl NotAllowed
      else case Polls st pid of
        None \<Rightarrow> Inl PollNotFound
      | Some poll \<Rightarrow>
          if length (pl_options poll) \<le> option then Inl InvalidOption
          else if (case pl_close_at poll of Some c \<Rightarrow> c \<le> block_number st | None \<Rightarrow> False) then Inl PollClosed
          else
            let t0 = PollTally st pid;
                t1 = (case map_of (PollVotes st pid) who of
                        Some prev \<Rightarrow> t0(prev := t0 prev - 1) | None \<Rightarrow> t0);
                t2 = t1(option := saturating_add u32_max (t1 option) 1)
            in Inr (deposit_event (PollVoted pid who option)
                 (st\<lparr>PollTally := (PollTally st)(pid := t2),
                       PollVotes := (PollVotes st)(pid := omap_set who option (PollVotes st pid))\<rparr>)))"

section \<open>Counting the rows of a double map\<close>

definition tally :: "'v \<Rightarrow> ('k, 'v) omap \<Rightarrow> nat" where
  "tally v m = length (filter (\<lambda>(_, x). x = v) m)"

lemma tally_Nil [simp]: "tally v [] = 0"
  by (simp add: tally_def)

lemma tally_le: "tally v m \<le> length m"
  by (simp add: tally_def)

lemma tally_set:
  "omap_ok m \<Longrightarrow> tally v (omap_set k x m) + (if map_of m k = Some v then 1 else 0) = tally v m + (if x = v then 1 else 0)"
proof (induction m)
  case (Cons r m)
  then show ?case by (cases r) (auto simp: tally_def omap_ok_def)
qed (simp add: tally_def)

lemma omap_del_absent: "map_of m k = None \<Longrightarrow> omap_del k m = m"
  by (induction m) (auto simp: omap_del_def split: if_splits)

lemma omap_del_Cons [simp]:
  "omap_del k ((k', v) # m) = (if k' = k then omap_del k m else (k', v) # omap_del k m)"
  by (simp add: omap_del_def)

lemma tally_Cons [simp]: "tally v ((k, x) # m) = (if x = v then Suc (tally v m) else tally v m)"
  by (simp add: tally_def)

lemma omap_ok_Cons [simp]: "omap_ok ((k, x) # m) \<longleftrightarrow> map_of m k = None \<and> omap_ok m"
  by (auto simp: omap_ok_def map_of_eq_None_iff)

lemma tally_del:
  "omap_ok m \<Longrightarrow> tally v (omap_del k m) + (if map_of m k = Some v then 1 else 0) = tally v m"
  by (induction m) (auto simp: omap_del_def [of k "[]"] omap_del_absent)

lemma length_omap_del:
  "omap_ok m \<Longrightarrow> length (omap_del k m) = (if map_of m k = None then length m else length m - 1)"
proof (induction m)
  case (Cons r m)
  obtain k' x where r: "r = (k', x)" by (cases r)
  have "map_of m k \<noteq> None \<Longrightarrow> 0 < length m" by (cases m) auto
  with Cons r show ?case by (auto simp: omap_del_absent)
qed (simp add: omap_del_def)

lemma map_of_None_iff_keys: "map_of m k = None \<longleftrightarrow> k \<notin> fst ` set m"
  by (induction m) auto

lemma length_omap_set_map_of:
  "length (omap_set k v m) = (if map_of m k = None then Suc (length m) else length m)"
  by (simp add: length_omap_set map_of_None_iff_keys)

lemma omap_set_absent: "map_of m k = None \<Longrightarrow> omap_set k v m = m @ [(k, v)]"
  by (induction m) (auto split: if_splits)

definition counts_of :: "('k, vote) omap \<Rightarrow> vote_counts" where
  "counts_of m = \<lparr>up_count = tally Up m, down_count = tally Down m\<rparr>"

lemma tally_room: "length m < u32_max \<Longrightarrow> tally v m < u32_max"
  using tally_le [of v m] by simp

lemma tally_pos: "map_of m k = Some v \<Longrightarrow> 0 < tally v m"
  by (induction m) (auto split: if_splits)

lemma recount_counts:
  assumes "omap_ok m" and "length m < u32_max"
  shows "recount (map_of m k) d (counts_of m) = counts_of (omap_set k d m)"
proof -
  have le: "tally Up m - 1 < u32_max" "tally Down m - 1 < u32_max" "tally Up m < u32_max" "tally Down m < u32_max"
    using tally_room [OF assms(2), of Up] tally_room [OF assms(2), of Down] by auto
  note facts = tally_set [OF assms(1), of Up k d] tally_set [OF assms(1), of Down k d] le
  show ?thesis
  proof (cases "map_of m k")
    case None
    with facts show ?thesis by (cases d) (auto simp: recount_def counts_of_def)
  next
    case (Some a)
    with facts tally_pos [OF Some] show ?thesis
      by (cases d; cases a) (auto simp: recount_def counts_of_def)
  qed
qed

lemma dec_count_counts:
  assumes "omap_ok m" and "map_of m k = Some d"
  shows "dec_count d (counts_of m) = counts_of (omap_del k m)"
  using tally_del [OF assms(1), of Up k] tally_del [OF assms(1), of Down k] assms(2)
  by (cases d) (auto simp: counts_of_def)

section \<open>The ordered key of the likes index\<close>

lemma length_to_be_bytes [simp]: "length (to_be_bytes k n) = k"
  by (induction k) auto

lemma unat_byte [simp]: "unat (of_nat (n mod 256) :: u8) = n mod 256"
  by (simp add: unat_of_nat take_bit_eq_mod)

lemma foldl_to_be_bytes:
  "foldl (\<lambda>n b. n * 256 + unat b) acc (to_be_bytes k n) = acc * 256 ^ k + n mod 256 ^ k"
proof (induction k arbitrary: acc)
  case (Suc k)
  have "n mod 256 ^ Suc k = 256 ^ k * (n div 256 ^ k mod 256) + n mod 256 ^ k"
    by (simp add: mod_mult2_eq mult.commute [of 256])
  with Suc show ?case by (simp add: algebra_simps)
qed simp

lemma from_to_be_bytes: "from_be_bytes (to_be_bytes k n) = n mod 256 ^ k"
  by (simp add: from_be_bytes_def foldl_to_be_bytes)

lemma u64_max_less: "n \<le> u64_max \<Longrightarrow> n < 256 ^ 8"
  by (simp add: u64_max_def)

lemma post_of_desc_key_desc_key [simp]: "p \<le> u64_max \<Longrightarrow> post_of_desc_key (desc_key p) = p"
proof -
  assume "p \<le> u64_max"
  moreover have "(u64_max - p) mod 256 ^ 8 = u64_max - p" by (simp add: u64_max_less del: power_numeral)
  ultimately show ?thesis by (simp add: post_of_desc_key_def desc_key_def from_to_be_bytes del: power_numeral)
qed

lemma desc_key_inject: "p \<le> u64_max \<Longrightarrow> q \<le> u64_max \<Longrightarrow> desc_key p = desc_key q \<longleftrightarrow> p = q"
  by (metis post_of_desc_key_desc_key)

lemma to_be_bytes_less:
  "m mod 256 ^ k < n mod 256 ^ k \<Longrightarrow> (to_be_bytes k m, to_be_bytes k n) \<in> lexord {(x, y). x < y}"
proof (induction k)
  case (Suc k)
  have split: "x mod 256 ^ Suc k = 256 ^ k * (x div 256 ^ k mod 256) + x mod 256 ^ k" for x :: nat
    by (simp add: mod_mult2_eq mult.commute [of 256])
  let ?hi = "\<lambda>x. x div 256 ^ k mod (256::nat)"
  have bounds: "m mod 256 ^ k < 256 ^ k" "n mod 256 ^ k < 256 ^ k" by simp_all
  have le: "?hi m \<le> ?hi n"
  proof (rule ccontr)
    assume "\<not> ?hi m \<le> ?hi n"
    then have "256 ^ k * Suc (?hi n) \<le> 256 ^ k * ?hi m" by (intro mult_le_mono2) simp
    then have "256 ^ k + 256 ^ k * ?hi n \<le> 256 ^ k * ?hi m" by simp
    moreover have "256 ^ k * ?hi m + m mod 256 ^ k < 256 ^ k * ?hi n + n mod 256 ^ k"
      using Suc.prems unfolding split [of m] split [of n] .
    ultimately show False using bounds by linarith
  qed
  have word: "(of_nat x :: u8) < of_nat y \<longleftrightarrow> x < y" if "x < 256" "y < 256" for x y
    using that by (simp add: word_less_nat_alt unat_of_nat take_bit_eq_mod)
  show ?case
  proof (cases "?hi m = ?hi n")
    case True
    with Suc split [of m] split [of n] show ?thesis by simp
  next
    case False
    with le word show ?thesis by simp
  qed
qed simp

lemma desc_key_descends:
  assumes "p < q" and "q \<le> u64_max"
  shows "(desc_key q, desc_key p) \<in> lexord {(x, y). x < y}"
proof -
  have mod: "(u64_max - x) mod 256 ^ 8 = u64_max - x" for x
    by (simp add: u64_max_less del: power_numeral)
  show ?thesis
    unfolding desc_key_def by (rule to_be_bytes_less) (use assms in \<open>simp add: mod del: power_numeral\<close>)
qed

section \<open>The invariant\<close>

text \<open>
  An index is dense: it holds exactly the entries of a list, keyed by their position, and its counter
  is the length of the list.
\<close>

definition indexes :: "(nat \<Rightarrow> nat option) \<Rightarrow> nat \<Rightarrow> nat list \<Rightarrow> bool" where
  "indexes m n xs \<longleftrightarrow> n = length xs \<and> (\<forall>s. m s = (if s < length xs then Some (xs ! s) else None))"

lemma indexes_Nil [simp]: "indexes (\<lambda>_. None) 0 []"
  by (simp add: indexes_def)

lemma indexes_snoc: "indexes m n xs \<Longrightarrow> indexes (m(n \<mapsto> x)) (Suc n) (xs @ [x])"
  by (auto simp: indexes_def nth_append less_Suc_eq)

definition post_ids :: "(post \<Rightarrow> bool) \<Rightarrow> chain \<Rightarrow> nat list" where
  "post_ids P st = filter (\<lambda>i. case Posts st i of Some p \<Rightarrow> P p | None \<Rightarrow> False) [0..<NextPostId st]"

lemma post_ids_le: "length (post_ids P st) \<le> NextPostId st"
  unfolding post_ids_def by (metis diff_zero length_filter_le length_upt)

definition posts_inv :: "chain \<Rightarrow> bool" where
  "posts_inv st \<longleftrightarrow>
     (\<forall>i. Posts st i \<noteq> None \<longleftrightarrow> i < NextPostId st) \<and>
     (\<forall>a. indexes (ByAuthor st a) (ByAuthorCount st a) (post_ids (\<lambda>p. po_author p = a) st)) \<and>
     indexes (TopLevelPosts st) (NextTopLevelSeq st) (post_ids (\<lambda>p. po_parent p = None) st) \<and>
     (\<forall>a. indexes (TopLevelByAuthor st a) (TopLevelByAuthorCount st a)
            (post_ids (\<lambda>p. po_parent p = None \<and> po_author p = a) st)) \<and>
     (\<forall>q. indexes (RepliesByParentSeq st q) (ReplyCount st q) (post_ids (\<lambda>p. po_parent p = Some q) st)) \<and>
     (\<forall>q. map fst (RepliesByParent st q) = post_ids (\<lambda>p. po_parent p = Some q) st)"

definition votes_inv :: "chain \<Rightarrow> bool" where
  "votes_inv st \<longleftrightarrow>
     (\<forall>p. omap_ok (Votes st p) \<and> VoteTally st p = counts_of (Votes st p) \<and> (NextPostId st \<le> p \<longrightarrow> Votes st p = [])) \<and>
     (\<forall>a p. map_of (VotesByAccount st a) p = Some () \<longleftrightarrow> map_of (Votes st p) a = Some Up) \<and>
     (\<forall>a k. map_of (LikesByAccount st a) k = Some () \<longleftrightarrow> (\<exists>p. k = desc_key p \<and> map_of (Votes st p) a = Some Up)) \<and>
     (\<forall>t. omap_ok (AccountVotes st t) \<and> AccountVoteTally st t = counts_of (AccountVotes st t))"

definition follows_inv :: "chain \<Rightarrow> bool" where
  "follows_inv st \<longleftrightarrow>
     (\<forall>a. omap_ok (Following st a) \<and> omap_ok (Followers st a) \<and>
          FollowingCount st a = length (Following st a) \<and> FollowerCount st a = length (Followers st a)) \<and>
     (\<forall>a b. map_of (Following st a) b = Some () \<longleftrightarrow> map_of (Followers st b) a = Some ())"

definition poll_ok :: "nat \<Rightarrow> nat \<Rightarrow> poll option \<Rightarrow> (ss58, nat) omap \<Rightarrow> (nat \<Rightarrow> nat) \<Rightarrow> bool" where
  "poll_ok n p po pv t \<longleftrightarrow>
     omap_ok pv \<and> (\<forall>v. t v = tally v pv) \<and>
     (case po of
        None \<Rightarrow> pv = []
      | Some pl \<Rightarrow> p < n \<and> 2 \<le> length (pl_options pl) \<and> (\<forall>(a, v) \<in> set pv. v < length (pl_options pl)))"

definition polls_inv :: "chain \<Rightarrow> bool" where
  "polls_inv st \<longleftrightarrow> (\<forall>p. poll_ok (NextPostId st) p (Polls st p) (PollVotes st p) (PollTally st p))"

lemma poll_ok_mono: "poll_ok n p po pv t \<Longrightarrow> n \<le> n' \<Longrightarrow> poll_ok n' p po pv t"
  by (auto simp: poll_ok_def split: option.splits)

lemma poll_ok_fresh: "poll_ok n n po pv t \<Longrightarrow> po = None \<and> pv = [] \<and> (\<forall>v. t v = 0)"
  by (auto simp: poll_ok_def split: option.splits)

definition chain_inv :: "chain \<Rightarrow> bool" where
  "chain_inv st \<longleftrightarrow> posts_inv st \<and> votes_inv st \<and> follows_inv st \<and> polls_inv st"

lemma deposit_event_frame [simp]:
  "block_number (deposit_event e st) = block_number st"
  "PkhOf (deposit_event e st) = PkhOf st"
  "stakers (deposit_event e st) = stakers st"
  "VotingPower (deposit_event e st) = VotingPower st"
  "AuthorFields (deposit_event e st) = AuthorFields st"
  "NextPostId (deposit_event e st) = NextPostId st"
  "Posts (deposit_event e st) = Posts st"
  "ByAuthor (deposit_event e st) = ByAuthor st"
  "ByAuthorCount (deposit_event e st) = ByAuthorCount st"
  "NextTopLevelSeq (deposit_event e st) = NextTopLevelSeq st"
  "TopLevelPosts (deposit_event e st) = TopLevelPosts st"
  "TopLevelByAuthor (deposit_event e st) = TopLevelByAuthor st"
  "TopLevelByAuthorCount (deposit_event e st) = TopLevelByAuthorCount st"
  "ReplyCount (deposit_event e st) = ReplyCount st"
  "RepliesByParent (deposit_event e st) = RepliesByParent st"
  "RepliesByParentSeq (deposit_event e st) = RepliesByParentSeq st"
  "Votes (deposit_event e st) = Votes st"
  "VoteTally (deposit_event e st) = VoteTally st"
  "VotesByAccount (deposit_event e st) = VotesByAccount st"
  "LikesByAccount (deposit_event e st) = LikesByAccount st"
  "AccountVotes (deposit_event e st) = AccountVotes st"
  "AccountVoteTally (deposit_event e st) = AccountVoteTally st"
  "Following (deposit_event e st) = Following st"
  "Followers (deposit_event e st) = Followers st"
  "FollowingCount (deposit_event e st) = FollowingCount st"
  "FollowerCount (deposit_event e st) = FollowerCount st"
  "Polls (deposit_event e st) = Polls st"
  "PollVotes (deposit_event e st) = PollVotes st"
  "PollTally (deposit_event e st) = PollTally st"
  by (simp_all add: deposit_event_def)

lemma chain_inv_deposit [simp]: "chain_inv (deposit_event e st) = chain_inv st"
  by (simp add: chain_inv_def posts_inv_def post_ids_def votes_inv_def follows_inv_def polls_inv_def)

text \<open>
  No counter is about to saturate.  The pallet documents the same bound: it takes four billion rows
  under one key to reach it.
\<close>

definition roomy :: "chain \<Rightarrow> bool" where
  "roomy st \<longleftrightarrow> NextPostId st < u32_max \<and>
     (\<forall>p. length (Votes st p) < u32_max \<and> length (PollVotes st p) < u32_max) \<and>
     (\<forall>a. length (AccountVotes st a) < u32_max \<and> length (Following st a) < u32_max \<and>
          length (Followers st a) < u32_max)"

lemma chain_inv_genesis: "chain_inv genesis"
  by (simp add: chain_inv_def posts_inv_def votes_inv_def follows_inv_def polls_inv_def
      poll_ok_def genesis_def post_ids_def counts_of_def)

subsection \<open>Creating a post\<close>

definition new_post :: "ss58 \<Rightarrow> bytes \<Rightarrow> nat option \<Rightarrow> nat option \<Rightarrow> chain \<Rightarrow> post" where
  "new_post who txt par quo st =
     \<lparr>po_author = who, po_text = txt, po_parent = par, po_at = block_number st, po_quote = quo\<rparr>"

lemmas index_defs = insert_post_def index_by_author_def index_reply_def index_top_level_def Let_def

lemma insert_post_frame [simp]:
  "block_number (insert_post who txt par quo st) = block_number st"
  "PkhOf (insert_post who txt par quo st) = PkhOf st"
  "stakers (insert_post who txt par quo st) = stakers st"
  "VotingPower (insert_post who txt par quo st) = VotingPower st"
  "AuthorFields (insert_post who txt par quo st) = AuthorFields st"
  "Votes (insert_post who txt par quo st) = Votes st"
  "VoteTally (insert_post who txt par quo st) = VoteTally st"
  "VotesByAccount (insert_post who txt par quo st) = VotesByAccount st"
  "LikesByAccount (insert_post who txt par quo st) = LikesByAccount st"
  "AccountVotes (insert_post who txt par quo st) = AccountVotes st"
  "AccountVoteTally (insert_post who txt par quo st) = AccountVoteTally st"
  "Following (insert_post who txt par quo st) = Following st"
  "Followers (insert_post who txt par quo st) = Followers st"
  "FollowingCount (insert_post who txt par quo st) = FollowingCount st"
  "FollowerCount (insert_post who txt par quo st) = FollowerCount st"
  "Polls (insert_post who txt par quo st) = Polls st"
  "PollVotes (insert_post who txt par quo st) = PollVotes st"
  "PollTally (insert_post who txt par quo st) = PollTally st"
  "Posts (insert_post who txt par quo st) = (Posts st)(NextPostId st \<mapsto> new_post who txt par quo st)"
  "NextPostId (insert_post who txt par quo st) = saturating_add u64_max (NextPostId st) 1"
  by (simp_all add: index_defs new_post_def split: option.split)

lemma insert_post_indexes:
  "ByAuthor (insert_post who txt par quo st) = (ByAuthor st)(who := (ByAuthor st who)(ByAuthorCount st who \<mapsto> NextPostId st))"
  "ByAuthorCount (insert_post who txt par quo st) = (ByAuthorCount st)(who := saturating_add u64_max (ByAuthorCount st who) 1)"
  "TopLevelPosts (insert_post who txt par quo st) =
     (if par = None then (TopLevelPosts st)(NextTopLevelSeq st \<mapsto> NextPostId st) else TopLevelPosts st)"
  "NextTopLevelSeq (insert_post who txt par quo st) =
     (if par = None then saturating_add u64_max (NextTopLevelSeq st) 1 else NextTopLevelSeq st)"
  "TopLevelByAuthor (insert_post who txt par quo st) =
     (if par = None then (TopLevelByAuthor st)
        (who := (TopLevelByAuthor st who)(TopLevelByAuthorCount st who \<mapsto> NextPostId st)) else TopLevelByAuthor st)"
  "TopLevelByAuthorCount (insert_post who txt par quo st) =
     (if par = None then (TopLevelByAuthorCount st)
        (who := saturating_add u64_max (TopLevelByAuthorCount st who) 1) else TopLevelByAuthorCount st)"
  "ReplyCount (insert_post who txt par quo st) = (case par of None \<Rightarrow> ReplyCount st
     | Some p \<Rightarrow> (ReplyCount st)(p := saturating_add u32_max (ReplyCount st p) 1))"
  "RepliesByParent (insert_post who txt par quo st) = (case par of None \<Rightarrow> RepliesByParent st
     | Some p \<Rightarrow> (RepliesByParent st)(p := omap_set (NextPostId st) () (RepliesByParent st p)))"
  "RepliesByParentSeq (insert_post who txt par quo st) = (case par of None \<Rightarrow> RepliesByParentSeq st
     | Some p \<Rightarrow> (RepliesByParentSeq st)(p := (RepliesByParentSeq st p)(ReplyCount st p \<mapsto> NextPostId st)))"
  by (simp_all add: index_defs split: option.split)

lemma post_ids_insert:
  assumes "NextPostId st < u64_max"
  shows "post_ids P (insert_post who txt par quo st) =
           post_ids P st @ (if P (new_post who txt par quo st) then [NextPostId st] else [])"
proof -
  have "filter (\<lambda>i. case ((Posts st)(NextPostId st \<mapsto> new_post who txt par quo st)) i of Some p \<Rightarrow> P p | None \<Rightarrow> False)
          [0..<NextPostId st] = post_ids P st"
    unfolding post_ids_def by (rule filter_cong) auto
  with assms show ?thesis by (simp add: post_ids_def [of _ "insert_post who txt par quo st"])
qed

lemma index_room:
  assumes "indexes m n (post_ids P st)" and "NextPostId st < u32_max"
  shows "n < u32_max" "n < u64_max"
  using assms post_ids_le [of P st] by (auto simp: indexes_def u32_max_def u64_max_def)

lemma posts_inv_insert:
  assumes inv: "posts_inv st" and room: "NextPostId st < u32_max"
  shows "posts_inv (insert_post who txt par quo st)"
proof -
  have room64: "NextPostId st < u64_max" using room by (simp add: u32_max_def u64_max_def)
  note ids = post_ids_insert [OF room64]
  have A: "indexes (ByAuthor st a) (ByAuthorCount st a) (post_ids (\<lambda>p. po_author p = a) st)"
    and T: "indexes (TopLevelPosts st) (NextTopLevelSeq st) (post_ids (\<lambda>p. po_parent p = None) st)"
    and TA: "indexes (TopLevelByAuthor st a) (TopLevelByAuthorCount st a)
            (post_ids (\<lambda>p. po_parent p = None \<and> po_author p = a) st)"
    and R: "indexes (RepliesByParentSeq st q) (ReplyCount st q) (post_ids (\<lambda>p. po_parent p = Some q) st)"
    and RM: "map fst (RepliesByParent st q) = post_ids (\<lambda>p. po_parent p = Some q) st"
    and dense: "\<And>i. Posts st i \<noteq> None \<longleftrightarrow> i < NextPostId st" for a q
    using inv by (auto simp: posts_inv_def)
  have fresh: "map_of (RepliesByParent st q) (NextPostId st) = None" for q
    using RM [of q] by (auto simp: map_of_None_iff_keys post_ids_def simp flip: set_map)
  note rooms = index_room [OF A room] index_room [OF T room] index_room [OF TA room] index_room [OF R room]
  show ?thesis
    unfolding posts_inv_def
    using A T TA R RM dense rooms
    by (auto simp: insert_post_indexes ids new_post_def indexes_snoc omap_set_absent fresh room64
        split: option.split)
qed

lemma u64_room: "n < u32_max \<Longrightarrow> n < u64_max"
  by (simp add: u32_max_def u64_max_def)

lemma chain_inv_insert:
  assumes "chain_inv st" and "roomy st"
  shows "chain_inv (insert_post who txt par quo st)"
proof -
  have room: "NextPostId st < u32_max" using assms(2) by (simp add: roomy_def)
  have "votes_inv (insert_post who txt par quo st)" "follows_inv (insert_post who txt par quo st)"
    using assms(1) u64_room [OF room] by (auto simp: chain_inv_def votes_inv_def follows_inv_def)
  moreover have "polls_inv (insert_post who txt par quo st)"
    using assms(1) u64_room [OF room]
    by (auto simp: chain_inv_def polls_inv_def intro: poll_ok_mono)
  ultimately show ?thesis
    using assms posts_inv_insert [OF _ room] by (simp add: chain_inv_def)
qed

lemma chain_inv_add_poll:
  assumes "chain_inv st" and "roomy st" and "2 \<le> length (pl_options pl)"
  shows "chain_inv ((insert_post who txt None None st)\<lparr>Polls := (Polls st)(NextPostId st \<mapsto> pl)\<rparr>)"
proof -
  let ?st = "insert_post who txt None None st"
  have room: "NextPostId st < u32_max" using assms(2) by (simp add: roomy_def)
  have inv: "chain_inv ?st" using chain_inv_insert [OF assms(1,2)] .
  have fresh: "PollVotes st (NextPostId st) = []" "PollTally st (NextPostId st) v = 0" for v
    using assms(1) poll_ok_fresh [of "NextPostId st"] by (auto simp: chain_inv_def polls_inv_def)
  have "polls_inv (?st\<lparr>Polls := (Polls st)(NextPostId st \<mapsto> pl)\<rparr>)"
    using inv fresh u64_room [OF room] assms(3)
    by (auto simp: chain_inv_def polls_inv_def poll_ok_def)
  moreover have "post_ids P (?st\<lparr>Polls := X\<rparr>) = post_ids P ?st" for P X
    by (simp add: post_ids_def)
  ultimately show ?thesis
    using inv by (simp add: chain_inv_def posts_inv_def votes_inv_def follows_inv_def)
qed

subsection \<open>Votes\<close>

lemmas like_defs = index_like_def unindex_like_def

lemma likes_frame [simp]:
  "Posts (index_like who pid st) = Posts st" "Posts (unindex_like who pid st) = Posts st"
  "NextPostId (index_like who pid st) = NextPostId st" "NextPostId (unindex_like who pid st) = NextPostId st"
  "Votes (index_like who pid st) = Votes st" "Votes (unindex_like who pid st) = Votes st"
  "VoteTally (index_like who pid st) = VoteTally st" "VoteTally (unindex_like who pid st) = VoteTally st"
  "AccountVotes (index_like who pid st) = AccountVotes st" "AccountVotes (unindex_like who pid st) = AccountVotes st"
  "AccountVoteTally (index_like who pid st) = AccountVoteTally st"
  "AccountVoteTally (unindex_like who pid st) = AccountVoteTally st"
  by (simp_all add: like_defs)

text \<open>The two likes maps follow the votes when one account's vote on one existing post changes.\<close>

definition likes_ok :: "(nat \<Rightarrow> (ss58, vote) omap) \<Rightarrow> chain \<Rightarrow> bool" where
  "likes_ok V st \<longleftrightarrow>
     (\<forall>a p. map_of (VotesByAccount st a) p = Some () \<longleftrightarrow> map_of (V p) a = Some Up) \<and>
     (\<forall>a k. map_of (LikesByAccount st a) k = Some () \<longleftrightarrow> (\<exists>p. k = desc_key p \<and> map_of (V p) a = Some Up))"

lemma likes_ok_index:
  assumes "likes_ok V st" and "map_of b = (map_of (V pid))(who \<mapsto> Up)"
  shows "likes_ok (V(pid := b)) (index_like who pid st)"
  using assms by (auto simp: likes_ok_def index_like_def)

lemma likes_ok_unindex:
  assumes "likes_ok V st" and "map_of b = (map_of (V pid))(who := x)" and "x \<noteq> Some Up"
    and "\<And>p. map_of (V p) who = Some Up \<Longrightarrow> p \<le> u64_max" and "pid \<le> u64_max"
  shows "likes_ok (V(pid := b)) (unindex_like who pid st)"
proof -
  have eq: "map_of ((V(pid := b)) p) a = (if p = pid \<and> a = who then x else map_of (V p) a)" for p a
    using assms(2) by simp
  show ?thesis
    unfolding likes_ok_def eq
    using assms(1,3-5) by (auto simp: likes_ok_def unindex_like_def desc_key_inject)
qed

lemma votes_inv_likes_ok: "votes_inv st \<Longrightarrow> likes_ok (Votes st) st"
  by (simp add: votes_inv_def likes_ok_def)

lemma votes_inv_eq:
  "votes_inv st \<longleftrightarrow>
     (\<forall>p. omap_ok (Votes st p) \<and> VoteTally st p = counts_of (Votes st p) \<and> (NextPostId st \<le> p \<longrightarrow> Votes st p = [])) \<and>
     likes_ok (Votes st) st \<and>
     (\<forall>t. omap_ok (AccountVotes st t) \<and> AccountVoteTally st t = counts_of (AccountVotes st t))"
  by (auto simp: votes_inv_def likes_ok_def)

text \<open>The state after an account's vote on a post becomes \<open>x\<close>, and the calls that reach it.\<close>

definition set_vote :: "ss58 \<Rightarrow> nat \<Rightarrow> (ss58, vote) omap \<Rightarrow> chain \<Rightarrow> chain" where
  "set_vote who pid b st = st\<lparr>VoteTally := (VoteTally st)(pid := counts_of b), Votes := (Votes st)(pid := b)\<rparr>"

lemma votes_bound:
  assumes "votes_inv st" and "roomy st" and "map_of (Votes st p) a = Some v"
  shows "p \<le> u64_max"
proof -
  have "p < NextPostId st" using assms(1,3) by (auto simp: votes_inv_def not_le [symmetric])
  with assms(2) show ?thesis by (simp add: roomy_def u32_max_def u64_max_def)
qed

lemma vote_post_eq:
  assumes "votes_inv st" and "roomy st"
  shows "vote_post who pid dir st =
     (if \<not> PkhOf st who then Inl NotAllowed
      else if Posts st pid = None then Inl NotFound
      else Inr (deposit_event (Voted pid who dir) (case dir of
          Up \<Rightarrow> index_like who pid (set_vote who pid (omap_set who Up (Votes st pid)) st)
        | Down \<Rightarrow> unindex_like who pid (set_vote who pid (omap_set who Down (Votes st pid)) st))))"
proof -
  have "recount (map_of (Votes st pid) who) d (VoteTally st pid) = counts_of (omap_set who d (Votes st pid))" for d
    using assms recount_counts [of "Votes st pid"] by (simp add: votes_inv_def roomy_def)
  then show ?thesis by (simp add: vote_post_def set_vote_def Let_def split: vote.split)
qed

lemma clear_vote_eq:
  assumes "votes_inv st" and "map_of (Votes st pid) who = Some v" and "PkhOf st who"
  shows "clear_vote who pid st = Inr (deposit_event (VoteCleared pid who)
           (unindex_like who pid (set_vote who pid (omap_del who (Votes st pid)) st)))"
proof -
  have "dec_count v (VoteTally st pid) = counts_of (omap_del who (Votes st pid))"
    using assms dec_count_counts [of "Votes st pid"] by (simp add: votes_inv_def)
  with assms show ?thesis by (simp add: clear_vote_def set_vote_def unindex_like_def deposit_event_def)
qed

lemma likes_ok_set_vote [simp]: "likes_ok V (set_vote who pid b st) = likes_ok V st"
  by (simp add: likes_ok_def set_vote_def)

lemma votes_inv_set_vote:
  assumes "votes_inv st" and "roomy st" and "pid < NextPostId st"
    and "map_of b = (map_of (Votes st pid))(who := x)" and "omap_ok b"
  shows "x = Some Up \<Longrightarrow> votes_inv (index_like who pid (set_vote who pid b st))"
    and "x \<noteq> Some Up \<Longrightarrow> votes_inv (unindex_like who pid (set_vote who pid b st))"
proof -
  have lk: "likes_ok (Votes st) (set_vote who pid b st)" using votes_inv_likes_ok [OF assms(1)] by simp
  have pid: "pid \<le> u64_max" using assms(2,3) by (simp add: roomy_def u32_max_def u64_max_def)
  show "votes_inv (index_like who pid (set_vote who pid b st))" if "x = Some Up"
    using assms likes_ok_index [OF lk, of b pid who] that
    by (auto simp: votes_inv_eq set_vote_def)
  show "votes_inv (unindex_like who pid (set_vote who pid b st))" if "x \<noteq> Some Up"
    using assms likes_ok_unindex [OF lk, of b pid who x] that votes_bound [OF assms(1,2)] pid
    by (auto simp: votes_inv_eq set_vote_def)
qed

lemma votes_frame:
  "posts_inv (index_like who pid (set_vote who pid b st)) = posts_inv st"
  "posts_inv (unindex_like who pid (set_vote who pid b st)) = posts_inv st"
  "follows_inv (index_like who pid (set_vote who pid b st)) = follows_inv st"
  "follows_inv (unindex_like who pid (set_vote who pid b st)) = follows_inv st"
  "polls_inv (index_like who pid (set_vote who pid b st)) = polls_inv st"
  "polls_inv (unindex_like who pid (set_vote who pid b st)) = polls_inv st"
  by (simp_all add: posts_inv_def post_ids_def follows_inv_def polls_inv_def like_defs set_vote_def)

lemma chain_inv_vote_post:
  assumes "chain_inv st" and "roomy st" and "vote_post who pid dir st = Inr st'"
  shows "chain_inv st'"
proof -
  have inv: "votes_inv st" using assms(1) by (simp add: chain_inv_def)
  have ok: "omap_ok (Votes st pid)" using inv by (simp add: votes_inv_def)
  have pid: "pid < NextPostId st" and st': "st' = deposit_event (Voted pid who dir) (case dir of
          Up \<Rightarrow> index_like who pid (set_vote who pid (omap_set who Up (Votes st pid)) st)
        | Down \<Rightarrow> unindex_like who pid (set_vote who pid (omap_set who Down (Votes st pid)) st))"
    using assms(1,3) vote_post_eq [OF inv assms(2)]
    by (auto simp: chain_inv_def posts_inv_def split: if_splits)
  show ?thesis
    using assms(1) st' ok
      votes_inv_set_vote(1) [OF inv assms(2) pid, of "omap_set who Up (Votes st pid)" who "Some Up"]
      votes_inv_set_vote(2) [OF inv assms(2) pid, of "omap_set who Down (Votes st pid)" who "Some Down"]
    by (cases dir) (simp_all, simp_all add: chain_inv_def votes_frame)
qed

lemma chain_inv_clear_vote:
  assumes "chain_inv st" and "roomy st" and "clear_vote who pid st = Inr st'"
  shows "chain_inv st'"
proof -
  have inv: "votes_inv st" using assms(1) by (simp add: chain_inv_def)
  from assms(3) obtain v where v: "map_of (Votes st pid) who = Some v" "PkhOf st who"
    by (auto simp: clear_vote_def split: if_splits option.splits)
  have pid: "pid < NextPostId st" using inv v by (auto simp: votes_inv_def not_le [symmetric])
  have ok: "omap_ok (Votes st pid)" using inv by (simp add: votes_inv_def)
  have "chain_inv (unindex_like who pid (set_vote who pid (omap_del who (Votes st pid)) st))"
    using assms(1) ok votes_inv_set_vote(2) [OF inv assms(2) pid, of "omap_del who (Votes st pid)" who None]
    by (auto simp: chain_inv_def votes_frame)
  with assms(3) [unfolded clear_vote_eq [OF inv v]] show ?thesis by auto
qed

lemma chain_inv_set_account_votes:
  assumes "chain_inv st" and "omap_ok b"
  shows "chain_inv (st\<lparr>AccountVotes := (AccountVotes st)(t := b), AccountVoteTally := (AccountVoteTally st)(t := counts_of b)\<rparr>)"
  using assms by (simp add: chain_inv_def posts_inv_def post_ids_def votes_inv_def follows_inv_def polls_inv_def)

lemma chain_inv_vote_account:
  assumes "chain_inv st" and "roomy st" and "vote_account who t dir st = Inr st'"
  shows "chain_inv st'"
proof -
  have ok: "omap_ok (AccountVotes st t)" "length (AccountVotes st t) < u32_max"
    using assms(1,2) by (simp_all add: chain_inv_def votes_inv_def roomy_def)
  have tal: "AccountVoteTally st t = counts_of (AccountVotes st t)"
    using assms(1) by (simp add: chain_inv_def votes_inv_def)
  have "st' = deposit_event (AccountVoted t who dir) (st\<lparr>AccountVotes := (AccountVotes st)(t := omap_set who dir (AccountVotes st t)),
                 AccountVoteTally := (AccountVoteTally st)(t := counts_of (omap_set who dir (AccountVotes st t)))\<rparr>)"
    using assms(3) recount_counts [OF ok, of who dir] tal
    by (auto simp: vote_account_def deposit_event_def split: if_splits)
  with chain_inv_set_account_votes [OF assms(1), of "omap_set who dir (AccountVotes st t)" t] ok
  show ?thesis by simp
qed

lemma chain_inv_clear_account_vote:
  assumes "chain_inv st" and "clear_account_vote who t st = Inr st'"
  shows "chain_inv st'"
proof -
  from assms(2) obtain v where v: "map_of (AccountVotes st t) who = Some v"
    by (auto simp: clear_account_vote_def split: if_splits option.splits)
  have ok: "omap_ok (AccountVotes st t)" and tal: "AccountVoteTally st t = counts_of (AccountVotes st t)"
    using assms(1) by (simp_all add: chain_inv_def votes_inv_def)
  have "st' = deposit_event (AccountVoteCleared t who) (st\<lparr>AccountVotes := (AccountVotes st)(t := omap_del who (AccountVotes st t)),
                 AccountVoteTally := (AccountVoteTally st)(t := counts_of (omap_del who (AccountVotes st t)))\<rparr>)"
    using assms(2) v tal dec_count_counts [OF ok v]
    by (auto simp: clear_account_vote_def deposit_event_def split: if_splits)
  with chain_inv_set_account_votes [OF assms(1), of "omap_del who (AccountVotes st t)" t] ok
  show ?thesis by simp
qed

subsection \<open>Follows and polls\<close>

lemma chain_inv_follow:
  assumes "chain_inv st" and "roomy st" and "follow who t st = Inr st'"
  shows "chain_inv st'"
proof -
  have F: "follows_inv st" using assms(1) by (simp add: chain_inv_def)
  have none: "map_of (Following st who) t = None"
    using assms(3) by (cases "map_of (Following st who) t") (auto simp: follow_def split: if_splits)
  have none': "map_of (Followers st t) who = None"
    using F none unfolding follows_inv_def by (metis not_Some_eq old.unit.exhaust)
  have "follows_inv st'"
    using F none none' assms(2,3)
    by (auto simp: follows_inv_def follow_def roomy_def length_omap_set_map_of split: if_splits)
  moreover have "posts_inv st'" "votes_inv st'" "polls_inv st'"
    using assms(1,3)
    by (auto simp: chain_inv_def follow_def posts_inv_def post_ids_def votes_inv_def polls_inv_def split: if_splits)
  ultimately show ?thesis by (simp add: chain_inv_def)
qed

lemma chain_inv_unfollow:
  assumes "chain_inv st" and "unfollow who t st = Inr st'"
  shows "chain_inv st'"
proof -
  have F: "follows_inv st" using assms(1) by (simp add: chain_inv_def)
  have some: "map_of (Following st who) t = Some ()" using assms(2) by (auto simp: unfollow_def split: if_splits)
  have some': "map_of (Followers st t) who = Some ()" using F some by (simp add: follows_inv_def)
  have ok: "omap_ok (Following st who)" "omap_ok (Followers st t)" using F by (simp_all add: follows_inv_def)
  have len: "length (omap_del t (Following st who)) = length (Following st who) - 1"
    "length (omap_del who (Followers st t)) = length (Followers st t) - 1"
    using some some' ok by (simp_all add: length_omap_del)
  have "follows_inv st'"
    using F assms(2)
    by (auto simp: follows_inv_def unfollow_def len split: if_splits)
  moreover have "posts_inv st'" "votes_inv st'" "polls_inv st'"
    using assms by (auto simp: chain_inv_def unfollow_def posts_inv_def post_ids_def votes_inv_def polls_inv_def split: if_splits)
  ultimately show ?thesis by (simp add: chain_inv_def)
qed

lemma bound_options_length:
  "bound_options T acc opts = Inr bs \<Longrightarrow> bs = acc @ opts"
  by (induction T acc opts rule: bound_options.induct) (auto split: if_splits)

lemma chain_inv_create_poll:
  assumes "chain_inv st" and "roomy st" and "create_poll T who q opts c k act st = Inr st'"
  shows "chain_inv st'"
proof -
  from assms(3) obtain bs action where "bound_options T [] opts = Inr bs" and two: "2 \<le> length opts"
    and st': "st' = deposit_event (PollCreated (NextPostId st) who) (deposit_event (PostCreated (NextPostId st) who)
                  ((insert_post who q None None st)\<lparr>Polls := (Polls st)(NextPostId st \<mapsto>
                     \<lparr>pl_options = bs, pl_close_at = c, pl_kind = k, pl_action = action\<rparr>)\<rparr>))"
    by (auto simp: create_poll_def split: if_splits option.splits sum.splits)
  then have "bs = opts" using bound_options_length by fastforce
  with st' two show ?thesis using chain_inv_add_poll [OF assms(1,2)] by simp
qed

lemma set_omap_set: "set (omap_set k v m) \<subseteq> insert (k, v) (set m)"
  by (induction m) (auto split: if_splits)

lemma poll_ok_cast:
  assumes "poll_ok n p (Some pl) pv t" and "length pv < u32_max" and "v < length (pl_options pl)"
    and t1: "t1 = (case map_of pv who of Some prev \<Rightarrow> t(prev := t prev - 1) | None \<Rightarrow> t)"
  shows "poll_ok n p (Some pl) (omap_set who v pv) (t1(v := saturating_add u32_max (t1 v) 1))"
proof -
  have ok: "omap_ok pv" and t: "t x = tally x pv" for x using assms(1) by (simp_all add: poll_ok_def)
  have t1': "t1 x + (if map_of pv who = Some x then 1 else 0) = tally x pv" for x
    using tally_pos [of pv who x] by (auto simp: t1 t split: option.split)
  then have room: "t1 v < u32_max" using tally_room [OF assms(2), of v] by (metis le_add1 le_less_trans)
  have "(t1(v := saturating_add u32_max (t1 v) 1)) x = tally x (omap_set who v pv)" for x
    using tally_set [OF ok, of x who v] t1' [of x] room by (auto split: if_splits)
  moreover have "\<forall>(a, x) \<in> set (omap_set who v pv). x < length (pl_options pl)"
    using assms(1,3) set_omap_set [of who v pv] by (auto simp: poll_ok_def)
  ultimately show ?thesis using assms(1) ok by (auto simp: poll_ok_def)
qed

lemma chain_inv_cast_poll_vote:
  assumes "chain_inv st" and "roomy st" and "cast_poll_vote who pid v st = Inr st'"
  shows "chain_inv st'"
proof -
  from assms(3) obtain pl where pl: "Polls st pid = Some pl" and v: "v < length (pl_options pl)"
    by (auto simp: cast_poll_vote_def split: if_splits option.splits)
  let ?t = "case map_of (PollVotes st pid) who of Some prev \<Rightarrow> (PollTally st pid)(prev := PollTally st pid prev - 1)
              | None \<Rightarrow> PollTally st pid"
  have st': "st' = deposit_event (PollVoted pid who v) (st\<lparr>PollTally := (PollTally st)(pid := ?t(v := saturating_add u32_max (?t v) 1)),
                       PollVotes := (PollVotes st)(pid := omap_set who v (PollVotes st pid))\<rparr>)"
    using assms(3) pl by (simp add: cast_poll_vote_def Let_def split: if_splits)
  have ok: "poll_ok (NextPostId st) pid (Some pl) (PollVotes st pid) (PollTally st pid)"
    using assms(1) pl unfolding chain_inv_def polls_inv_def by metis
  have room: "length (PollVotes st pid) < u32_max" using assms(2) by (simp add: roomy_def)
  have "polls_inv st'"
    using assms(1) poll_ok_cast [OF ok room v refl, of who] pl
    by (simp add: st' chain_inv_def polls_inv_def)
  with assms(1) show ?thesis
    by (simp add: st' chain_inv_def posts_inv_def post_ids_def votes_inv_def follows_inv_def)
qed

section \<open>The chain as a transition system\<close>

datatype call =
    PostMessage bytes "nat option" | QuotePost bytes nat | Vote nat vote | ClearVote nat
  | VoteAccount ss58 vote | ClearAccountVote ss58 | Follow ss58 | Unfollow ss58
  | CreatePoll bytes "bytes list" "nat option" poll_kind "gov_action option" | CastPollVote nat nat

fun dispatch :: "config \<Rightarrow> ss58 \<Rightarrow> call \<Rightarrow> chain \<Rightarrow> dispatch_error + chain" where
  "dispatch T who (PostMessage txt par) st = post_message T who txt par st"
| "dispatch T who (QuotePost txt q) st = quote_post T who txt q st"
| "dispatch T who (Vote p d) st = vote_post who p d st"
| "dispatch T who (ClearVote p) st = clear_vote who p st"
| "dispatch T who (VoteAccount t d) st = vote_account who t d st"
| "dispatch T who (ClearAccountVote t) st = clear_account_vote who t st"
| "dispatch T who (Follow t) st = follow who t st"
| "dispatch T who (Unfollow t) st = unfollow who t st"
| "dispatch T who (CreatePoll q opts c k a) st = create_poll T who q opts c k a st"
| "dispatch T who (CastPollVote p v) st = cast_poll_vote who p v st"

text \<open>
  An extrinsic that fails changes nothing; between extrinsics a block may begin, an identity may be
  bound or revoked, the observer may write new stake and a profile may change.
\<close>

inductive chain_step :: "config \<Rightarrow> chain \<Rightarrow> chain \<Rightarrow> bool" for T where
  step_call: "roomy st \<Longrightarrow> dispatch T who c st = Inr st' \<Longrightarrow> chain_step T st st'"
| step_block: "chain_step T st (st\<lparr>block_number := Suc (block_number st), System_Events := []\<rparr>)"
| step_bind: "chain_step T st (st\<lparr>PkhOf := (PkhOf st)(who := b)\<rparr>)"
| step_stake: "chain_step T st (st\<lparr>stakers := ws, VotingPower := vp\<rparr>)"
| step_profile: "chain_step T st (st\<lparr>AuthorFields := af\<rparr>)"

inductive chain_reachable :: "config \<Rightarrow> chain \<Rightarrow> bool" for T where
  reach_genesis: "chain_reachable T genesis"
| reach_step: "chain_reachable T st \<Longrightarrow> chain_step T st st' \<Longrightarrow> chain_reachable T st'"

lemma chain_inv_dispatch:
  assumes "chain_inv st" and "roomy st" and "dispatch T who c st = Inr st'"
  shows "chain_inv st'"
  using assms
  by (cases c) (auto simp: post_message_def quote_post_def split: if_splits
      intro: chain_inv_insert chain_inv_vote_post chain_inv_clear_vote chain_inv_vote_account
        chain_inv_clear_account_vote chain_inv_follow chain_inv_unfollow chain_inv_create_poll
        chain_inv_cast_poll_vote)

lemma chain_inv_env [simp]:
  "chain_inv (st\<lparr>block_number := n, System_Events := evs\<rparr>) = chain_inv st"
  "chain_inv (st\<lparr>PkhOf := b\<rparr>) = chain_inv st"
  "chain_inv (st\<lparr>stakers := ws, VotingPower := vp\<rparr>) = chain_inv st"
  "chain_inv (st\<lparr>AuthorFields := af\<rparr>) = chain_inv st"
  by (simp_all add: chain_inv_def posts_inv_def post_ids_def votes_inv_def follows_inv_def polls_inv_def)

lemma chain_inv_step: "chain_step T st st' \<Longrightarrow> chain_inv st \<Longrightarrow> chain_inv st'"
  by (induction rule: chain_step.induct) (auto dest: chain_inv_dispatch)

lemma chain_reachable_inv: "chain_reachable T st \<Longrightarrow> chain_inv st"
  by (induction rule: chain_reachable.induct) (auto simp: chain_inv_genesis chain_inv_step)

subsection \<open>A chain with two bound accounts and three posts\<close>

definition demo_config :: config where
  "demo_config = \<lparr>MaxLength = 512, MaxPollOptions = 8, MaxPollOptionLen = 80, MaxAnchorUrlLen = 128,
     MinPollDuration = 10, MaxPollDuration = 1000\<rparr>"

definition demo_bound :: chain where
  "demo_bound = genesis\<lparr>PkhOf := ((PkhOf genesis)(''alice'' := True))(''bob'' := True)\<rparr>"

definition demo_posted :: "ss58 \<Rightarrow> bytes \<Rightarrow> nat option \<Rightarrow> chain \<Rightarrow> chain" where
  "demo_posted who txt par st = deposit_event (PostCreated (NextPostId st) who) (insert_post who txt par None st)"

definition demo_chain :: chain where
  "demo_chain = demo_posted ''alice'' [3] (Some 0) (demo_posted ''bob'' [2] None (demo_posted ''alice'' [1] None demo_bound))"

lemma roomy_demo: "roomy demo_bound"
  "roomy (demo_posted ''alice'' [1] None demo_bound)"
  "roomy (demo_posted ''bob'' [2] None (demo_posted ''alice'' [1] None demo_bound))"
  by (simp_all add: roomy_def demo_posted_def demo_bound_def genesis_def u32_max_def u64_max_def saturating_add_def)

lemma chain_reachable_demo: "chain_reachable demo_config demo_chain"
proof -
  let ?b = "genesis\<lparr>PkhOf := (PkhOf genesis)(''alice'' := True)\<rparr>"
  let ?s1 = "demo_posted ''alice'' [1] None demo_bound"
  let ?s2 = "demo_posted ''bob'' [2] None ?s1"
  have "chain_step demo_config genesis ?b" by (rule step_bind)
  moreover have "chain_step demo_config ?b demo_bound"
    using step_bind [of demo_config ?b "''bob''" True] by (simp add: demo_bound_def)
  moreover have "chain_step demo_config demo_bound ?s1"
    by (rule step_call [OF roomy_demo(1), of _ "''alice''" "PostMessage [1] None"])
      (simp add: post_message_def demo_posted_def demo_config_def demo_bound_def)
  moreover have "chain_step demo_config ?s1 ?s2"
    by (rule step_call [OF roomy_demo(2), of _ "''bob''" "PostMessage [2] None"])
      (simp add: post_message_def demo_posted_def demo_config_def demo_bound_def)
  moreover have "chain_step demo_config ?s2 demo_chain"
    by (rule step_call [OF roomy_demo(3), of _ "''alice''" "PostMessage [3] (Some 0)"])
      (simp add: post_message_def demo_posted_def demo_config_def demo_bound_def demo_chain_def)
  ultimately show ?thesis by (meson reach_genesis reach_step)
qed

lemma NextPostId_demo [simp]: "NextPostId demo_chain = 3"
  by (simp add: demo_chain_def demo_posted_def demo_bound_def genesis_def u64_max_def saturating_add_def)

text \<open>
  C6: whatever sequence of successful calls, new blocks, identity bindings and stake observations the
  chain has seen, its denormalised storage is exact: every sequence index lists precisely the posts
  it is for in creation order, every tally is the number of its rows, the likes maps hold precisely
  the up-votes, and the two follow maps mirror each other.  This is what the \<open>try_state\<close> hook checks.
\<close>

theorem storage_always_consistent: "chain_reachable T st \<Longrightarrow> chain_inv st"
  by (rule chain_reachable_inv)

lemma storage_always_consistent_witness: "chain_reachable demo_config demo_chain \<and> chain_inv demo_chain"
  using storage_always_consistent [OF chain_reachable_demo] chain_reachable_demo by simp

text \<open>
  The key of the likes index round-trips every 64-bit post id, and the byte order the trie
  iterates in is exactly newest first.
\<close>

lemma desc_key_roundtrip_order:
  assumes "p \<le> u64_max" and "q \<le> u64_max"
  shows "post_of_desc_key (desc_key p) = p \<and>
    ((desc_key q, desc_key p) \<in> lexord {(x, y). x < y} \<longleftrightarrow> p < q)"
proof -
  have "asym (lexord {(x :: u8, y). x < y})" by (rule lexord_asym) (auto intro: asymI)
  then have "(desc_key q, desc_key p) \<in> lexord {(x, y). x < y} \<longleftrightarrow> p < q"
    using assms desc_key_descends [of p q] desc_key_descends [of q p]
    by (metis asymD linorder_neqE_nat)
  with assms show ?thesis by simp
qed

lemma desc_key_roundtrip_order_witness:
  "post_of_desc_key (desc_key 7) = 7 \<and> (desc_key 9, desc_key 7) \<in> lexord {(x, y). x < y}"
  using desc_key_roundtrip_order [of 7 9] by (simp add: u64_max_def)

end
