(* ===== verification/Pallet_Reads.thy ===== *)
theory Pallet_Reads
  imports Pallet_Microblog
begin

text \<open>
  The paged reads of the runtime API, \<open>pallets/microblog/src/lib.rs\<close> and \<open>runtime/src/apis.rs\<close>: the
  enriched post, the global feed, the Following feed, an author's posts and replies, and the post
  search.  Each returns a page and a cursor; the locale \<open>paged_read\<close> states the one contract the
  client relies on, and every read is an interpretation of it.
\<close>

definition u128_max :: nat where "u128_max = 2 ^ 128 - 1"

definition RT_MAX_PAGE :: nat where "RT_MAX_PAGE = 100"
definition MAX_SCAN_FACTOR :: nat where "MAX_SCAN_FACTOR = 8"

definition clamp_limit :: "nat \<Rightarrow> nat" where
  "clamp_limit limit = min (max limit 1) RT_MAX_PAGE"

lemma clamp_limit_bounds [simp]: "0 < clamp_limit n" "clamp_limit n \<le> RT_MAX_PAGE"
  by (simp_all add: clamp_limit_def RT_MAX_PAGE_def)

lemma clamp_limit_id: "0 < n \<Longrightarrow> n \<le> RT_MAX_PAGE \<Longrightarrow> clamp_limit n = n"
  by (simp add: clamp_limit_def)

section \<open>The enriched post\<close>

record quoted_summary =
  qs_id :: nat
  qs_author :: ss58
  qs_text :: bytes
  qs_author_display_name :: bytes
  qs_author_avatar :: bytes
  qs_author_roles :: "(nat \<times> bytes) list"

record enriched_post =
  e_id :: nat
  e_author :: ss58
  e_text :: bytes
  e_parent :: "nat option"
  e_quote :: "nat option"
  e_at :: nat
  e_up_weight :: nat
  e_down_weight :: nat
  e_up_count :: nat
  e_down_count :: nat
  e_repost_count :: nat
  e_reply_count :: nat
  e_is_poll :: bool
  e_my_vote :: "vote option"
  e_reposted :: bool
  e_author_display_name :: bytes
  e_author_avatar :: bytes
  e_quoted :: "quoted_summary option"
  e_author_roles :: "(nat \<times> bytes) list"

record feed_page_raw =
  fr_posts :: "enriched_post list"
  fr_next_cursor :: "nat option"

text \<open>The staker set without repetitions, each with its current voting power.\<close>

fun staker_weights_from :: "chain \<Rightarrow> ss58 list \<Rightarrow> ss58 list \<Rightarrow> (ss58 \<times> nat) list" where
  "staker_weights_from st seen [] = []"
| "staker_weights_from st seen (w # ws) =
     (if w \<in> set seen then staker_weights_from st seen ws
      else (w, VotingPower st w) # staker_weights_from st (w # seen) ws)"

definition staker_weights :: "chain \<Rightarrow> (ss58 \<times> nat) list" where
  "staker_weights st = staker_weights_from st [] (stakers st)"

definition dir_weight :: "vote \<Rightarrow> (ss58, vote) omap \<Rightarrow> (ss58 \<times> nat) list \<Rightarrow> nat" where
  "dir_weight d vs ws =
     foldl (\<lambda>acc (who, w). if map_of vs who = Some d then saturating_add u128_max acc w else acc) 0 ws"

definition post_weighted :: "nat \<Rightarrow> vote_counts \<Rightarrow> (ss58 \<times> nat) list \<Rightarrow> chain \<Rightarrow> nat \<times> nat" where
  "post_weighted pid counts ws st =
     (if up_count counts = 0 \<and> down_count counts = 0 then (0, 0)
      else (dir_weight Up (Votes st pid) ws, dir_weight Down (Votes st pid) ws))"

definition account_weighted :: "ss58 \<Rightarrow> vote_counts \<Rightarrow> (ss58 \<times> nat) list \<Rightarrow> chain \<Rightarrow> nat \<times> nat" where
  "account_weighted target counts ws st =
     (if up_count counts = 0 \<and> down_count counts = 0 then (0, 0)
      else (dir_weight Up (AccountVotes st target) ws, dir_weight Down (AccountVotes st target) ws))"

definition enrich :: "nat \<Rightarrow> post \<Rightarrow> ss58 option \<Rightarrow> (ss58 \<times> nat) list \<Rightarrow> chain \<Rightarrow> enriched_post" where
  "enrich i p viewer ws st =
     (let counts = VoteTally st i; (up, down) = post_weighted i counts ws st
      in \<lparr>e_id = i, e_author = po_author p, e_text = po_text p, e_parent = po_parent p, e_quote = po_quote p,
          e_at = po_at p, e_up_weight = up, e_down_weight = down,
          e_up_count = up_count counts, e_down_count = down_count counts,
          e_repost_count = 0, e_reply_count = ReplyCount st i, e_is_poll = (Polls st i \<noteq> None),
          e_my_vote = (case viewer of None \<Rightarrow> None | Some who \<Rightarrow> map_of (Votes st i) who),
          e_reposted = False, e_author_display_name = [], e_author_avatar = [],
          e_quoted = (case po_quote p of None \<Rightarrow> None | Some q \<Rightarrow>
             map_option (\<lambda>qp. \<lparr>qs_id = q, qs_author = po_author qp, qs_text = po_text qp,
               qs_author_display_name = [], qs_author_avatar = [], qs_author_roles = []\<rparr>) (Posts st q)),
          e_author_roles = []\<rparr>)"

definition fetch_enriched :: "nat \<Rightarrow> ss58 option \<Rightarrow> (ss58 \<times> nat) list \<Rightarrow> chain \<Rightarrow> enriched_post option" where
  "fetch_enriched i viewer ws st = map_option (\<lambda>p. enrich i p viewer ws st) (Posts st i)"

text \<open>The author fields the runtime fills in from the profile and role pallets.\<close>

definition fill_quoted :: "chain \<Rightarrow> quoted_summary \<Rightarrow> quoted_summary" where
  "fill_quoted st q =
     (let (name, avatar, roles) = AuthorFields st (qs_author q)
      in q\<lparr>qs_author_display_name := (if name = [] then qs_author_display_name q else name),
           qs_author_avatar := (if avatar = [] then qs_author_avatar q else avatar),
           qs_author_roles := (if roles = [] then qs_author_roles q else roles)\<rparr>)"

definition enrich_author_profile :: "chain \<Rightarrow> enriched_post \<Rightarrow> enriched_post" where
  "enrich_author_profile st e =
     (let (name, avatar, roles) = AuthorFields st (e_author e)
      in e\<lparr>e_author_display_name := (if name = [] then e_author_display_name e else name),
           e_author_avatar := (if avatar = [] then e_author_avatar e else avatar),
           e_author_roles := (if roles = [] then e_author_roles e else roles),
           e_quoted := map_option (fill_quoted st) (e_quoted e)\<rparr>)"

definition enrich_author_profiles :: "chain \<Rightarrow> enriched_post list \<Rightarrow> enriched_post list" where
  "enrich_author_profiles st es = map (enrich_author_profile st) es"

section \<open>Scans\<close>

text \<open>
  The loop of the spine scan and of the post search: examine \<open>i\<close>, \<open>i - 1\<close>, \<dots> until the page is
  full, the scan budget is spent (a cursor is handed back) or \<open>0\<close> has been examined.
\<close>

fun scan_loop :: "(nat \<Rightarrow> enriched_post option) \<Rightarrow> nat \<Rightarrow> nat \<Rightarrow> enriched_post list \<Rightarrow> nat \<Rightarrow> nat \<Rightarrow> feed_page_raw" where
  "scan_loop pick limit max_scan posts examined i =
     (if limit \<le> length posts \<or> max_scan \<le> examined
      then \<lparr>fr_posts = posts, fr_next_cursor = Some (saturating_add u64_max i 1)\<rparr>
      else
        let posts' = (case pick i of Some e \<Rightarrow> posts @ [e] | None \<Rightarrow> posts)
        in if i = 0 then \<lparr>fr_posts = posts', fr_next_cursor = None\<rparr>
           else scan_loop pick limit max_scan posts' (Suc examined) (i - 1))"

declare scan_loop.simps [simp del]

text \<open>The highest candidate strictly below the cursor, or the head.\<close>

definition scan_start :: "nat option \<Rightarrow> nat \<Rightarrow> nat option" where
  "scan_start before nxt = (case before of
     None \<Rightarrow> if nxt = 0 then None else Some (nxt - 1)
   | Some b \<Rightarrow> if b = 0 then None else Some (min b nxt - 1))"

definition scan_top_level_by_seq ::
  "nat option \<Rightarrow> nat \<Rightarrow> ss58 option \<Rightarrow> (ss58 \<times> nat) list \<Rightarrow> (post \<Rightarrow> bool) \<Rightarrow> chain \<Rightarrow> feed_page_raw"
where
  "scan_top_level_by_seq before limit viewer ws keep st =
     (let lmt = clamp_limit limit
      in case scan_start before (NextTopLevelSeq st) of
           None \<Rightarrow> \<lparr>fr_posts = [], fr_next_cursor = None\<rparr>
         | Some s \<Rightarrow>
             scan_loop
               (\<lambda>s. case TopLevelPosts st s of None \<Rightarrow> None
                  | Some i \<Rightarrow> (case Posts st i of None \<Rightarrow> None
                     | Some p \<Rightarrow> if keep p then Some (enrich i p viewer ws st) else None))
               lmt (lmt * MAX_SCAN_FACTOR) [] 0 s)"

definition rt_feed_page :: "ss58 option \<Rightarrow> chain \<Rightarrow> nat option \<Rightarrow> nat \<Rightarrow> feed_page_raw" where
  "rt_feed_page viewer st before limit =
     scan_top_level_by_seq before limit viewer (staker_weights st) (\<lambda>_. True) st"

definition following_feed_page :: "ss58 \<Rightarrow> chain \<Rightarrow> nat option \<Rightarrow> nat \<Rightarrow> feed_page_raw" where
  "following_feed_page viewer st before limit =
     (if FollowingCount st viewer = 0 then \<lparr>fr_posts = [], fr_next_cursor = None\<rparr>
      else scan_top_level_by_seq before limit (Some viewer) (staker_weights st)
             (\<lambda>p. map_of (Following st viewer) (po_author p) \<noteq> None) st)"

text \<open>\<open>contains_ci\<close>: an ASCII case-insensitive substring test over bytes.\<close>

definition to_ascii_lowercase :: "u8 \<Rightarrow> u8" where
  "to_ascii_lowercase b = (if 65 \<le> unat b \<and> unat b \<le> 90 then b + 32 else b)"

definition contains_ci :: "bytes \<Rightarrow> bytes \<Rightarrow> bool" where
  "contains_ci haystack needle =
     (if needle = [] then True
      else if length haystack < length needle then False
      else list_ex (\<lambda>i. list_all2 (\<lambda>a b. to_ascii_lowercase a = to_ascii_lowercase b)
                       (take (length needle) (drop i haystack)) needle)
             [0..<Suc (length haystack - length needle)])"

definition search_posts :: "bytes \<Rightarrow> ss58 option \<Rightarrow> chain \<Rightarrow> nat option \<Rightarrow> nat \<Rightarrow> feed_page_raw" where
  "search_posts term viewer st before limit =
     (let lmt = clamp_limit limit; ws = staker_weights st
      in case scan_start before (NextPostId st) of
           None \<Rightarrow> \<lparr>fr_posts = [], fr_next_cursor = None\<rparr>
         | Some i \<Rightarrow>
             scan_loop
               (\<lambda>i. case Posts st i of None \<Rightarrow> None
                  | Some p \<Rightarrow> if contains_ci (po_text p) term then Some (enrich i p viewer ws st) else None)
               lmt (lmt * MAX_SCAN_FACTOR) [] 0 i)"

section \<open>The per-author index\<close>

function author_index_search :: "(nat \<Rightarrow> nat option) \<Rightarrow> nat \<Rightarrow> nat \<Rightarrow> nat \<Rightarrow> nat" where
  "author_index_search get before lo hi =
     (if lo < hi then
        let mid = lo + (hi - lo) div 2
        in case get mid of
             Some i \<Rightarrow> if i < before then author_index_search get before (Suc mid) hi
                        else author_index_search get before lo mid
           | None \<Rightarrow> author_index_search get before lo mid
      else lo)"
  by pat_completeness auto
termination
  by (relation "measure (\<lambda>(_, _, lo, hi). hi - lo)") auto

declare author_index_search.simps [simp del]

definition author_index_seq_below :: "nat \<Rightarrow> nat option \<Rightarrow> (nat \<Rightarrow> nat option) \<Rightarrow> nat" where
  "author_index_seq_below cnt before_id get = (case before_id of
     None \<Rightarrow> cnt
   | Some b \<Rightarrow> author_index_search get b 0 cnt)"

fun author_feed_loop ::
  "(nat \<Rightarrow> nat option) \<Rightarrow> (nat \<Rightarrow> enriched_post option) \<Rightarrow> nat option \<Rightarrow> nat \<Rightarrow> enriched_post list \<Rightarrow> nat \<Rightarrow> feed_page_raw"
where
  "author_feed_loop get fetch before_id limit posts 0 = \<lparr>fr_posts = posts, fr_next_cursor = None\<rparr>"
| "author_feed_loop get fetch before_id limit posts (Suc seq) =
     (case get seq of
        None \<Rightarrow> author_feed_loop get fetch before_id limit posts seq
      | Some i \<Rightarrow>
          if (case before_id of Some b \<Rightarrow> b \<le> i | None \<Rightarrow> False)
          then author_feed_loop get fetch before_id limit posts seq
          else if limit \<le> length posts
          then \<lparr>fr_posts = posts, fr_next_cursor = Some (saturating_add u64_max i 1)\<rparr>
          else author_feed_loop get fetch before_id limit
                 (case fetch i of Some e \<Rightarrow> posts @ [e] | None \<Rightarrow> posts) seq)"

definition author_feed_page :: "ss58 \<Rightarrow> ss58 option \<Rightarrow> chain \<Rightarrow> nat option \<Rightarrow> nat \<Rightarrow> feed_page_raw" where
  "author_feed_page author viewer st before_id limit =
     (let ws = staker_weights st
      in author_feed_loop (TopLevelByAuthor st author) (\<lambda>i. fetch_enriched i viewer ws st) before_id
           (clamp_limit limit) []
           (author_index_seq_below (TopLevelByAuthorCount st author) before_id (TopLevelByAuthor st author)))"

section \<open>The contract of a paged read\<close>

text \<open>
  \<open>rest c\<close> lists what lies below the cursor \<open>c\<close>, in the order of the feed.  A page examines a prefix
  of it and returns what the read shows of that prefix; a cursor is handed back only when something
  was examined, and stands for exactly what was not.
\<close>

definition page_of ::
  "(nat option \<Rightarrow> 'x list) \<Rightarrow> ('x \<Rightarrow> 'e option) \<Rightarrow> nat option \<Rightarrow> nat \<Rightarrow> 'e list \<times> nat option \<Rightarrow> nat \<Rightarrow> bool"
where
  "page_of rest view c n pg k \<longleftrightarrow>
     fst pg = List.map_filter view (take k (rest c)) \<and> length (fst pg) \<le> n \<and>
     (case snd pg of
        None \<Rightarrow> length (rest c) \<le> k
      | Some c' \<Rightarrow> 0 < k \<and> k \<le> length (rest c) \<and> rest (Some c') = drop k (rest c))"

text \<open>Following the cursor to the end, with a bound on the number of pages.\<close>

fun walk_pages :: "(nat option \<Rightarrow> nat \<Rightarrow> 'e list \<times> nat option) \<Rightarrow> nat \<Rightarrow> nat \<Rightarrow> nat option \<Rightarrow> 'e list option" where
  "walk_pages fetch n 0 c = None"
| "walk_pages fetch n (Suc fuel) c =
     (let pg = fetch c n
      in case snd pg of
           None \<Rightarrow> Some (fst pg)
         | Some c' \<Rightarrow> map_option (\<lambda>es. fst pg @ es) (walk_pages fetch n fuel (Some c')))"

lemma map_filter_append: "List.map_filter f (xs @ ys) = List.map_filter f xs @ List.map_filter f ys"
  by (induction xs) (auto simp: map_filter_simps split: option.split)

locale paged_read =
  fixes inv :: "'st \<Rightarrow> bool"
    and fetch :: "'st \<Rightarrow> nat option \<Rightarrow> nat \<Rightarrow> 'e list \<times> nat option"
    and rest :: "'st \<Rightarrow> nat option \<Rightarrow> 'x list"
    and view :: "'st \<Rightarrow> 'x \<Rightarrow> 'e option"
  assumes page: "inv st \<Longrightarrow> 0 < n \<Longrightarrow> n \<le> RT_MAX_PAGE \<Longrightarrow> \<exists>k. page_of (rest st) (view st) c n (fetch st c n) k"
begin

lemma walk_complete:
  assumes "inv st" and "0 < n" and "n \<le> RT_MAX_PAGE" and "length (rest st c) < fuel"
  shows "walk_pages (fetch st) n fuel c = Some (List.map_filter (view st) (rest st c))"
  using assms(4)
proof (induction fuel arbitrary: c)
  case (Suc fuel)
  obtain k where k: "page_of (rest st) (view st) c n (fetch st c n) k" using page assms(1-3) by blast
  show ?case
  proof (cases "snd (fetch st c n)")
    case None
    with k show ?thesis by (simp add: page_of_def Let_def)
  next
    case (Some c')
    with k have rest': "rest st (Some c') = drop k (rest st c)"
      and posts: "fst (fetch st c n) = List.map_filter (view st) (take k (rest st c))"
      and "0 < k" "k \<le> length (rest st c)"
      by (auto simp: page_of_def)
    then have "length (rest st (Some c')) < fuel" using Suc.prems by (cases "rest st c") auto
    from Suc.IH [OF this] show ?thesis
      using Some posts map_filter_append [of "view st" "take k (rest st c)" "drop k (rest st c)"]
      by (simp add: rest' Let_def)
  qed
qed simp

end

text \<open>A read that fills its pages: a cursor means the page is full.\<close>

locale dense_read = paged_read +
  assumes full: "inv st \<Longrightarrow> 0 < n \<Longrightarrow> n \<le> RT_MAX_PAGE \<Longrightarrow> snd (fetch st c n) \<noteq> None \<Longrightarrow> n \<le> length (fst (fetch st c n))"
begin

lemma page_take:
  assumes "inv st" and "0 < n" and "n \<le> RT_MAX_PAGE"
  shows "fst (fetch st c n) = take n (List.map_filter (view st) (rest st c))"
proof -
  obtain k where k: "page_of (rest st) (view st) c n (fetch st c n) k" using page assms by blast
  have split: "List.map_filter (view st) (rest st c) =
      List.map_filter (view st) (take k (rest st c)) @ List.map_filter (view st) (drop k (rest st c))"
    by (metis append_take_drop_id map_filter_append)
  show ?thesis
  proof (cases "snd (fetch st c n)")
    case None
    with k show ?thesis by (auto simp: page_of_def)
  next
    case (Some c')
    with full [OF assms, of c] k show ?thesis by (auto simp: page_of_def split)
  qed
qed

end

text \<open>A raw page of the runtime as such a pair.\<close>

definition raw :: "feed_page_raw \<Rightarrow> enriched_post list \<times> nat option" where
  "raw pg = (fr_posts pg, fr_next_cursor pg)"

lemma raw_simps [simp]: "fst (raw pg) = fr_posts pg" "snd (raw pg) = fr_next_cursor pg"
  by (simp_all add: raw_def)

section \<open>The scans satisfy the contract\<close>

definition down_from :: "nat \<Rightarrow> nat list" where
  "down_from n = rev [0..<n]"

lemma down_from_simps [simp]: "down_from 0 = []" "down_from (Suc n) = n # down_from n"
  by (simp_all add: down_from_def)

lemma length_down_from [simp]: "length (down_from n) = n"
  by (simp add: down_from_def)

lemma drop_down_from: "drop k (down_from n) = down_from (n - k)"
  by (induction n arbitrary: k) (auto simp: drop_Cons split: nat.split)

text \<open>
  What the loop returns: a prefix of the indices below the start, with the reason for which it
  stopped.
\<close>

definition scan_ok ::
  "(nat \<Rightarrow> enriched_post option) \<Rightarrow> nat \<Rightarrow> nat \<Rightarrow> enriched_post list \<Rightarrow> nat \<Rightarrow> nat \<Rightarrow> feed_page_raw \<Rightarrow> nat \<Rightarrow> bool"
where
  "scan_ok pick limit ms posts ex i pg k \<longleftrightarrow>
     fr_posts pg = posts @ List.map_filter pick (take k (down_from (Suc i))) \<and>
     length (fr_posts pg) \<le> limit \<and> (length posts < limit \<and> ex < ms \<longrightarrow> 0 < k) \<and>
     (case fr_next_cursor pg of
        None \<Rightarrow> Suc i \<le> k
      | Some c \<Rightarrow> c = Suc i - k \<and> k \<le> i \<and> (limit \<le> length (fr_posts pg) \<or> ms \<le> ex + k))"

lemma scan_ok_step:
  assumes "scan_ok pick limit ms (case pick (Suc j) of Some e \<Rightarrow> posts @ [e] | None \<Rightarrow> posts) (Suc ex) j pg k"
  shows "scan_ok pick limit ms posts ex (Suc j) pg (Suc k)"
  using assms by (auto simp: scan_ok_def map_filter_simps split: option.splits)

lemma scan_loop_ok:
  assumes "length posts \<le> limit" and "i < u64_max"
  shows "\<exists>k. scan_ok pick limit ms posts ex i (scan_loop pick limit ms posts ex i) k"
  using assms
proof (induction i arbitrary: posts ex)
  case 0
  show ?case
  proof (cases "limit \<le> length posts \<or> ms \<le> ex")
    case True
    with 0 show ?thesis
      by (intro exI [of _ 0]) (auto simp: scan_ok_def scan_loop.simps map_filter_simps)
  next
    case False
    then show ?thesis
      by (intro exI [of _ 1]) (auto simp: scan_ok_def scan_loop.simps map_filter_simps split: option.split)
  qed
next
  case (Suc j)
  let ?posts = "case pick (Suc j) of Some e \<Rightarrow> posts @ [e] | None \<Rightarrow> posts"
  show ?case
  proof (cases "limit \<le> length posts \<or> ms \<le> ex")
    case True
    with Suc.prems show ?thesis
      by (intro exI [of _ 0]) (auto simp: scan_ok_def scan_loop.simps [of pick limit ms posts] map_filter_simps)
  next
    case False
    then have "length ?posts \<le> limit" by (auto split: option.split)
    with Suc obtain k where "scan_ok pick limit ms ?posts (Suc ex) j (scan_loop pick limit ms ?posts (Suc ex) j) k"
      by fastforce
    moreover have "scan_loop pick limit ms posts ex (Suc j) = scan_loop pick limit ms ?posts (Suc ex) j"
      using False by (simp add: scan_loop.simps [of pick limit ms posts] Let_def)
    ultimately show ?thesis using scan_ok_step by metis
  qed
qed

text \<open>The indices below a cursor, newest first, and the page a scan makes of them.\<close>

definition below :: "nat option \<Rightarrow> nat \<Rightarrow> nat list" where
  "below c n = down_from (case c of None \<Rightarrow> n | Some b \<Rightarrow> min b n)"

definition scan_page :: "(nat \<Rightarrow> enriched_post option) \<Rightarrow> nat option \<Rightarrow> nat \<Rightarrow> nat \<Rightarrow> feed_page_raw" where
  "scan_page pick before nxt lmt = (case scan_start before nxt of
     None \<Rightarrow> \<lparr>fr_posts = [], fr_next_cursor = None\<rparr>
   | Some s \<Rightarrow> scan_loop pick lmt (lmt * MAX_SCAN_FACTOR) [] 0 s)"

lemma scan_page_ok:
  assumes "nxt < u64_max" and "\<And>j. nxt \<le> j \<Longrightarrow> pick j = None" and "0 < lmt"
  shows "\<exists>k. page_of (\<lambda>c. below c nxt) pick c lmt (raw (scan_page pick c nxt lmt)) k \<and>
           (fr_next_cursor (scan_page pick c nxt lmt) \<noteq> None \<longrightarrow>
              lmt \<le> length (fr_posts (scan_page pick c nxt lmt)) \<or> lmt * MAX_SCAN_FACTOR \<le> k)"
proof (cases "below c nxt = []")
  case True
  then have "scan_start c nxt = None \<or> scan_start c nxt = Some 0 \<and> nxt = 0"
    by (auto simp: below_def scan_start_def down_from_def split: option.splits)
  moreover have "pick 0 = None" if "nxt = 0" using assms(2) that by simp
  ultimately have "scan_page pick c nxt lmt = \<lparr>fr_posts = [], fr_next_cursor = None\<rparr>"
    using assms(3) by (auto simp: scan_page_def scan_loop.simps MAX_SCAN_FACTOR_def)
  with True show ?thesis by (intro exI [of _ 0]) (simp add: page_of_def map_filter_simps)
next
  case False
  let ?top = "case c of None \<Rightarrow> nxt | Some b \<Rightarrow> min b nxt"
  have "0 < ?top" using False by (cases "?top") (simp_all add: below_def)
  then obtain s where s: "scan_start c nxt = Some s" "below c nxt = down_from (Suc s)" "Suc s \<le> nxt"
    by (cases c) (auto simp: below_def scan_start_def simp del: down_from_simps)
  from scan_loop_ok [of "[]" lmt s pick "lmt * MAX_SCAN_FACTOR" 0] s(3) assms(1) obtain k where
    k: "scan_ok pick lmt (lmt * MAX_SCAN_FACTOR) [] 0 s (scan_page pick c nxt lmt) k"
    by (auto simp: scan_page_def s(1))
  have pos: "0 < k" using k assms(3) by (simp add: scan_ok_def MAX_SCAN_FACTOR_def)
  have rest: "below (Some (Suc s - k)) nxt = drop k (below c nxt)"
  proof -
    have "min (Suc s - k) nxt = Suc s - k" using s(3) by simp
    then show ?thesis unfolding s(2) drop_down_from by (simp add: below_def)
  qed
  show ?thesis
    by (intro exI [of _ k])
      (use k pos rest s False in \<open>auto simp: page_of_def scan_ok_def split: option.splits simp del: down_from_simps\<close>)
qed

lemma length_map_filter_all: "(\<And>x. x \<in> set xs \<Longrightarrow> f x \<noteq> None) \<Longrightarrow> length (List.map_filter f xs) = length xs"
  by (induction xs) (auto simp: map_filter_simps split: option.splits)

section \<open>The spine of the global feed\<close>

text \<open>What a read needs of the chain: the invariant, and an id counter that has not saturated.\<close>

definition readable :: "chain \<Rightarrow> bool" where
  "readable st \<longleftrightarrow> chain_inv st \<and> NextPostId st < u64_max"

lemma spine_next: "readable st \<Longrightarrow> NextTopLevelSeq st < u64_max"
  using post_ids_le [of "\<lambda>p. po_parent p = None" st]
  by (auto simp: readable_def chain_inv_def posts_inv_def indexes_def)

definition spine_pick :: "ss58 option \<Rightarrow> (post \<Rightarrow> bool) \<Rightarrow> chain \<Rightarrow> nat \<Rightarrow> enriched_post option" where
  "spine_pick viewer keep st s = (case TopLevelPosts st s of None \<Rightarrow> None
     | Some i \<Rightarrow> (case Posts st i of None \<Rightarrow> None
        | Some p \<Rightarrow> if keep p then Some (enrich i p viewer (staker_weights st) st) else None))"

lemma spine_pick_beyond: "readable st \<Longrightarrow> NextTopLevelSeq st \<le> s \<Longrightarrow> spine_pick viewer keep st s = None"
  by (auto simp: readable_def chain_inv_def posts_inv_def indexes_def spine_pick_def)

lemma scan_top_level_eq:
  "scan_top_level_by_seq c n viewer (staker_weights st) keep st =
     scan_page (spine_pick viewer keep st) c (NextTopLevelSeq st) (clamp_limit n)"
  by (simp add: scan_top_level_by_seq_def scan_page_def spine_pick_def [abs_def] Let_def)

definition spine_below :: "chain \<Rightarrow> nat option \<Rightarrow> nat list" where
  "spine_below st c = below c (NextTopLevelSeq st)"

lemma spine_pick_all:
  assumes "readable st" and "s < NextTopLevelSeq st"
  shows "spine_pick viewer (\<lambda>_. True) st s \<noteq> None"
proof -
  let ?xs = "post_ids (\<lambda>p. po_parent p = None) st"
  have "TopLevelPosts st s = Some (?xs ! s)" "s < length ?xs"
    using assms by (simp_all add: readable_def chain_inv_def posts_inv_def indexes_def)
  moreover from this have "?xs ! s \<in> set ?xs" by simp
  then have "Posts st (?xs ! s) \<noteq> None" by (auto simp: post_ids_def split: option.splits)
  ultimately show ?thesis by (auto simp: spine_pick_def)
qed

interpretation feed: dense_read readable "\<lambda>st c n. raw (rt_feed_page viewer st c n)" spine_below
  "spine_pick viewer (\<lambda>_. True)"
  for viewer
proof
  fix st n c
  assume st: "readable st" "0 < n" "n \<le> RT_MAX_PAGE"
  let ?pg = "rt_feed_page viewer st c n" and ?pick = "spine_pick viewer (\<lambda>_. True) st"
  from st scan_page_ok [OF spine_next, of st ?pick n c] spine_pick_beyond
  obtain k where k: "page_of (spine_below st) ?pick c n (raw ?pg) k"
    and stop: "fr_next_cursor ?pg \<noteq> None \<Longrightarrow> n \<le> length (fr_posts ?pg) \<or> n * MAX_SCAN_FACTOR \<le> k"
    by (auto simp: rt_feed_page_def scan_top_level_eq clamp_limit_id spine_below_def [abs_def])
  then show "\<exists>k. page_of (spine_below st) ?pick c n (raw ?pg) k" by blast
  have "?pick s \<noteq> None" if "s \<in> set (spine_below st c)" for s
    using that st by (intro spine_pick_all) (auto simp: spine_below_def below_def down_from_def split: option.splits)
  then have len: "length (fr_posts ?pg) = min k (length (spine_below st c))"
    using k length_map_filter_all [of "take k (spine_below st c)" ?pick]
    by (auto simp: page_of_def min.commute dest: in_set_takeD)
  assume "snd (raw ?pg) \<noteq> None"
  moreover from this k have "k \<le> length (spine_below st c)" by (auto simp: page_of_def)
  ultimately show "n \<le> length (fst (raw ?pg))"
    using stop len by (auto simp: MAX_SCAN_FACTOR_def)
qed

text \<open>The Following feed is the same scan with a filter.  A zero counter proves that nothing is followed.\<close>

definition following_pick :: "ss58 \<Rightarrow> chain \<Rightarrow> nat \<Rightarrow> enriched_post option" where
  "following_pick viewer st = spine_pick (Some viewer) (\<lambda>p. map_of (Following st viewer) (po_author p) \<noteq> None) st"

lemma map_filter_none: "(\<And>x. x \<in> set xs \<Longrightarrow> f x = None) \<Longrightarrow> List.map_filter f xs = []"
  by (induction xs) (auto simp: map_filter_simps)

lemma following_pick_nobody:
  assumes "readable st" and "FollowingCount st viewer = 0"
  shows "following_pick viewer st s = None"
proof -
  have "Following st viewer = []" using assms by (simp add: readable_def chain_inv_def follows_inv_def)
  then show ?thesis by (simp add: following_pick_def spine_pick_def split: option.split)
qed

interpretation following: paged_read readable "\<lambda>st c n. raw (following_feed_page viewer st c n)" spine_below
  "following_pick viewer"
  for viewer
proof
  fix st n c
  assume st: "readable st" "0 < n" "n \<le> RT_MAX_PAGE"
  show "\<exists>k. page_of (spine_below st) (following_pick viewer st) c n (raw (following_feed_page viewer st c n)) k"
  proof (cases "FollowingCount st viewer = 0")
    case True
    with st following_pick_nobody [of st viewer] show ?thesis
      by (intro exI [of _ "length (spine_below st c)"])
        (auto simp: following_feed_page_def page_of_def intro!: map_filter_none [symmetric])
  next
    case False
    with st scan_page_ok [OF spine_next, of st "following_pick viewer st" n c] spine_pick_beyond show ?thesis
      by (auto simp: following_feed_page_def scan_top_level_eq clamp_limit_id spine_below_def [abs_def]
          following_pick_def)
  qed
qed

section \<open>The post search\<close>

definition search_pick :: "bytes \<Rightarrow> ss58 option \<Rightarrow> chain \<Rightarrow> nat \<Rightarrow> enriched_post option" where
  "search_pick term viewer st i = (case Posts st i of None \<Rightarrow> None
     | Some p \<Rightarrow> if contains_ci (po_text p) term then Some (enrich i p viewer (staker_weights st) st) else None)"

definition ids_below :: "chain \<Rightarrow> nat option \<Rightarrow> nat list" where
  "ids_below st c = below c (NextPostId st)"

interpretation search: paged_read readable "\<lambda>st c n. raw (search_posts term viewer st c n)" ids_below
  "search_pick term viewer"
  for "term" viewer
proof
  fix st n c
  assume st: "readable st" "0 < n" "n \<le> RT_MAX_PAGE"
  have "search_pick term viewer st j = None" if "NextPostId st \<le> j" for j
  proof -
    have "Posts st j = None"
      using st(1) that unfolding readable_def chain_inv_def posts_inv_def by (meson not_le)
    then show ?thesis by (simp add: search_pick_def)
  qed
  moreover have "search_posts term viewer st c n = scan_page (search_pick term viewer st) c (NextPostId st) n"
    using st by (simp add: search_posts_def scan_page_def search_pick_def [abs_def] Let_def clamp_limit_id)
  moreover have "NextPostId st < u64_max" using st by (simp add: readable_def)
  ultimately show "\<exists>k. page_of (ids_below st) (search_pick term viewer st) c n (raw (search_posts term viewer st c n)) k"
    using scan_page_ok [of "NextPostId st" "search_pick term viewer st" n c] st
    by (auto simp: ids_below_def [abs_def])
qed

section \<open>An author's posts\<close>

text \<open>The binary search finds the number of entries below the cursor.\<close>

lemma author_index_search_ok:
  assumes "\<And>s. s < length xs \<Longrightarrow> get s = Some (xs ! s)" and "sorted_wrt (<) xs"
    and "lo \<le> hi" and "hi \<le> length xs"
    and "\<And>s. s < lo \<Longrightarrow> xs ! s < b" and "\<And>s. hi \<le> s \<Longrightarrow> s < length xs \<Longrightarrow> b \<le> xs ! s"
  shows "author_index_search get b lo hi \<le> length xs \<and>
         (\<forall>s < author_index_search get b lo hi. xs ! s < b) \<and>
         (\<forall>s. author_index_search get b lo hi \<le> s \<and> s < length xs \<longrightarrow> b \<le> xs ! s)"
  using assms
proof (induction get b lo hi rule: author_index_search.induct)
  case (1 get b lo hi)
  show ?case
  proof (cases "lo < hi")
    case False
    then have "author_index_search get b lo hi = lo" by (simp add: author_index_search.simps [of get b lo hi])
    with False 1(6-9) show ?thesis by simp
  next
    case True
    define mid where "mid = lo + (hi - lo) div 2"
    have mid: "lo \<le> mid" "mid < hi" "mid < length xs" using True 1(7) by (auto simp: mid_def)
    have get: "get mid = Some (xs ! mid)" using 1(4) mid(3) .
    have mono: "xs ! s \<le> xs ! s'" if "s \<le> s'" "s' < length xs" for s s'
      using sorted_wrt_nth_less [OF 1(5), of s s'] that by (cases "s = s'") (auto intro: less_imp_le)
    show ?thesis
    proof (cases "xs ! mid < b")
      case less: True
      have step: "author_index_search get b lo hi = author_index_search get b (Suc mid) hi"
        using True get less by (simp add: author_index_search.simps [of get b lo hi] mid_def Let_def)
      have "xs ! s < b" if "s < Suc mid" for s using mono [of s mid] that mid less by simp
      from 1(2) [OF True mid_def get less 1(4,5) _ 1(7) this 1(9)] mid
      show ?thesis unfolding step by simp
    next
      case ge: False
      have step: "author_index_search get b lo hi = author_index_search get b lo mid"
        using True get ge by (simp add: author_index_search.simps [of get b lo hi] mid_def Let_def)
      have "b \<le> xs ! s" if "mid \<le> s" "s < length xs" for s using mono [of mid s] that ge by simp
      from 1(3) [OF True mid_def get ge 1(4,5) _ _ 1(8) this] mid
      show ?thesis unfolding step by simp
    qed
  qed
qed

lemma filter_take:
  assumes "r \<le> length xs" and "\<And>s. s < r \<Longrightarrow> P (xs ! s)" and "\<And>s. r \<le> s \<Longrightarrow> s < length xs \<Longrightarrow> \<not> P (xs ! s)"
  shows "filter P xs = take r xs"
proof -
  have "filter P xs = filter P (take r xs) @ filter P (drop r xs)"
    by (metis append_take_drop_id filter_append)
  moreover have "filter P (take r xs) = take r xs"
    using assms(1,2) by (auto simp: filter_id_conv in_set_conv_nth)
  moreover have "filter P (drop r xs) = []"
    using assms(3) by (auto simp: filter_empty_conv in_set_conv_nth)
  ultimately show ?thesis by simp
qed

text \<open>The entries of an index below a cursor that is a post id, newest first.\<close>

definition index_below :: "nat list \<Rightarrow> nat option \<Rightarrow> nat list" where
  "index_below xs c = rev (filter (\<lambda>i. case c of None \<Rightarrow> True | Some b \<Rightarrow> i < b) xs)"

lemma author_index_seq_below_ok:
  assumes "indexes get cnt xs" and "sorted_wrt (<) xs"
  shows "author_index_seq_below cnt c get \<le> length xs"
    and "index_below xs c = rev (take (author_index_seq_below cnt c get) xs)"
proof -
  have get: "get s = Some (xs ! s)" if "s < length xs" for s using assms(1) that by (simp add: indexes_def)
  have cnt: "cnt = length xs" using assms(1) by (simp add: indexes_def)
  note srch = author_index_search_ok [of xs get 0 "length xs", OF get assms(2)]
  show "author_index_seq_below cnt c get \<le> length xs"
    using srch by (auto simp: author_index_seq_below_def cnt split: option.split)
  show "index_below xs c = rev (take (author_index_seq_below cnt c get) xs)"
  proof (cases c)
    case (Some b)
    have "filter (\<lambda>i. i < b) xs = take (author_index_search get b 0 (length xs)) xs"
      by (rule filter_take) (use srch [of b] in \<open>auto simp: not_less\<close>)
    with Some show ?thesis by (simp add: index_below_def author_index_seq_below_def cnt)
  qed (simp add: index_below_def author_index_seq_below_def cnt)
qed

text \<open>The loop returns the newest entries below the start, one row each.\<close>

definition author_ok ::
  "nat list \<Rightarrow> (nat \<Rightarrow> enriched_post option) \<Rightarrow> nat \<Rightarrow> enriched_post list \<Rightarrow> nat \<Rightarrow> feed_page_raw \<Rightarrow> nat \<Rightarrow> bool"
where
  "author_ok xs fetch limit posts m pg k \<longleftrightarrow>
     k \<le> m \<and> fr_posts pg = posts @ List.map_filter fetch (take k (rev (take m xs))) \<and>
     length (fr_posts pg) \<le> limit \<and>
     (case fr_next_cursor pg of
        None \<Rightarrow> k = m
      | Some c \<Rightarrow> k < m \<and> c = Suc (xs ! (m - k - 1)) \<and> limit \<le> length (fr_posts pg))"

lemma author_ok_step:
  assumes "author_ok xs fetch limit (case fetch (xs ! m) of Some e \<Rightarrow> posts @ [e] | None \<Rightarrow> posts) m pg k"
    and "m < length xs"
  shows "author_ok xs fetch limit posts (Suc m) pg (Suc k)"
  using assms by (auto simp: author_ok_def take_Suc_conv_app_nth map_filter_simps split: option.splits)

lemma author_feed_loop_ok:
  assumes "\<And>s. s < m \<Longrightarrow> get s = Some (xs ! s)" and "m \<le> length xs"
    and "\<And>s b. s < m \<Longrightarrow> before = Some b \<Longrightarrow> xs ! s < b" and "\<And>s. s < m \<Longrightarrow> xs ! s < u64_max"
    and "length posts \<le> limit"
  shows "\<exists>k. author_ok xs fetch limit posts m (author_feed_loop get fetch before limit posts m) k"
  using assms
proof (induction m arbitrary: posts)
  case 0
  then show ?case by (intro exI [of _ 0]) (simp add: author_ok_def map_filter_simps)
next
  case (Suc m)
  have get: "get m = Some (xs ! m)" using Suc.prems(1) by simp
  have bef: "\<not> (case before of Some b \<Rightarrow> b \<le> xs ! m | None \<Rightarrow> False)"
    using Suc.prems(3) [of m] by (auto split: option.split)
  let ?posts = "case fetch (xs ! m) of Some e \<Rightarrow> posts @ [e] | None \<Rightarrow> posts"
  show ?case
  proof (cases "limit \<le> length posts")
    case True
    with Suc.prems get bef show ?thesis
      by (intro exI [of _ 0]) (simp add: author_ok_def map_filter_simps)
  next
    case False
    then have "length ?posts \<le> limit" by (auto split: option.split)
    then obtain k where "author_ok xs fetch limit ?posts m (author_feed_loop get fetch before limit ?posts m) k"
      using Suc.IH [of ?posts] Suc.prems(1-4) by (meson Suc_leD less_SucI)
    moreover have "author_feed_loop get fetch before limit posts (Suc m) = author_feed_loop get fetch before limit ?posts m"
      using get bef False by simp
    ultimately show ?thesis using author_ok_step [of xs fetch limit posts m] Suc.prems(2) by fastforce
  qed
qed

lemma filter_le_nth:
  assumes "sorted_wrt (<) xs" and "j < length xs"
  shows "filter (\<lambda>i. i < Suc (xs ! j)) xs = take (Suc j) (xs :: nat list)"
proof (rule filter_take)
  show "xs ! s < Suc (xs ! j)" if "s < Suc j" for s
    using that assms sorted_wrt_nth_less [OF assms(1), of s j] by (cases "s = j") auto
  show "\<not> xs ! s < Suc (xs ! j)" if "Suc j \<le> s" "s < length xs" for s
    using sorted_wrt_nth_less [OF assms(1), of j s] that by auto
qed (use assms in simp)

lemma post_ids_sorted: "sorted_wrt (<) (post_ids P st)"
  unfolding post_ids_def by (rule sorted_wrt_filter) (simp add: sorted_wrt_upt)

lemma post_ids_bound: "i \<in> set (post_ids P st) \<Longrightarrow> i < NextPostId st"
  by (simp add: post_ids_def)

definition author_ids :: "ss58 \<Rightarrow> chain \<Rightarrow> nat list" where
  "author_ids a st = post_ids (\<lambda>p. po_parent p = None \<and> po_author p = a) st"

lemma author_feed_page_ok:
  assumes st: "readable st" and n: "0 < n" "n \<le> RT_MAX_PAGE"
  shows "\<exists>k. page_of (index_below (author_ids a st)) (\<lambda>i. fetch_enriched i viewer (staker_weights st) st) c n
                (raw (author_feed_page a viewer st c n)) k \<and>
             (fr_next_cursor (author_feed_page a viewer st c n) \<noteq> None \<longrightarrow>
                n \<le> length (fr_posts (author_feed_page a viewer st c n)))"
proof -
  let ?xs = "author_ids a st" and ?fetch = "\<lambda>i. fetch_enriched i viewer (staker_weights st) st"
  have ix: "indexes (TopLevelByAuthor st a) (TopLevelByAuthorCount st a) ?xs"
    using st by (simp add: readable_def chain_inv_def posts_inv_def author_ids_def)
  have sorted: "sorted_wrt (<) ?xs" by (simp add: author_ids_def post_ids_sorted)
  let ?m = "author_index_seq_below (TopLevelByAuthorCount st a) c (TopLevelByAuthor st a)"
  note m = author_index_seq_below_ok [OF ix sorted, of c]
  have bound: "?xs ! s < u64_max" if "s < ?m" for s
  proof -
    have "?xs ! s \<in> set ?xs" using that m(1) by simp
    then have "?xs ! s < NextPostId st" by (simp add: author_ids_def post_ids_bound)
    with st show ?thesis by (simp add: readable_def)
  qed
  have bef: "?xs ! s < b" if "s < ?m" "c = Some b" for s b
  proof -
    have "?xs ! s \<in> set (take ?m ?xs)" using that m(1) by (auto simp: in_set_conv_nth)
    then have "?xs ! s \<in> set (index_below ?xs c)" by (simp add: m(2))
    with that show ?thesis by (simp add: index_below_def)
  qed
  have "\<exists>k. author_ok ?xs ?fetch n [] ?m (author_feed_page a viewer st c n) k"
    unfolding author_feed_page_def Let_def clamp_limit_id [OF n]
    by (rule author_feed_loop_ok) (use ix m(1) bound bef in \<open>auto simp: indexes_def\<close>)
  then obtain k where k: "author_ok ?xs ?fetch n [] ?m (author_feed_page a viewer st c n) k" by blast
  have rest: "index_below ?xs (Some (Suc (?xs ! (?m - k - 1)))) = drop k (index_below ?xs c)" if "k < ?m"
  proof -
    have "?m - k - 1 < length ?xs" "Suc (?m - k - 1) = ?m - k" using that m(1) by auto
    with filter_le_nth [OF sorted] m show ?thesis by (simp add: index_below_def drop_rev)
  qed
  have "0 < k" if "fr_next_cursor (author_feed_page a viewer st c n) \<noteq> None"
    using k that n by (cases k) (auto simp: author_ok_def map_filter_simps)
  then show ?thesis
    by (intro exI [of _ k]) (use k rest m in \<open>auto simp: page_of_def author_ok_def split: option.splits\<close>)
qed

interpretation author_feed: dense_read readable "\<lambda>st c n. raw (author_feed_page a viewer st c n)"
  "\<lambda>st. index_below (author_ids a st)"
  "\<lambda>st i. fetch_enriched i viewer (staker_weights st) st"
  for a viewer
proof
  fix st n c
  assume "readable st" "0 < n" "n \<le> RT_MAX_PAGE"
  note ok = author_feed_page_ok [OF this, of a viewer c]
  then show "\<exists>k. page_of (index_below (author_ids a st)) (\<lambda>i. fetch_enriched i viewer (staker_weights st) st) c n
               (raw (author_feed_page a viewer st c n)) k" by blast
  assume "snd (raw (author_feed_page a viewer st c n)) \<noteq> None"
  with ok show "n \<le> length (fst (raw (author_feed_page a viewer st c n)))" by auto
qed

end
