(* ===== verification/Feed_Rank.thy ===== *)
theory Feed_Rank
  imports Cogno_Types
begin

text \<open>
  The pure helpers of the feeds: folding pages together by id and classifying a fresh page
  (\<open>feed/live.ts\<close>), the ranked windows (\<open>feed/rank.ts\<close>), the decision about the tail of a list
  (\<open>feed/tail.ts\<close>) and the snapshot that survives a navigation (\<open>feed/snapshot.ts\<close>).  Every sort of
  these files is an interpretation of the comparator locale.

  The hot score is a JavaScript number; it is modelled as a real number, without rounding.
\<close>

section \<open>Newest first\<close>

definition byIdDesc :: "cogno_post \<Rightarrow> cogno_post \<Rightarrow> int" where
  "byIdDesc a b = (if p_id a < p_id b then 1 else if p_id a > p_id b then -1 else 0)"

lemma byIdDesc_sign [cmp_simps]:
  "byIdDesc a b \<le> 0 \<longleftrightarrow> p_id b \<le> p_id a" "byIdDesc a b < 0 \<longleftrightarrow> p_id b < p_id a"
  "0 < byIdDesc a b \<longleftrightarrow> p_id a < p_id b" "byIdDesc a b = 0 \<longleftrightarrow> p_id a = p_id b"
  by (auto simp: byIdDesc_def)

interpretation by_id: comparator byIdDesc
  by unfold_locales (auto simp: cmp_simps)

text \<open>A list that is strictly newest first is determined by its elements.\<close>

definition newest_first :: "cogno_post list \<Rightarrow> bool" where
  "newest_first ps \<longleftrightarrow> sorted_wrt (\<lambda>a b. p_id b < p_id a) ps"

lemma newest_first_simps [simp]:
  "newest_first []"
  "newest_first (p # ps) \<longleftrightarrow> (\<forall>q \<in> set ps. p_id q < p_id p) \<and> newest_first ps"
  by (simp_all add: newest_first_def)

lemma newest_first_distinct: "newest_first ps \<Longrightarrow> distinct (map p_id ps)"
  by (induction ps) auto

lemma newest_first_filter: "newest_first ps \<Longrightarrow> newest_first (filter P ps)"
  by (simp add: newest_first_def sorted_wrt_filter)

lemma newest_first_take: "newest_first ps \<Longrightarrow> newest_first (take n ps)"
  by (simp add: newest_first_def sorted_wrt_take)

lemma newest_first_unique:
  assumes "newest_first xs" and "newest_first ys" and "set xs = set ys"
  shows "xs = ys"
  using assms
proof (induction xs arbitrary: ys)
  case (Cons x xs)
  then obtain y ys' where ys: "ys = y # ys'" by (cases ys) auto
  have "x = y"
  proof (rule ccontr)
    assume "x \<noteq> y"
    with Cons.prems ys have "x \<in> set ys'" "y \<in> set xs" by auto
    with Cons.prems ys have "p_id x < p_id y" "p_id y < p_id x" by auto
    then show False by simp
  qed
  moreover from Cons.prems ys this have "x \<notin> set xs" "x \<notin> set ys'" by auto
  with Cons.prems ys \<open>x = y\<close> have "set xs = set ys'" by auto
  ultimately show ?case using Cons ys by simp
qed simp

lemma newest_first_if_distinct:
  "sorted_wrt (\<lambda>a b. p_id b \<le> p_id a) ps \<Longrightarrow> distinct (map p_id ps) \<Longrightarrow> newest_first ps"
  by (induction ps) (auto simp: order_less_le image_iff)

lemma newest_first_sort:
  assumes "distinct (map p_id ps)"
  shows "newest_first (js_sort byIdDesc ps)"
proof -
  have "sorted_wrt (\<lambda>a b. p_id b \<le> p_id a) (js_sort byIdDesc ps)"
    using by_id.sorted_sort [of ps] by (simp add: cmp_simps)
  moreover have "mset (map p_id (js_sort byIdDesc ps)) = mset (map p_id ps)" by (metis mset_js_sort mset_map)
  then have "distinct (map p_id (js_sort byIdDesc ps))" using assms by (metis mset_eq_imp_distinct_iff)
  ultimately show ?thesis by (rule newest_first_if_distinct)
qed

section \<open>Folding pages together (live.ts)\<close>

definition bridgeFetchSize :: "int \<Rightarrow> int \<Rightarrow> int" where
  "bridgeFetchSize gap mx = min (max gap 1) mx"

definition mergeById :: "cogno_post list \<Rightarrow> cogno_post list \<Rightarrow> cogno_post list" where
  "mergeById existing incoming =
     js_sort byIdDesc
       (map snd (fold (\<lambda>p byId. omap_set (show_int (p_id p)) p byId) incoming
         (fold (\<lambda>p byId. omap_set (show_int (p_id p)) p byId) existing [])))"

record fresh_partition =
  newOwn :: "cogno_post list"
  newOthers :: "cogno_post list"
  refreshLoaded :: "cogno_post list"
  refreshBuffered :: "cogno_post list"

definition place :: "string list \<Rightarrow> string list \<Rightarrow> ss58 option \<Rightarrow> cogno_post \<Rightarrow> fresh_partition \<Rightarrow> fresh_partition" where
  "place loadedIds bufferedIds me p fp =
     (if show_int (p_id p) \<in> set loadedIds then fp\<lparr>refreshLoaded := refreshLoaded fp @ [p]\<rparr>
      else if show_int (p_id p) \<in> set bufferedIds then fp\<lparr>refreshBuffered := refreshBuffered fp @ [p]\<rparr>
      else if me = Some (p_author p) then fp\<lparr>newOwn := newOwn fp @ [p]\<rparr>
      else fp\<lparr>newOthers := newOthers fp @ [p]\<rparr>)"

definition partitionFresh ::
  "cogno_post list \<Rightarrow> string list \<Rightarrow> string list \<Rightarrow> ss58 option \<Rightarrow> fresh_partition" where
  "partitionFresh fresh loadedIds bufferedIds me =
     fold (place loadedIds bufferedIds me) fresh
       \<lparr>newOwn = [], newOthers = [], refreshLoaded = [], refreshBuffered = []\<rparr>"

text \<open>The last post with a given id, which is the one a map keyed by id keeps.\<close>

definition last_with :: "int \<Rightarrow> cogno_post list \<Rightarrow> cogno_post option" where
  "last_with i ps = map_of (rev (map (\<lambda>p. (p_id p, p)) ps)) i"

lemma last_with_Nil [simp]: "last_with i [] = None"
  by (simp add: last_with_def)

lemma last_with_snoc [simp]: "last_with i (ps @ [p]) = (if p_id p = i then Some p else last_with i ps)"
  by (simp add: last_with_def)

lemma last_with_append: "last_with i (ps @ qs) = (case last_with i qs of Some q \<Rightarrow> Some q | None \<Rightarrow> last_with i ps)"
  by (simp add: last_with_def map_add_def split: option.split)

lemma last_with_Some: "last_with i ps = Some p \<Longrightarrow> p \<in> set ps \<and> p_id p = i"
  by (induction ps rule: rev_induct) (auto split: if_splits)

lemma last_with_None: "last_with i ps = None \<longleftrightarrow> i \<notin> p_id ` set ps"
  by (induction ps rule: rev_induct) auto

lemma last_with_distinct: "distinct (map p_id ps) \<Longrightarrow> last_with i ps = Some p \<longleftrightarrow> p \<in> set ps \<and> p_id p = i"
  by (induction ps rule: rev_induct) (auto simp: image_iff)

definition keyed_by_id :: "(string, cogno_post) omap \<Rightarrow> cogno_post list \<Rightarrow> bool" where
  "keyed_by_id m ps \<longleftrightarrow> omap_ok m \<and> (\<forall>(k, p) \<in> set m. k = show_int (p_id p)) \<and>
     (\<forall>i. map_of m (show_int i) = last_with i ps)"

lemma set_omap_set_subset: "set (omap_set k v m) \<subseteq> insert (k, v) (set m)"
  by (induction m) (auto split: if_splits)

lemma keyed_by_id_fold:
  "keyed_by_id m ps \<Longrightarrow> keyed_by_id (fold (\<lambda>p m. omap_set (show_int (p_id p)) p m) qs m) (ps @ qs)"
proof (induction qs arbitrary: m ps)
  case (Cons q qs)
  have "keyed_by_id (omap_set (show_int (p_id q)) q m) (ps @ [q])"
    using Cons.prems set_omap_set_subset [of "show_int (p_id q)" q m] by (auto simp: keyed_by_id_def)
  from Cons.IH [OF this] show ?case by simp
qed simp

lemma keyed_by_id_values:
  assumes "keyed_by_id m ps"
  shows "distinct (map p_id (map snd m))" and "p \<in> set (map snd m) \<longleftrightarrow> last_with (p_id p) ps = Some p"
proof -
  have keys: "map fst m = map (show_int \<circ> p_id \<circ> snd) m"
    using assms by (auto simp: keyed_by_id_def)
  have "distinct (map show_int (map p_id (map snd m)))"
    using assms keys by (simp add: keyed_by_id_def omap_ok_def comp_assoc)
  then show "distinct (map p_id (map snd m))" using distinct_map by blast
  have "p \<in> set (map snd m) \<longleftrightarrow> (show_int (p_id p), p) \<in> set m"
    using assms by (force simp: keyed_by_id_def)
  also have "\<dots> \<longleftrightarrow> map_of m (show_int (p_id p)) = Some p"
    using assms map_of_eq_Some_iff [of m] unfolding keyed_by_id_def omap_ok_def by blast
  finally show "p \<in> set (map snd m) \<longleftrightarrow> last_with (p_id p) ps = Some p"
    using assms by (simp add: keyed_by_id_def)
qed

lemma mergeById_set: "p \<in> set (mergeById existing incoming) \<longleftrightarrow> last_with (p_id p) (existing @ incoming) = Some p"
  and mergeById_newest_first: "newest_first (mergeById existing incoming)"
proof -
  have "keyed_by_id [] []" by (simp add: keyed_by_id_def)
  from keyed_by_id_fold [OF keyed_by_id_fold [OF this, of existing], of incoming]
  have k: "keyed_by_id (fold (\<lambda>p byId. omap_set (show_int (p_id p)) p byId) incoming
         (fold (\<lambda>p byId. omap_set (show_int (p_id p)) p byId) existing [])) (existing @ incoming)" by simp
  show "p \<in> set (mergeById existing incoming) \<longleftrightarrow> last_with (p_id p) (existing @ incoming) = Some p"
    using keyed_by_id_values(2) [OF k] by (simp add: mergeById_def)
  show "newest_first (mergeById existing incoming)"
    unfolding mergeById_def by (rule newest_first_sort) (rule keyed_by_id_values(1) [OF k])
qed

lemma mergeById_ids: "p_id ` set (mergeById existing incoming) = p_id ` set existing \<union> p_id ` set incoming"
proof (rule set_eqI)
  fix i
  have "i \<in> p_id ` set (mergeById existing incoming) \<longleftrightarrow> (\<exists>p. last_with i (existing @ incoming) = Some p)"
    using mergeById_set last_with_Some by (metis (no_types, lifting) image_iff)
  also have "\<dots> \<longleftrightarrow> i \<in> p_id ` set (existing @ incoming)" using last_with_None by (metis not_None_eq)
  finally show "i \<in> p_id ` set (mergeById existing incoming) \<longleftrightarrow> i \<in> p_id ` set existing \<union> p_id ` set incoming"
    by (simp add: image_Un)
qed

text \<open>What the classification does with each post.\<close>

lemma partitionFresh_eq:
  "partitionFresh fresh L B me =
     \<lparr>newOwn = filter (\<lambda>p. show_int (p_id p) \<notin> set L \<and> show_int (p_id p) \<notin> set B \<and> me = Some (p_author p)) fresh,
      newOthers = filter (\<lambda>p. show_int (p_id p) \<notin> set L \<and> show_int (p_id p) \<notin> set B \<and> me \<noteq> Some (p_author p)) fresh,
      refreshLoaded = filter (\<lambda>p. show_int (p_id p) \<in> set L) fresh,
      refreshBuffered = filter (\<lambda>p. show_int (p_id p) \<notin> set L \<and> show_int (p_id p) \<in> set B) fresh\<rparr>"
  unfolding partitionFresh_def
  by (induction fresh rule: rev_induct) (auto simp: place_def)

section \<open>Ranked windows (rank.ts)\<close>

definition RANK_WINDOW :: nat where "RANK_WINDOW = 100"

datatype sort_mode = Latest | Hot | Replies | Stake

definition SORTS :: "(string \<times> sort_mode) list" where
  "SORTS = [(''latest'', Latest), (''hot'', Hot), (''replies'', Replies), (''stake'', Stake)]"

definition parseSort :: "string option \<Rightarrow> sort_mode" where
  "parseSort raw = (case map_of SORTS (coalesce raw []) of Some s \<Rightarrow> s | None \<Rightarrow> Latest)"

definition isRanked :: "sort_mode \<Rightarrow> bool" where
  "isRanked s = (s \<noteq> Latest)"

definition scoreOf :: "cogno_post \<Rightarrow> int" where
  "scoreOf p = coalesce (p_score p) 0"

definition repliesOf :: "cogno_post \<Rightarrow> int" where
  "repliesOf p = coalesce (p_replyCount p) 0"

definition interactionsOf :: "cogno_post \<Rightarrow> int" where
  "interactionsOf p = coalesce (p_upCount p) 0 + coalesce (p_downCount p) 0 + repliesOf p"

definition cmpBigDesc :: "int \<Rightarrow> int \<Rightarrow> real" where
  "cmpBigDesc a b = (if a < b then 1 else if a > b then -1 else 0)"

definition GRAVITY :: real where "GRAVITY = 3 / 2"
definition AGE_OFFSET_SECS :: int where "AGE_OFFSET_SECS = 2 * 3600"
definition SECS_PER_BLOCK :: int where "SECS_PER_BLOCK = 6"

text \<open>The hot score as a function of the block time it assumes; the code fixes it at six seconds.\<close>

definition hotScore_at :: "int \<Rightarrow> cogno_post \<Rightarrow> int \<Rightarrow> real" where
  "hotScore_at secs p headBlock =
     (let ageBlocks = max 0 (headBlock - p_at p); ageSecs = ageBlocks * secs
      in of_int (interactionsOf p) / of_int (ageSecs + AGE_OFFSET_SECS) powr GRAVITY)"

definition hotScore :: "cogno_post \<Rightarrow> int \<Rightarrow> real" where
  "hotScore p headBlock = hotScore_at SECS_PER_BLOCK p headBlock"

definition byIdDesc_num :: "cogno_post \<Rightarrow> cogno_post \<Rightarrow> real" where
  "byIdDesc_num a b = of_int (byIdDesc a b)"

fun comparatorFor :: "sort_mode \<Rightarrow> int \<Rightarrow> cogno_post \<Rightarrow> cogno_post \<Rightarrow> real" where
  "comparatorFor Hot headBlock a b =
     (let d = hotScore b headBlock - hotScore a headBlock in if d \<noteq> 0 then d else byIdDesc_num a b)"
| "comparatorFor Replies headBlock a b =
     (let d = of_int (repliesOf b - repliesOf a) in if d \<noteq> 0 then d else byIdDesc_num a b)"
| "comparatorFor Stake headBlock a b =
     (let d = cmpBigDesc (scoreOf a) (scoreOf b) in if d \<noteq> 0 then d else byIdDesc_num a b)"
| "comparatorFor Latest headBlock a b = byIdDesc_num a b"

definition rankWindow :: "cogno_post list \<Rightarrow> sort_mode \<Rightarrow> int \<Rightarrow> cogno_post list" where
  "rankWindow posts s headBlock = js_sort (comparatorFor s headBlock) posts"

fun undiff_key :: "sort_mode \<Rightarrow> cogno_post \<Rightarrow> string" where
  "undiff_key Replies p = show_int (repliesOf p)"
| "undiff_key Stake p = show_int (scoreOf p)"
| "undiff_key Hot p = show_int (interactionsOf p)"
| "undiff_key Latest p = []"

definition isUndifferentiated :: "cogno_post list \<Rightarrow> sort_mode \<Rightarrow> bool" where
  "isUndifferentiated posts s =
     (if \<not> isRanked s \<or> length posts < 2 then True
      else list_all (\<lambda>p. undiff_key s p = undiff_key s (hd posts)) posts)"

text \<open>
  Each comparator orders by a key, greatest first, and then by id; the lexicographic reading gives
  the laws of a comparator at once.
\<close>

fun rank_key :: "sort_mode \<Rightarrow> int \<Rightarrow> cogno_post \<Rightarrow> real" where
  "rank_key Hot headBlock p = hotScore p headBlock"
| "rank_key Replies headBlock p = of_int (repliesOf p)"
| "rank_key Stake headBlock p = of_int (scoreOf p)"
| "rank_key Latest headBlock p = 0"

lemma byIdDesc_num_sign:
  "byIdDesc_num a b \<le> 0 \<longleftrightarrow> p_id b \<le> p_id a" "byIdDesc_num a b < 0 \<longleftrightarrow> p_id b < p_id a"
  "0 < byIdDesc_num a b \<longleftrightarrow> p_id a < p_id b" "byIdDesc_num a b = 0 \<longleftrightarrow> p_id a = p_id b"
  by (auto simp: byIdDesc_num_def byIdDesc_def)

lemma comparatorFor_sign [cmp_simps]:
  "comparatorFor s h a b \<le> 0 \<longleftrightarrow>
     rank_key s h b < rank_key s h a \<or> rank_key s h a = rank_key s h b \<and> p_id b \<le> p_id a"
  "comparatorFor s h a b < 0 \<longleftrightarrow>
     rank_key s h b < rank_key s h a \<or> rank_key s h a = rank_key s h b \<and> p_id b < p_id a"
  "0 < comparatorFor s h a b \<longleftrightarrow>
     rank_key s h a < rank_key s h b \<or> rank_key s h a = rank_key s h b \<and> p_id a < p_id b"
  "comparatorFor s h a b = 0 \<longleftrightarrow> rank_key s h a = rank_key s h b \<and> p_id a = p_id b"
  by (cases s; auto simp: Let_def byIdDesc_num_sign cmpBigDesc_def)+

declare comparatorFor.simps [simp del]

interpretation ranked: comparator "comparatorFor s headBlock" for s headBlock
  by unfold_locales (auto simp: cmp_simps)

lemma hotScore_mono:
  assumes "interactionsOf p = interactionsOf q" and "0 \<le> interactionsOf p" and "p_at p \<le> p_at q"
  shows "hotScore p h \<le> hotScore q h"
proof -
  define age where "age r = max 0 (h - p_at r) * SECS_PER_BLOCK + AGE_OFFSET_SECS" for r :: cogno_post
  have "0 < age q" "age q \<le> age p"
    using assms(3) by (auto simp: age_def SECS_PER_BLOCK_def AGE_OFFSET_SECS_def max_def)
  then have "real_of_int (age q) powr GRAVITY \<le> real_of_int (age p) powr GRAVITY"
    and "0 < real_of_int (age q) powr GRAVITY" and "0 < real_of_int (age p) powr GRAVITY"
    by (auto intro: powr_mono2 simp: GRAVITY_def)
  then show ?thesis
    unfolding hotScore_def hotScore_at_def Let_def age_def [symmetric] assms(1)
    using assms(1,2) by (intro divide_left_mono) auto
qed

lemma rank_key_undifferentiated:
  assumes "isUndifferentiated posts s" and "2 \<le> length posts" and "p \<in> set posts" "q \<in> set posts"
  shows "s \<noteq> Hot \<Longrightarrow> rank_key s h p = rank_key s h q" and "s = Hot \<Longrightarrow> interactionsOf p = interactionsOf q"
  using assms by (cases s; auto simp: isUndifferentiated_def isRanked_def list_all_iff)+

text \<open>
  When the page says that a ranked mode distinguishes nothing, the ranked window is the plain
  recency order, so the disclosure is exact; for the hot mode this uses that a newer post is not
  in an older block and that tallies are not negative.
\<close>

lemma undifferentiated_is_latest:
  assumes "isUndifferentiated posts s"
    and "\<And>p q. p \<in> set posts \<Longrightarrow> q \<in> set posts \<Longrightarrow> p_id p < p_id q \<Longrightarrow> p_at p \<le> p_at q"
    and "\<And>p. p \<in> set posts \<Longrightarrow> 0 \<le> interactionsOf p"
    and "distinct (map p_id posts)"
  shows "rankWindow posts s headBlock = js_sort byIdDesc posts"
proof (cases "length posts < 2")
  case True
  then show ?thesis by (cases posts) (auto simp: rankWindow_def)
next
  case False
  note key = rank_key_undifferentiated [OF assms(1)]
  have inj: "p_id p = p_id q \<Longrightarrow> p = q" if "p \<in> set posts" "q \<in> set posts" for p q
    using assms(4) that by (auto simp: distinct_map inj_on_def)
  have "(comparatorFor s headBlock p q \<le> 0) = (of_int (byIdDesc p q) \<le> (0::real))"
    if pq: "p \<in> set posts" "q \<in> set posts" for p q
  proof (cases "s = Hot")
    case True
    have "interactionsOf p = interactionsOf q" using key(2) [of p q] pq True False by simp
    then have "p_id p < p_id q \<Longrightarrow> hotScore p headBlock \<le> hotScore q headBlock"
      "p_id q < p_id p \<Longrightarrow> hotScore q headBlock \<le> hotScore p headBlock"
      using hotScore_mono assms(2,3) pq by auto
    then show ?thesis using inj [OF pq] True by (cases "p_id p" "p_id q" rule: linorder_cases) (auto simp: cmp_simps)
  next
    case other: False
    then have "rank_key s headBlock p = rank_key s headBlock q" using key(1) [of p q] pq False by simp
    then show ?thesis by (auto simp: cmp_simps)
  qed
  then have "js_sort (comparatorFor s headBlock) posts = js_sort (\<lambda>p q. of_int (byIdDesc p q) :: real) posts"
    by (intro js_sort_cong) auto
  also have "\<dots> = js_sort byIdDesc posts"
  proof -
    have "js_insert (\<lambda>p q. of_int (byIdDesc p q) :: real) p ps = js_insert byIdDesc p ps" for p ps
      by (induction ps) auto
    then show ?thesis by (induction posts) auto
  qed
  finally show ?thesis by (simp add: rankWindow_def)
qed

lemma undifferentiated_is_latest_witness:
  "rankWindow [bare_post 1 ''a'' ''x'' 5, bare_post 3 ''b'' ''y'' 9, bare_post 2 ''a'' ''z'' 5] Hot 10 =
     js_sort byIdDesc [bare_post 1 ''a'' ''x'' 5, bare_post 3 ''b'' ''y'' 9, bare_post 2 ''a'' ''z'' 5]"
  by (rule undifferentiated_is_latest)
    (auto simp: isUndifferentiated_def isRanked_def interactionsOf_def repliesOf_def bare_post_def)

text \<open>
  The hot order of two posts depends on the block time the score assumes: at six seconds the
  older, busier post is hotter, at twelve the newer one is.
\<close>

lemma hot_order_depends_on_block_time:
  "let quiet = (bare_post 2 ''a'' ''new'' 2400)\<lparr>p_upCount := Some 1\<rparr>;
       busy = (bare_post 1 ''b'' ''old'' 0)\<lparr>p_upCount := Some 8\<rparr>
   in hotScore quiet 2400 < hotScore busy 2400 \<and> hotScore_at 12 busy 2400 < hotScore_at 12 quiet 2400"
proof -
  have four: "(4::real) powr (3 / 2) = 8"
  proof -
    have "(4::real) powr (3 / 2) = (2 powr 2) powr (3 / 2)" by simp
    also have "\<dots> = 2 powr 3" by (simp only: powr_powr) simp
    finally show ?thesis by simp
  qed
  have "(3::real) powr (3 / 2) < 4 powr (3 / 2)" "(4::real) powr (3 / 2) < 5 powr (3 / 2)"
    by (intro powr_less_mono2; simp)+
  with four have three: "(3::real) powr (3 / 2) < 8" and five: "8 < (5::real) powr (3 / 2)" by simp_all
  have scale: "(21600::real) powr (3 / 2) = 3 powr (3 / 2) * 7200 powr (3 / 2)"
    "(36000::real) powr (3 / 2) = 5 powr (3 / 2) * 7200 powr (3 / 2)"
    using powr_mult [of 3 7200 "3 / 2"] powr_mult [of 5 7200 "3 / 2"] by simp_all
  have pos: "0 < (7200::real) powr (3 / 2)" "0 < (3::real) powr (3 / 2)" "0 < (5::real) powr (3 / 2)" by simp_all
  show ?thesis
    using three five pos
    by (simp add: hotScore_def hotScore_at_def interactionsOf_def repliesOf_def bare_post_def GRAVITY_def
        SECS_PER_BLOCK_def AGE_OFFSET_SECS_def Let_def scale divide_simps del: powr_mult)
qed

section \<open>The tail of a list (tail.ts)\<close>

datatype tail_mode = TailAuto | TailManual | TailNone

record tail_input =
  ti_rawCount :: int
  ti_visibleCount :: int
  ti_hasMore :: bool
  ti_paginationCapable :: bool
  ti_lastPageVisibleCount :: "int option"

definition tailDecision :: "tail_input \<Rightarrow> tail_mode" where
  "tailDecision i =
     (if \<not> ti_paginationCapable i \<or> \<not> ti_hasMore i then TailNone
      else if ti_lastPageVisibleCount i = Some 0 then TailManual
      else if ti_visibleCount i = 0 \<and> 0 < ti_rawCount i then TailManual
      else TailAuto)"

section \<open>The snapshot of a feed (snapshot.ts)\<close>

record feed_snapshot =
  fs_posts :: "cogno_post list"
  fs_cursor :: "string option"
  fs_scrollY :: int
  fs_head :: "int option"

type_synonym held = "(string \<times> feed_snapshot) option"

definition feedSnapshotKey :: "string \<Rightarrow> ss58 option \<Rightarrow> string" where
  "feedSnapshotKey tab viewer = tab @ ''|'' @ coalesce viewer ''anon''"

definition saveFeedSnapshot :: "string \<Rightarrow> feed_snapshot \<Rightarrow> held \<Rightarrow> held" where
  "saveFeedSnapshot key snap held = (if fs_posts snap = [] then held else Some (key, snap))"

definition takeFeedSnapshot :: "string \<Rightarrow> held \<Rightarrow> feed_snapshot option \<times> held" where
  "takeFeedSnapshot key held = (case held of
     None \<Rightarrow> (None, held)
   | Some (k, snap) \<Rightarrow> if k \<noteq> key then (None, held) else (Some snap, None))"

definition clearFeedSnapshot :: "held \<Rightarrow> held" where
  "clearFeedSnapshot held = None"

end
