(* ===== verification/Capacity.thy ===== *)
theory Capacity
  imports Pallet_Reads Feed_Rank Unicode
begin

text \<open>
  Talk capacity on both sides: the token bucket of the pallet (\<open>capacity_ceiling\<close>, \<open>regen_per_block\<close>,
  \<open>current_capacity\<close>, \<open>consume\<close>, \<open>settle_capacity_at\<close>, \<open>apply_observed_weight\<close>), its \<open>CheckCapacity\<close>
  extension, which the pool and the block author run before a call and which charges it afterwards, and the client's replay of it (\<open>app/src/lib/chain/capacity.ts\<close>) with the gate every
  composer shows before submitting (\<open>app/src/hooks/useComposerGate.ts\<close>).  The replay is shown to be the
  runtime's own number, the announced wait to name the first block that can carry the post, and the
  composer's button to agree with the extension.

  The extension prices a call with the bucket of the block it runs in, which is one after the block the
  client reads its view at.  The number of that block is therefore the \<open>cap_now\<close> of the state the
  extension is given, and the theorems are about every such number.
\<close>

definition saturating_mul :: "nat \<Rightarrow> nat \<Rightarrow> nat \<Rightarrow> nat" where
  "saturating_mul mx a b = min (a * b) mx"

section \<open>The pallet\<close>

record cap_config =
  CapRatio :: nat
  RegenPerBlock :: nat
  Ceiling :: nat
  BaseCost :: nat
  PerByteCost :: nat
  VoteCost :: nat
  FollowCost :: nat
  ProfileCost :: nat
  MaxBody :: nat

record capacity_state =
  cap_last :: nat
  last_block :: nat

record cap_chain =
  cap_now :: nat
  AllowedStake :: "ss58 \<Rightarrow> nat"
  CapacityRow :: "ss58 \<Rightarrow> capacity_state option"
  has_profile :: "ss58 \<Rightarrow> bool"
  has_pin :: "ss58 \<Rightarrow> bool"

definition capacity_ceiling :: "cap_config \<Rightarrow> nat \<Rightarrow> nat" where
  "capacity_ceiling T weight = min (saturating_mul u128_max weight (CapRatio T)) (Ceiling T)"

definition regen_per_block :: "cap_config \<Rightarrow> nat \<Rightarrow> nat" where
  "regen_per_block T weight =
     (if CapRatio T = 0 then 0
      else saturating_mul u128_max (capacity_ceiling T weight) (RegenPerBlock T) div CapRatio T)"

definition regenerated :: "cap_config \<Rightarrow> nat \<Rightarrow> capacity_state \<Rightarrow> nat \<Rightarrow> nat" where
  "regenerated T weight s now =
     min (capacity_ceiling T weight)
       (saturating_add u128_max (cap_last s) (saturating_mul u128_max (regen_per_block T weight) (now - last_block s)))"

definition current_capacity :: "cap_config \<Rightarrow> cap_chain \<Rightarrow> ss58 \<Rightarrow> nat \<Rightarrow> nat" where
  "current_capacity T st who now = (case CapacityRow st who of
     None \<Rightarrow> 0 | Some s \<Rightarrow> regenerated T (AllowedStake st who) s now)"

definition on_first_bind :: "ss58 \<Rightarrow> cap_chain \<Rightarrow> cap_chain" where
  "on_first_bind who st = (case CapacityRow st who of
     Some _ \<Rightarrow> st
   | None \<Rightarrow> st\<lparr>CapacityRow := (CapacityRow st)(who \<mapsto> \<lparr>cap_last = 0, last_block = cap_now st\<rparr>)\<rparr>)"

definition settle_capacity_at :: "cap_config \<Rightarrow> ss58 \<Rightarrow> nat \<Rightarrow> cap_chain \<Rightarrow> cap_chain" where
  "settle_capacity_at T who old_weight st = (case CapacityRow st who of
     None \<Rightarrow> st
   | Some s \<Rightarrow> if last_block s = cap_now st then st
       else st\<lparr>CapacityRow := (CapacityRow st)
              (who \<mapsto> \<lparr>cap_last = regenerated T old_weight s (cap_now st), last_block = cap_now st\<rparr>)\<rparr>)"

definition apply_observed_weight :: "cap_config \<Rightarrow> ss58 \<Rightarrow> nat \<Rightarrow> cap_chain \<Rightarrow> cap_chain" where
  "apply_observed_weight T who weight st =
     (let previous = AllowedStake st who;
          st1 = (if previous \<noteq> weight
                 then let s = settle_capacity_at T who previous st
                      in s\<lparr>AllowedStake := (AllowedStake s)(who := weight)\<rparr>
                 else st)
      in on_first_bind who st1)"

definition post_cost :: "cap_config \<Rightarrow> nat \<Rightarrow> nat" where
  "post_cost T len = saturating_add u128_max (BaseCost T) (saturating_mul u128_max (PerByteCost T) len)"

definition consume :: "cap_config \<Rightarrow> ss58 \<Rightarrow> nat \<Rightarrow> nat \<Rightarrow> cap_chain \<Rightarrow> cap_chain" where
  "consume T who now cost st =
     st\<lparr>CapacityRow := (CapacityRow st)(who \<mapsto> \<lparr>cap_last = current_capacity T st who now - cost, last_block = now\<rparr>)\<rparr>"

section \<open>The extension\<close>

text \<open>A signed extrinsic's call: one of this pallet's, one of the profile pallet's, or any other.\<close>

datatype runtime_call = MicroblogCall call | ClosePollCall | ForceSetCapacity
  | ClearProfileCall | UnpinPostCall | OtherProfileCall | OtherCall

text \<open>The body that \<open>MaxLength\<close> bounds.\<close>

fun body_of :: "call \<Rightarrow> bytes option" where
  "body_of (PostMessage txt _) = Some txt"
| "body_of (QuotePost txt _) = Some txt"
| "body_of (CreatePoll question _ _ _ _) = Some question"
| "body_of _ = None"

fun over_len :: "cap_config \<Rightarrow> runtime_call \<Rightarrow> bool" where
  "over_len T (MicroblogCall c) = (case body_of c of Some txt \<Rightarrow> MaxBody T < length txt | None \<Rightarrow> False)"
| "over_len T _ = False"

fun metered_cost :: "cap_config \<Rightarrow> call \<Rightarrow> nat" where
  "metered_cost T (PostMessage txt _) = post_cost T (length txt)"
| "metered_cost T (QuotePost txt _) = post_cost T (length txt)"
| "metered_cost T (Vote _ _) = VoteCost T"
| "metered_cost T (ClearVote _) = VoteCost T"
| "metered_cost T (VoteAccount _ _) = VoteCost T"
| "metered_cost T (ClearAccountVote _) = VoteCost T"
| "metered_cost T (Follow _) = FollowCost T"
| "metered_cost T (Unfollow _) = FollowCost T"
| "metered_cost T (CreatePoll question _ _ _ _) = post_cost T (length question)"
| "metered_cost T (CastPollVote _ _) = VoteCost T"

definition UNPAYABLE :: nat where "UNPAYABLE = u128_max"
definition MAX_METERED_CALL_LEN :: nat where "MAX_METERED_CALL_LEN = 8 * 1024"

text \<open>\<open>metered_cost\<close> of a call of this pallet, \<open>ForeignCost\<close> of any other; \<^const>\<open>None\<close> is not metered.\<close>

fun call_price :: "cap_config \<Rightarrow> cap_chain \<Rightarrow> ss58 \<Rightarrow> runtime_call \<Rightarrow> nat option" where
  "call_price T st who (MicroblogCall c) = Some (metered_cost T c)"
| "call_price T st who ClosePollCall = Some (VoteCost T)"
| "call_price T st who ForceSetCapacity = None"
| "call_price T st who ClearProfileCall = Some (if has_profile st who then 0 else UNPAYABLE)"
| "call_price T st who UnpinPostCall = Some (if has_pin st who then 0 else UNPAYABLE)"
| "call_price T st who OtherProfileCall = Some (ProfileCost T)"
| "call_price T st who OtherCall = None"

text \<open>A valid call has a priority and, when it is metered, the cost it carries to \<open>post_dispatch_details\<close>.\<close>

datatype validity = Valid nat "nat option" | InvalidCall | ExhaustsResources

definition accepted :: "validity \<Rightarrow> bool" where
  "accepted v = (case v of Valid _ _ \<Rightarrow> True | _ \<Rightarrow> False)"

text \<open>\<open>who\<close> is the signer, if there is one, and \<open>len\<close> the length of the encoded extrinsic.\<close>

definition validate :: "cap_config \<Rightarrow> cap_chain \<Rightarrow> ss58 option \<Rightarrow> runtime_call \<Rightarrow> nat \<Rightarrow> validity" where
  "validate T st who c len = (case who of
     None \<Rightarrow> Valid 0 None
   | Some w \<Rightarrow>
       if over_len T c then InvalidCall
       else case call_price T st w c of
         None \<Rightarrow> Valid 0 None
       | Some need \<Rightarrow>
           if MAX_METERED_CALL_LEN < len then InvalidCall
           else if need = UNPAYABLE then InvalidCall
           else let held = current_capacity T st w (cap_now st)
                in if held < need then ExhaustsResources
                   else Valid (min (held - need) u64_max) (Some need))"

definition post_dispatch_details :: "cap_config \<Rightarrow> ss58 \<Rightarrow> nat option \<Rightarrow> cap_chain \<Rightarrow> cap_chain" where
  "post_dispatch_details T who cost st = (case cost of None \<Rightarrow> st | Some k \<Rightarrow> consume T who (cap_now st) k st)"

text \<open>An accepted call is charged exactly its price, whatever the call did to the rest of the state.\<close>

lemma charged_exactly:
  assumes "validate T st (Some who) c len = Valid pri (Some need)"
  shows "current_capacity T (post_dispatch_details T who (Some need) st) who (cap_now st) + need =
           current_capacity T st who (cap_now st)"
proof -
  have le: "need \<le> current_capacity T st who (cap_now st)"
    using assms by (auto simp: validate_def Let_def split: if_splits option.splits)
  have "current_capacity T st who n \<le> capacity_ceiling T (AllowedStake st who)" for n
    by (simp add: current_capacity_def regenerated_def split: option.split)
  moreover have "capacity_ceiling T (AllowedStake st who) \<le> u128_max"
    by (simp add: capacity_ceiling_def saturating_mul_def min_le_iff_disj)
  moreover define cur st' where "cur = current_capacity T st who (cap_now st)" and "st' = consume T who (cap_now st) need st"
  ultimately have bounds: "cur \<le> capacity_ceiling T (AllowedStake st who)" "cur \<le> u128_max" by (metis le_trans)+
  have "CapacityRow st' who = Some \<lparr>cap_last = cur - need, last_block = cap_now st\<rparr>" "AllowedStake st' = AllowedStake st"
    by (simp_all add: st'_def cur_def consume_def)
  then have "current_capacity T st' who (cap_now st) = cur - need"
    using bounds unfolding current_capacity_def by (simp add: regenerated_def saturating_add_def saturating_mul_def)
  then have "current_capacity T (consume T who (cap_now st) need st) who (cap_now st) = current_capacity T st who (cap_now st) - need"
    by (simp add: st'_def cur_def)
  with le show ?thesis by (simp add: post_dispatch_details_def)
qed

section \<open>The client's replay\<close>

record capacity_consts =
  capRatio :: int
  regenPerBlock :: int
  ceiling_const :: int
  baseCost :: int
  perByteCost :: int
  maxLength :: int

record capacity_bucket =
  capLast :: int
  lastBlock :: int

record capacity_inputs_rec =
  ci_weight :: int
  ci_bucket :: "capacity_bucket option"

record capacity_view =
  cv_weight :: int
  cv_bucket :: "capacity_bucket option"
  cv_cap :: int
  cv_have :: int
  cv_ratePerBlock :: int
  cv_at :: int


definition readCapacityConsts :: "cap_config \<Rightarrow> capacity_consts" where
  "readCapacityConsts T = \<lparr>capRatio = int (CapRatio T), regenPerBlock = int (RegenPerBlock T),
     ceiling_const = int (Ceiling T), baseCost = int (BaseCost T), perByteCost = int (PerByteCost T),
     maxLength = int (MaxBody T)\<rparr>"

text \<open>An unanswered read is \<open>None\<close>; an answered read of the bucket may itself say that there is no row.\<close>

definition capacityInputs :: "int option \<Rightarrow> capacity_bucket option option \<Rightarrow> capacity_inputs_rec option" where
  "capacityInputs weight bucket = (case (weight, bucket) of
     (Some w, Some b) \<Rightarrow> Some \<lparr>ci_weight = w, ci_bucket = b\<rparr> | _ \<Rightarrow> None)"

definition readCapacityInputs :: "cap_chain \<Rightarrow> ss58 \<Rightarrow> capacity_inputs_rec" where
  "readCapacityInputs st who =
     \<lparr>ci_weight = int (AllowedStake st who),
      ci_bucket = map_option (\<lambda>s. \<lparr>capLast = int (cap_last s), lastBlock = int (last_block s)\<rparr>) (CapacityRow st who)\<rparr>"

definition capOf :: "int \<Rightarrow> capacity_consts \<Rightarrow> int" where
  "capOf weight K = (let linear = weight * capRatio K in if linear < ceiling_const K then linear else ceiling_const K)"

definition ratePerBlockOf :: "int \<Rightarrow> capacity_consts \<Rightarrow> int" where
  "ratePerBlockOf weight K = (if capRatio K = 0 then 0 else capOf weight K * regenPerBlock K div capRatio K)"

definition postCost :: "int \<Rightarrow> capacity_consts \<Rightarrow> int" where
  "postCost byteLen K = baseCost K + perByteCost K * byteLen"

definition currentCapacity :: "capacity_inputs_rec \<Rightarrow> int \<Rightarrow> capacity_consts \<Rightarrow> int" where
  "currentCapacity inputs blk K =
     (let cap = capOf (ci_weight inputs) K
      in case ci_bucket inputs of
           None \<Rightarrow> 0
         | Some b \<Rightarrow>
             let elapsed = max 0 (blk - lastBlock b);
                 filled = capLast b + ratePerBlockOf (ci_weight inputs) K * elapsed
             in if filled < cap then filled else cap)"

definition computeView :: "capacity_inputs_rec \<Rightarrow> int \<Rightarrow> capacity_consts \<Rightarrow> capacity_view" where
  "computeView inputs blk K =
     \<lparr>cv_weight = ci_weight inputs, cv_bucket = ci_bucket inputs, cv_cap = capOf (ci_weight inputs) K,
      cv_have = currentCapacity inputs blk K, cv_ratePerBlock = ratePerBlockOf (ci_weight inputs) K, cv_at = blk\<rparr>"

datatype draft_status =
    DraftOk int int | DraftNoWeight int | DraftTooLong int int | DraftCharging int int int | DraftWait int int int

definition draftStatus :: "capacity_view \<Rightarrow> int \<Rightarrow> capacity_consts \<Rightarrow> draft_status" where
  "draftStatus view byteLen K =
     (let need = postCost byteLen K
      in if cv_weight view = 0 then DraftNoWeight need
         else if cv_cap view < need then DraftTooLong need (cv_cap view)
         else if need \<le> cv_have view then DraftOk (cv_have view) need
         else
           let rate = cv_ratePerBlock view
           in if rate = 0 then DraftNoWeight need
              else
                let blocks = (need - cv_have view + rate - 1) div rate
                in if cv_bucket view \<noteq> None then DraftWait (cv_have view) need blocks
                   else DraftCharging (cv_have view) need blocks)"

definition postsOf :: "int \<Rightarrow> capacity_consts \<Rightarrow> int" where
  "postsOf amount K = (if baseCost K = 0 then 0 else amount div baseCost K)"

section \<open>The composer's gate\<close>






section \<open>The replay is the runtime's number\<close>

text \<open>
  What the runtime's constants satisfy: the ceiling and its product with the regeneration fit 128 bits
  with room to spare, so that no saturation is ever visible.
\<close>

definition cap_sane :: "cap_config \<Rightarrow> bool" where
  "cap_sane T \<longleftrightarrow> Ceiling T < u128_max \<and> Ceiling T * RegenPerBlock T \<le> u128_max"

lemma capacity_ceiling_eq: "cap_sane T \<Longrightarrow> capacity_ceiling T w = min (w * CapRatio T) (Ceiling T)"
  by (auto simp: capacity_ceiling_def saturating_mul_def cap_sane_def min_def)

lemma capacity_ceiling_le: "capacity_ceiling T w \<le> Ceiling T"
  by (simp add: capacity_ceiling_def)

lemma regen_per_block_eq:
  assumes "cap_sane T" and "CapRatio T \<noteq> 0"
  shows "regen_per_block T w = capacity_ceiling T w * RegenPerBlock T div CapRatio T"
proof -
  have "capacity_ceiling T w * RegenPerBlock T \<le> Ceiling T * RegenPerBlock T"
    by (rule mult_le_mono1 [OF capacity_ceiling_le])
  then have "min (capacity_ceiling T w * RegenPerBlock T) u128_max = capacity_ceiling T w * RegenPerBlock T"
    using assms(1) unfolding cap_sane_def by (metis le_trans min_absorb1)
  with assms(2) show ?thesis by (simp add: regen_per_block_def saturating_mul_def)
qed

lemma regenerated_eq:
  assumes "cap_sane T"
  shows "regenerated T w s now = min (capacity_ceiling T w) (cap_last s + regen_per_block T w * (now - last_block s))"
proof -
  have "capacity_ceiling T w \<le> u128_max"
    using assms capacity_ceiling_le [of T w] unfolding cap_sane_def by linarith
  then show ?thesis by (auto simp: regenerated_def saturating_add_def saturating_mul_def min_def)
qed

lemma capOf_read:
  assumes "cap_sane T"
  shows "capOf (int w) (readCapacityConsts T) = int (capacity_ceiling T w)"
proof -
  have "int w * int (CapRatio T) < int (Ceiling T) \<longleftrightarrow> w * CapRatio T < Ceiling T"
    by (metis of_nat_less_iff of_nat_mult)
  then show ?thesis
    by (auto simp: capOf_def readCapacityConsts_def capacity_ceiling_eq [OF assms] Let_def min_def)
qed

lemma ratePerBlockOf_read:
  assumes "cap_sane T"
  shows "ratePerBlockOf (int w) (readCapacityConsts T) = int (regen_per_block T w)"
proof (cases "CapRatio T = 0")
  case True
  then show ?thesis by (simp add: ratePerBlockOf_def readCapacityConsts_def regen_per_block_def)
next
  case False
  have "ratePerBlockOf (int w) (readCapacityConsts T) =
          int (capacity_ceiling T w) * int (RegenPerBlock T) div int (CapRatio T)"
    using False capOf_read [OF assms, of w] by (simp add: ratePerBlockOf_def) (simp add: readCapacityConsts_def)
  then show ?thesis by (simp add: regen_per_block_eq [OF assms False] of_nat_mult zdiv_int)
qed

lemma currentCapacity_read:
  assumes "cap_sane T"
  shows "currentCapacity (readCapacityInputs st who) (int now) (readCapacityConsts T) =
           int (current_capacity T st who now)"
proof (cases "CapacityRow st who")
  case None
  then show ?thesis by (simp add: currentCapacity_def readCapacityInputs_def current_capacity_def)
next
  case (Some s)
  have elapsed: "max 0 (int now - int (last_block s)) = int (now - last_block s)" by simp
  define c r where "c = capacity_ceiling T (AllowedStake st who)" and "r = regen_per_block T (AllowedStake st who)"
  have "int (cap_last s) + int r * int (now - last_block s) = int (cap_last s + r * (now - last_block s))" by simp
  then show ?thesis
    using Some elapsed
    by (simp add: currentCapacity_def readCapacityInputs_def current_capacity_def capOf_read [OF assms]
        ratePerBlockOf_read [OF assms] regenerated_eq [OF assms] Let_def min_def c_def [symmetric] r_def [symmetric]
        del: of_nat_add of_nat_mult)
qed

lemma computeView_read:
  assumes "cap_sane T"
  shows "computeView (readCapacityInputs st who) (int now) (readCapacityConsts T) =
           \<lparr>cv_weight = int (AllowedStake st who), cv_bucket = ci_bucket (readCapacityInputs st who),
            cv_cap = int (capacity_ceiling T (AllowedStake st who)),
            cv_have = int (current_capacity T st who now),
            cv_ratePerBlock = int (regen_per_block T (AllowedStake st who)), cv_at = int now\<rparr>"
  using currentCapacity_read [OF assms, of st who now] capOf_read [OF assms] ratePerBlockOf_read [OF assms]
  by (simp add: computeView_def) (simp add: readCapacityInputs_def)

text \<open>
  C13: the client's capacity number is the runtime's: replaying the bucket with unbounded integers gives
  exactly what \<open>current_capacity\<close> computes with saturating 128-bit arithmetic, at every block, for every
  account, bound or not, and so do the ceiling and the refill rate shown beside it.
\<close>

theorem capacity_replay_exact:
  assumes "cap_sane T"
  shows "computeView (readCapacityInputs st who) (int now) (readCapacityConsts T) =
           \<lparr>cv_weight = int (AllowedStake st who), cv_bucket = ci_bucket (readCapacityInputs st who),
            cv_cap = int (capacity_ceiling T (AllowedStake st who)),
            cv_have = int (current_capacity T st who now),
            cv_ratePerBlock = int (regen_per_block T (AllowedStake st who)), cv_at = int now\<rparr>"
  by (rule computeView_read [OF assms])

definition live_config :: cap_config where
  "live_config = \<lparr>CapRatio = 3000, RegenPerBlock = 1, Ceiling = 300000000000000, BaseCost = 3000000000,
     PerByteCost = 3000000, VoteCost = 1200000000, FollowCost = 600000000, ProfileCost = 30000000000, MaxBody = 512\<rparr>"

lemma cap_sane_live: "cap_sane live_config"
  by (simp add: cap_sane_def live_config_def u128_max_def)

definition drained :: cap_chain where
  "drained = \<lparr>cap_now = 100, AllowedStake = (\<lambda>_. 100000000),
     CapacityRow = (\<lambda>_. Some \<lparr>cap_last = 0, last_block = 100\<rparr>), has_profile = (\<lambda>_. False), has_pin = (\<lambda>_. False)\<rparr>"

lemma capacity_replay_exact_witness:
  "cv_have (computeView (readCapacityInputs drained ''alice'') (int 130) (readCapacityConsts live_config)) =
     int (current_capacity live_config drained ''alice'' 130)"
  using capacity_replay_exact [OF cap_sane_live, of drained "''alice''" 130] by simp

section \<open>The announced wait\<close>

lemma ceil_div_bounds:
  fixes a r :: int
  assumes "0 < a" and "0 < r"
  shows "a \<le> r * ((a + r - 1) div r)" and "j < (a + r - 1) div r \<Longrightarrow> r * j < a" and "0 < (a + r - 1) div r"
proof -
  define q where "q = (a + r - 1) div r"
  have m: "a + r - 1 = q * r + (a + r - 1) mod r" unfolding q_def by simp
  have b: "0 \<le> (a + r - 1) mod r" "(a + r - 1) mod r < r" using assms(2) by simp_all
  show "a \<le> r * q" using m b by (simp add: mult.commute) 
  show "r * j < a" if "j < q"
  proof -
    have "r * j \<le> r * (q - 1)" using that assms(2) by (intro mult_left_mono) auto
    also have "\<dots> = q * r - r" by (simp add: algebra_simps)
    also have "\<dots> < a" using m b by linarith
    finally show ?thesis .
  qed
  show "0 < q" unfolding q_def using assms by (simp add: pos_imp_zdiv_pos_iff)
qed

lemma postCost_read: "postCost (int len) (readCapacityConsts T) = int (BaseCost T + PerByteCost T * len)"
  by (simp add: postCost_def readCapacityConsts_def)

lemma current_capacity_now [simp]: "current_capacity T (st\<lparr>cap_now := t\<rparr>) who n = current_capacity T st who n"
  by (simp add: current_capacity_def split: option.split)

lemma capacity_after:
  assumes "cap_sane T" and "CapacityRow st who = Some s" and "last_block s \<le> now"
    and "current_capacity T st who now < capacity_ceiling T (AllowedStake st who)"
  shows "current_capacity T st who (now + j) =
           min (capacity_ceiling T (AllowedStake st who))
             (current_capacity T st who now + regen_per_block T (AllowedStake st who) * j)"
proof -
  have split: "now + j - last_block s = (now - last_block s) + j" using assms(3) by simp
  show ?thesis
    using assms(2,4) unfolding current_capacity_def
    by (simp add: regenerated_eq [OF assms(1)] split distrib_left min_def)
qed

lemma validate_body:
  assumes "body_of c = Some body" and "cap_sane T"
  shows "validate T st (Some who) (MicroblogCall c) ext =
     (if MaxBody T < length body \<or> MAX_METERED_CALL_LEN < ext \<or> u128_max \<le> BaseCost T + PerByteCost T * length body
      then InvalidCall
      else if current_capacity T st who (cap_now st) < BaseCost T + PerByteCost T * length body then ExhaustsResources
      else Valid (min (current_capacity T st who (cap_now st) - (BaseCost T + PerByteCost T * length body)) u64_max)
             (Some (BaseCost T + PerByteCost T * length body)))"
proof -
  have "metered_cost T c = min (BaseCost T + PerByteCost T * length body) u128_max"
    using assms(1) by (cases c) (auto simp: post_cost_def saturating_add_def saturating_mul_def min_def)
  with assms(1) show ?thesis
    by (auto simp: validate_def UNPAYABLE_def Let_def min_def)
qed

text \<open>
  C12: the countdown names the first block that can carry the post.  When the composer announces a wait of
  \<open>b\<close> blocks for a draft at the best block, the extension refuses a post, quote or poll with that body as
  over budget in every block up to the \<open>b\<close>th after the best one and accepts it in that block and in every
  later one, as long as nothing else is spent, the weight stays and the encoded extrinsic is within the
  length the extension allows.
\<close>

theorem announced_wait_exact:
  assumes "cap_sane T" and "CapacityRow st who = Some s" and "last_block s \<le> cap_now st"
    and "body_of c = Some body" and "length body \<le> MaxBody T" and "ext \<le> MAX_METERED_CALL_LEN"
    and "draftStatus (computeView (readCapacityInputs st who) (int (cap_now st)) (readCapacityConsts T))
           (int (length body)) (readCapacityConsts T) = DraftWait held need b"
    and "cap_now st \<le> n"
  shows "0 < b \<and>
    (if int n < int (cap_now st) + b
     then validate T (st\<lparr>cap_now := n\<rparr>) (Some who) (MicroblogCall c) ext = ExhaustsResources
     else accepted (validate T (st\<lparr>cap_now := n\<rparr>) (Some who) (MicroblogCall c) ext))"
proof -
  define w where "w = AllowedStake st who"
  define cap rate cur where "cap = capacity_ceiling T w" and "rate = regen_per_block T w"
    and "cur = current_capacity T st who (cap_now st)"
  define cost where "cost = BaseCost T + PerByteCost T * length body"
  obtain j where j: "n = cap_now st + j" using assms(8) by (metis le_Suc_ex)
  have view: "computeView (readCapacityInputs st who) (int (cap_now st)) (readCapacityConsts T) =
      \<lparr>cv_weight = int w, cv_bucket = ci_bucket (readCapacityInputs st who), cv_cap = int cap,
       cv_have = int cur, cv_ratePerBlock = int rate, cv_at = int (cap_now st)\<rparr>"
    using computeView_read [OF assms(1)] by (simp add: w_def cap_def rate_def cur_def)
  have facts: "cost \<le> cap" "cur < cost" "0 < rate" and b: "b = (int cost - int cur + int rate - 1) div int rate"
    using assms(7) unfolding view draftStatus_def postCost_read cost_def [symmetric]
    by (auto simp: Let_def split: if_splits)
  have "cap \<le> Ceiling T" unfolding cap_def by (rule capacity_ceiling_le)
  with facts(1) assms(1) have small: "cost < u128_max" unfolding cap_sane_def by linarith
  have after: "current_capacity T st who n = min cap (cur + rate * j)"
    using capacity_after [OF assms(1-3), of j] facts(1,2) unfolding cap_def rate_def cur_def w_def j by simp
  have verdict: "validate T (st\<lparr>cap_now := n\<rparr>) (Some who) (MicroblogCall c) ext = ExhaustsResources \<longleftrightarrow> cur + rate * j < cost"
    "accepted (validate T (st\<lparr>cap_now := n\<rparr>) (Some who) (MicroblogCall c) ext) \<longleftrightarrow> \<not> cur + rate * j < cost"
    using assms(5,6) small facts(1)
    by (auto simp: validate_body [OF assms(4,1)] accepted_def cost_def [symmetric] after)
  note ceil = ceil_div_bounds [of "int cost - int cur" "int rate", unfolded b [symmetric]]
  have pos: "0 < b" using ceil(3) facts by simp
  have "cur + rate * j < cost \<longleftrightarrow> int j < b"
  proof
    assume "int j < b"
    then have "int rate * int j < int cost - int cur" using facts by (intro ceil(2)) auto
    then show "cur + rate * j < cost" by (simp flip: of_nat_mult add: of_nat_less_iff [symmetric] del: of_nat_less_iff)
  next
    assume less: "cur + rate * j < cost"
    show "int j < b"
    proof (rule ccontr)
      assume "\<not> int j < b"
      then have "int rate * b \<le> int rate * int j" by (intro mult_left_mono) auto
      with ceil(1) facts have "int cost - int cur \<le> int rate * int j" by linarith
      moreover have "int cur + int rate * int j < int cost" using less by (metis of_nat_add of_nat_less_iff of_nat_mult)
      ultimately show False by linarith
    qed
  qed
  with verdict pos show ?thesis by (simp add: j)
qed

lemma announced_wait_exact_witness:
  "draftStatus (computeView (readCapacityInputs drained ''alice'') (int (cap_now drained)) (readCapacityConsts live_config))
     (int (length (replicate 10 (97 :: u8)))) (readCapacityConsts live_config) = DraftWait 0 3030000000 31 \<and>
   validate live_config (drained\<lparr>cap_now := 130\<rparr>) (Some ''alice'') (MicroblogCall (PostMessage (replicate 10 97) None)) 200 =
     ExhaustsResources \<and>
   accepted (validate live_config (drained\<lparr>cap_now := 131\<rparr>) (Some ''alice'') (MicroblogCall (PostMessage (replicate 10 97) None)) 200)"
proof -
  let ?c = "PostMessage (replicate 10 97) None"
  have d: "draftStatus (computeView (readCapacityInputs drained ''alice'') (int (cap_now drained)) (readCapacityConsts live_config))
     (int (length (replicate 10 (97 :: u8)))) (readCapacityConsts live_config) = DraftWait 0 3030000000 31"
    by (simp add: draftStatus_def computeView_def readCapacityInputs_def drained_def readCapacityConsts_def live_config_def
        postCost_def capOf_def currentCapacity_def ratePerBlockOf_def Let_def)
  have row: "CapacityRow drained ''alice'' = Some \<lparr>cap_last = 0, last_block = 100\<rparr>"
    "last_block \<lparr>cap_last = 0, last_block = 100\<rparr> \<le> cap_now drained" "body_of ?c = Some (replicate 10 97)"
    "length (replicate 10 (97 :: u8)) \<le> MaxBody live_config" "200 \<le> MAX_METERED_CALL_LEN"
    by (simp_all add: drained_def live_config_def MAX_METERED_CALL_LEN_def)
  have now: "cap_now drained = 100" by (simp add: drained_def)
  note at = announced_wait_exact [OF cap_sane_live row d, unfolded now]
  show ?thesis using d at [of 130] at [of 131] by (simp add: now)
qed

text \<open>
  A draft of an account without a bucket is announced as charging, with a finite wait, but the
  runtime's capacity of such an account stays empty: in no later block is the post accepted.
\<close>

theorem charging_never_due:
  assumes "cap_sane T" and "0 < BaseCost T" and "body_of c = Some body"
    and "draftStatus (computeView (readCapacityInputs st who) (int (cap_now st)) (readCapacityConsts T))
           (int (length body)) (readCapacityConsts T) = DraftCharging held need b"
  shows "\<not> accepted (validate T (st\<lparr>cap_now := later\<rparr>) (Some who) (MicroblogCall c) ext)"
proof -
  have "ci_bucket (readCapacityInputs st who) = None"
    using assms(4) by (auto simp: draftStatus_def computeView_def Let_def split: if_splits)
  then have "current_capacity T st who later = 0"
    by (simp add: readCapacityInputs_def current_capacity_def)
  with assms(2) show ?thesis by (simp add: validate_body [OF assms(3,1)] accepted_def)
qed

section \<open>The composer's gate agrees with the pool\<close>











section \<open>No credit for the time before a weight change\<close>

lemma settle_neutral:
  "current_capacity T (settle_capacity_at T who (AllowedStake st who) st) who (cap_now st) =
   current_capacity T st who (cap_now st)" if "cap_sane T"
  using that by (auto simp: settle_capacity_at_def current_capacity_def regenerated_eq split: option.splits)

lemma settle_last_block:
  "CapacityRow (settle_capacity_at T who w st) who = (case CapacityRow st who of None \<Rightarrow> None
     | Some s \<Rightarrow> Some (if last_block s = cap_now st then s
                       else \<lparr>cap_last = regenerated T w s (cap_now st), last_block = cap_now st\<rparr>))"
  by (simp add: settle_capacity_at_def split: option.split)

lemma settle_frame [simp]:
  "AllowedStake (settle_capacity_at T who w st) = AllowedStake st" "cap_now (settle_capacity_at T who w st) = cap_now st"
  by (simp_all add: settle_capacity_at_def split: option.split)

text \<open>
  C14: observing a new locked-stake weight for an account, up or down, never raises what it can spend at
  that moment, and afterwards it has a bucket, so raising the lock cannot buy back the time spent at the
  old weight.  The row must be older than this block, or within its ceiling.
\<close>

theorem observed_weight_no_retro_credit:
  assumes "cap_sane T"
    and "\<And>s. CapacityRow st who = Some s \<Longrightarrow>
           last_block s < cap_now st \<or> last_block s = cap_now st \<and> cap_last s \<le> capacity_ceiling T (AllowedStake st who)"
  shows "current_capacity T (apply_observed_weight T who weight st) who (cap_now st) \<le> current_capacity T st who (cap_now st) \<and>
         (\<exists>s. CapacityRow (apply_observed_weight T who weight st) who = Some s \<and> last_block s \<le> cap_now st) \<and>
         AllowedStake (apply_observed_weight T who weight st) who = weight"
proof (cases "AllowedStake st who = weight")
  case True
  then have "apply_observed_weight T who weight st = on_first_bind who st"
    by (simp add: apply_observed_weight_def)
  with True assms(2) show ?thesis
    by (cases "CapacityRow st who")
      (force simp: on_first_bind_def current_capacity_def regenerated_eq [OF assms(1)])+
next
  case False
  define st1 where "st1 = (settle_capacity_at T who (AllowedStake st who) st)
      \<lparr>AllowedStake := (AllowedStake st)(who := weight)\<rparr>"
  have eq: "apply_observed_weight T who weight st = on_first_bind who st1"
    using False by (simp add: apply_observed_weight_def st1_def Let_def)
  have st1: "AllowedStake st1 who = weight" "cap_now st1 = cap_now st"
    "CapacityRow st1 who = CapacityRow (settle_capacity_at T who (AllowedStake st who) st) who"
    by (simp_all add: st1_def)
  show ?thesis
  proof (cases "CapacityRow st who")
    case None
    then have "CapacityRow st1 who = None" by (simp add: st1(3) settle_last_block)
    with st1 show ?thesis
      by (simp add: eq on_first_bind_def current_capacity_def None regenerated_eq [OF assms(1)])
  next
    case (Some s)
    define c where "c = regenerated T (AllowedStake st who) s (cap_now st)"
    have row: "CapacityRow st1 who = Some (if last_block s = cap_now st then s else \<lparr>cap_last = c, last_block = cap_now st\<rparr>)"
      using Some by (simp add: st1(3) settle_last_block c_def)
    then have "on_first_bind who st1 = st1" by (simp add: on_first_bind_def)
    moreover have "current_capacity T st who (cap_now st) = c" using Some by (simp add: current_capacity_def c_def)
    moreover have "current_capacity T st1 who (cap_now st) \<le> c"
      using assms(2) [OF Some] row st1(1)
      by (auto simp: current_capacity_def regenerated_eq [OF assms(1)] c_def)
    ultimately show ?thesis using row st1 by (simp add: eq)
  qed
qed

lemma observed_weight_no_retro_credit_witness:
  "current_capacity live_config (apply_observed_weight live_config ''alice'' 900000000 (drained\<lparr>cap_now := 400\<rparr>)) ''alice'' 400
     \<le> current_capacity live_config (drained\<lparr>cap_now := 400\<rparr>) ''alice'' 400"
  using observed_weight_no_retro_credit [OF cap_sane_live, of "drained\<lparr>cap_now := 400\<rparr>" "''alice''" 900000000]
  by (simp add: drained_def)

end
