(* ===== verification/Session_Gate.thy ===== *)
theory Session_Gate
  imports Cogno_Types Unicode
begin

text \<open>
  Who the viewer is and what they may do.  First the pure gates: the session state
  (\<open>app/src/lib/session.ts\<close>), the setup funnel (\<open>setup-status.ts\<close>), the mode of a write control
  (\<open>writeAffordance.ts\<close>), the coarse status and the write gate of \<open>Providers.tsx\<close>, the zero-weight notice
  (\<open>voteWeightNotice.ts\<close>) and the adoption rule of \<open>sessionReconcile.ts\<close>.  Then the posting key of one
  browser tab (\<open>hooks/useSigner.ts\<close> over the record of \<open>sessionRestore.ts\<close>) as a transition system: the
  wallet prompts in flight, their abandonment by generation, the cross-tab record, sign-out and its
  adoption by other tabs.  The wallet itself (what it derives and answers) is the input of the events.
\<close>

section \<open>The session state\<close>

datatype session_state =
  Disconnected | Connecting | ConnectedUnbound | Binding | Bound | BoundNoStake | BoundStaked

record signer_state =
  ss_deriving :: bool
  ss_postingEnabled :: bool
  ss_walletConnected :: bool

record identity_state =
  id_bound :: "bool option"
  id_binding :: bool
  id_stakeBound :: "bool option"

definition deriveSessionState :: "signer_state \<Rightarrow> identity_state \<Rightarrow> session_state" where
  "deriveSessionState s i =
     (if ss_deriving s then Connecting
      else if \<not> ss_postingEnabled s then Disconnected
      else if id_binding i then Binding
      else if id_bound i = Some False then ConnectedUnbound
      else if id_bound i = Some True then (if id_stakeBound i = Some True then BoundStaked else BoundNoStake)
      else Disconnected)"

datatype viewer_status = NotConnected | NotIdentityBound | Ready

fun viewerStatusOf :: "session_state \<Rightarrow> viewer_status" where
  "viewerStatusOf Disconnected = NotConnected"
| "viewerStatusOf Connecting = NotConnected"
| "viewerStatusOf ConnectedUnbound = NotIdentityBound"
| "viewerStatusOf Binding = NotIdentityBound"
| "viewerStatusOf Bound = Ready"
| "viewerStatusOf BoundNoStake = Ready"
| "viewerStatusOf BoundStaked = Ready"

definition writeReady :: "identity_state \<Rightarrow> int option \<Rightarrow> bool" where
  "writeReady i postingPower \<longleftrightarrow> id_bound i = Some True \<and> 0 < coalesce postingPower 0"

text \<open>
  The posting-power watch of the provider: unresolved on a change of account or socket, the value on an
  emission, zero but not known on an error.
\<close>

record power =
  pw_value :: "int option"
  pw_known :: bool

definition power_unresolved :: power where "power_unresolved = \<lparr>pw_value = None, pw_known = False\<rparr>"
definition power_emitted :: "int option \<Rightarrow> power" where "power_emitted w = \<lparr>pw_value = Some (coalesce w 0), pw_known = True\<rparr>"
definition power_failed :: power where "power_failed = \<lparr>pw_value = Some 0, pw_known = False\<rparr>"

section \<open>The setup funnel\<close>

datatype setup_phase = PDisconnected | PConnecting | PUnbound | PBinding | PCheckingPower | PCrediting | PNeedsPower | PReady

datatype setup_action = ActConnect ustring | ActBind ustring | ActLock ustring

record setup_status =
  st_phase :: setup_phase
  st_ready :: bool
  st_headline :: ustring
  st_detail :: ustring
  st_next :: "setup_action option"
  st_votingPowerLinked :: "bool option"

definition LOCK_ADA_WHOLE :: ustring where "LOCK_ADA_WHOLE = ascii ''100''"

definition boundStatus :: "bool option \<Rightarrow> int option \<Rightarrow> bool \<Rightarrow> ustring option \<Rightarrow> setup_status" where
  "boundStatus stakeBound postingPower pending creditWindow =
     (if (case postingPower of Some p \<Rightarrow> 0 < p | None \<Rightarrow> False) then
        \<lparr>st_phase = PReady, st_ready = True, st_headline = ascii ''You'' @ [39] @ ascii ''re all set'',
         st_detail = ascii ''You can post, vote, and follow.'', st_next = None, st_votingPowerLinked = stakeBound\<rparr>
      else if postingPower = None then
        \<lparr>st_phase = PCheckingPower, st_ready = False, st_headline = ascii ''Almost there'',
         st_detail = ascii ''Checking your posting power'' @ [0x2026], st_next = None, st_votingPowerLinked = stakeBound\<rparr>
      else if pending then
        \<lparr>st_phase = PCrediting, st_ready = False, st_headline = ascii ''Posting power crediting'',
         st_detail = (case creditWindow of
            Some c \<Rightarrow> if c = [] then ascii ''Lock confirmed on Cardano. Posting unlocks once the network credits it.''
              else ascii ''Lock confirmed on Cardano. Posting unlocks '' @ c @ ascii '' after it confirmed.''
          | None \<Rightarrow> ascii ''Lock confirmed on Cardano. Posting unlocks once the network credits it.''),
         st_next = None, st_votingPowerLinked = stakeBound\<rparr>
      else
        \<lparr>st_phase = PNeedsPower, st_ready = False, st_headline = ascii ''One step left to post'',
         st_detail = ascii ''Lock '' @ LOCK_ADA_WHOLE @ ascii '' ADA to get posting power.'',
         st_next = Some (ActLock (ascii ''Lock ADA'')), st_votingPowerLinked = stakeBound\<rparr>)"

definition setupStatus :: "session_state \<Rightarrow> int option \<Rightarrow> bool option \<Rightarrow> bool \<Rightarrow> ustring option \<Rightarrow> setup_status" where
  "setupStatus state postingPower stakeBound pending creditWindow = (case state of
     Disconnected \<Rightarrow>
       \<lparr>st_phase = PDisconnected, st_ready = False, st_headline = ascii ''Not connected'',
        st_detail = ascii ''Connect a Cardano wallet to post.'',
        st_next = Some (ActConnect (ascii ''Connect wallet'')), st_votingPowerLinked = stakeBound\<rparr>
   | Connecting \<Rightarrow>
       \<lparr>st_phase = PConnecting, st_ready = False, st_headline = ascii ''Connecting'' @ [0x2026],
        st_detail = ascii ''Approve the signature in your wallet.'', st_next = None, st_votingPowerLinked = stakeBound\<rparr>
   | ConnectedUnbound \<Rightarrow>
       \<lparr>st_phase = PUnbound, st_ready = False, st_headline = ascii ''Register your account'',
        st_detail = ascii ''Your wallet signs once to prove it'' @ [39] @ ascii ''s yours.'',
        st_next = Some (ActBind (ascii ''Finish setup'')), st_votingPowerLinked = stakeBound\<rparr>
   | Binding \<Rightarrow>
       \<lparr>st_phase = PBinding, st_ready = False, st_headline = ascii ''Finishing setup'' @ [0x2026],
        st_detail = ascii ''Registering your identity.'', st_next = None, st_votingPowerLinked = stakeBound\<rparr>
   | _ \<Rightarrow> boundStatus stakeBound postingPower pending creditWindow)"

section \<open>Write controls\<close>

datatype affordance_mode = Live | Invite | Blocked

definition affordanceFor :: "viewer_status \<Rightarrow> bool \<Rightarrow> affordance_mode" where
  "affordanceFor status writeOk = (if writeOk then Live else if status = NotConnected then Invite else Blocked)"

datatype write_action = Reply | Quote | VoteAction | FollowAction | PostAction

fun VERB :: "write_action \<Rightarrow> ustring" where
  "VERB Reply = ascii ''reply''"
| "VERB Quote = ascii ''quote''"
| "VERB VoteAction = ascii ''vote''"
| "VERB FollowAction = ascii ''follow''"
| "VERB PostAction = ascii ''post''"

fun affordanceTitle :: "affordance_mode \<Rightarrow> write_action \<Rightarrow> ustring option" where
  "affordanceTitle Live a = None"
| "affordanceTitle Invite a = Some (ascii ''Sign in to '' @ VERB a)"
| "affordanceTitle Blocked a = Some (ascii ''Finish setup to '' @ VERB a)"

definition shouldWarnZeroWeight :: "int option \<Rightarrow> bool" where
  "shouldWarnZeroWeight votingPower = (case votingPower of None \<Rightarrow> False | Some p \<Rightarrow> p = 0)"

text \<open>
  Every surface answers the question whether this viewer may write the same way: once the key is
  derived and no bind is in flight, the setup funnel says ready, the shared write gate is open and the
  controls are live in exactly the same situations, namely for a bound account with posting power; a
  failed or unfinished power read keeps all of them closed, and the stake bind never matters.
\<close>

lemma write_gates_agree:
  fixes i :: identity_state and p :: power and pending :: bool and cw :: "ustring option"
  assumes "\<not> ss_deriving s" and "ss_postingEnabled s" and "\<not> id_binding i"
  shows "let state = deriveSessionState s i;
             ready = st_ready (setupStatus state (pw_value p) (id_stakeBound i) pending cw);
             mode = affordanceFor (viewerStatusOf state) (writeReady i (pw_value p))
         in (ready \<longleftrightarrow> mode = Live) \<and> (ready \<longleftrightarrow> id_bound i = Some True \<and> (\<exists>w > 0. pw_value p = Some w)) \<and>
            (p = power_failed \<or> p = power_unresolved \<longrightarrow> \<not> ready) \<and>
            deriveSessionState s (i\<lparr>id_stakeBound := sb\<rparr>) \<in>
              (if id_bound i = Some True then {BoundNoStake, BoundStaked} else {state})"
proof -
  consider "id_bound i = None" | "id_bound i = Some False" | "id_bound i = Some True" by (cases "id_bound i") auto
  then show ?thesis
    by cases (use assms in \<open>auto simp: Let_def deriveSessionState_def setupStatus_def boundStatus_def affordanceFor_def
        writeReady_def power_failed_def power_unresolved_def split: option.splits\<close>)
qed

lemma write_gates_agree_witness:
  "st_ready (setupStatus (deriveSessionState \<lparr>ss_deriving = False, ss_postingEnabled = True, ss_walletConnected = True\<rparr>
       \<lparr>id_bound = Some True, id_binding = False, id_stakeBound = None\<rparr>) (pw_value (power_emitted (Some 5))) None False None)"
  using write_gates_agree [of "\<lparr>ss_deriving = False, ss_postingEnabled = True, ss_walletConnected = True\<rparr>"
      "\<lparr>id_bound = Some True, id_binding = False, id_stakeBound = None\<rparr>" "power_emitted (Some 5)" False None]
  by (simp add: Let_def power_emitted_def affordanceFor_def writeReady_def)

section \<open>The adoption rule\<close>

record sign_out_adoption_input =
  ai_hydrated :: bool
  ai_chosenSs58 :: "ss58 option"
  ai_devChosen :: bool
  ai_recordSs58 :: "ss58 option"
  ai_recordSeen :: bool

definition shouldAdoptSignOut :: "sign_out_adoption_input \<Rightarrow> bool" where
  "shouldAdoptSignOut inp =
     (if \<not> ai_hydrated inp then False
      else if ai_chosenSs58 inp = None then False
      else if ai_devChosen inp then False
      else if \<not> ai_recordSeen inp then False
      else ai_recordSs58 inp \<noteq> ai_chosenSs58 inp)"

section \<open>The posting key of one tab\<close>

datatype signer_kind = Derived | Restored | Dev

record posting_signer =
  s_ss58 :: ss58
  s_publicKeyHex :: string
  s_kind :: signer_kind

record restored_session =
  rs_walletId :: string
  rs_ss58 :: ss58
  rs_publicKeyHex :: string
  rs_walletAddress :: string
  rs_walletAddressHex :: string

datatype probe_state = ProbePending | ProbeSettled | ProbeMismatched

text \<open>A wallet prompt that has not settled: a connect or an unlock, with the generation it was started in.\<close>

datatype prompt = ConnectPrompt string nat | UnlockPrompt restored_session nat

fun prompt_gen :: "prompt \<Rightarrow> nat" where
  "prompt_gen (ConnectPrompt _ g) = g"
| "prompt_gen (UnlockPrompt _ g) = g"

text \<open>
  The tab, the device's storage of the session record (which may refuse writes) and the prompts in
  flight.  \<open>sg_record\<close> is the tab's snapshot of the store, \<open>sg_slot\<close> the generation of the unlock promise
  held for single flight.
\<close>

record signer_tab =
  sg_chosen :: "posting_signer option"
  sg_walletId :: "string option"
  sg_walletAddress :: "string option"
  sg_deriving :: bool
  sg_unlocking :: bool
  sg_error :: "string option"
  sg_devChosen :: bool
  sg_record :: "restored_session option"
  sg_hydrated :: bool
  sg_probe :: probe_state
  sg_gen :: nat
  sg_slot :: "nat option"
  sg_recordSeen :: bool
  sg_prompts :: "prompt list"
  sg_disk :: "restored_session option"
  sg_writable :: bool

text \<open>\<open>commit\<close> of the persistent store: the snapshot always, the disk if it can.\<close>

definition commit_record :: "restored_session option \<Rightarrow> signer_tab \<Rightarrow> signer_tab" where
  "commit_record r t = t\<lparr>sg_record := r, sg_disk := (if sg_writable t then r else sg_disk t)\<rparr>"

definition saveRestoredSession :: "restored_session \<Rightarrow> signer_tab \<Rightarrow> signer_tab" where
  "saveRestoredSession r t = commit_record (Some r) t"

definition clearRestoredSession :: "signer_tab \<Rightarrow> signer_tab" where
  "clearRestoredSession t = (if sg_record t = None then t else commit_record None t)"

definition restoredSigner :: "signer_tab \<Rightarrow> posting_signer option" where
  "restoredSigner t = (case sg_record t of
     Some r \<Rightarrow> if sg_probe t \<noteq> ProbeMismatched
              then Some \<lparr>s_ss58 = rs_ss58 r, s_publicKeyHex = rs_publicKeyHex r, s_kind = Restored\<rparr> else None
   | None \<Rightarrow> None)"

definition activeSigner :: "posting_signer \<Rightarrow> signer_tab \<Rightarrow> posting_signer" where
  "activeSigner fallback t = (case sg_chosen t of Some s \<Rightarrow> s | None \<Rightarrow> coalesce (restoredSigner t) fallback)"

definition postingEnabled :: "posting_signer \<Rightarrow> signer_tab \<Rightarrow> bool" where
  "postingEnabled fallback t \<longleftrightarrow>
     s_kind (activeSigner fallback t) = Derived \<or> s_kind (activeSigner fallback t) = Restored \<or> sg_devChosen t"

definition canSign :: "posting_signer \<Rightarrow> signer_tab \<Rightarrow> bool" where
  "canSign fallback t \<longleftrightarrow> s_kind (activeSigner fallback t) \<noteq> Restored"

definition restoring :: "posting_signer \<Rightarrow> signer_tab \<Rightarrow> bool" where
  "restoring fallback t \<longleftrightarrow>
     \<not> sg_hydrated t \<or> (s_kind (activeSigner fallback t) = Restored \<and> sg_probe t = ProbePending)"

subsection \<open>Its operations\<close>

definition connect_start :: "string \<Rightarrow> signer_tab \<Rightarrow> signer_tab" where
  "connect_start wid t =
     (let g = Suc (sg_gen t)
      in t\<lparr>sg_gen := g, sg_deriving := True, sg_error := None, sg_prompts := ConnectPrompt wid g # sg_prompts t\<rparr>)"

definition connect_ok :: "string \<Rightarrow> nat \<Rightarrow> posting_signer \<Rightarrow> string \<Rightarrow> string \<Rightarrow> signer_tab \<Rightarrow> signer_tab" where
  "connect_ok wid g s addr addrHex t =
     (if sg_gen t \<noteq> g then t
      else (saveRestoredSession
             \<lparr>rs_walletId = wid, rs_ss58 = s_ss58 s, rs_publicKeyHex = s_publicKeyHex s,
              rs_walletAddress = addr, rs_walletAddressHex = addrHex\<rparr>
             (t\<lparr>sg_chosen := Some s, sg_devChosen := False, sg_walletId := Some wid,
                sg_walletAddress := Some addr, sg_probe := ProbeSettled\<rparr>))\<lparr>sg_deriving := False\<rparr>)"

definition connect_err :: "nat \<Rightarrow> string \<Rightarrow> signer_tab \<Rightarrow> signer_tab" where
  "connect_err g msg t = (if sg_gen t \<noteq> g then t else t\<lparr>sg_error := Some msg, sg_deriving := False\<rparr>)"

text \<open>\<open>unlock\<close> up to its first suspension: the signer it has, the promise it joins, a refusal, or a new prompt.\<close>

datatype unlock_answer = HasSeed posting_signer | Joins nat | NoSession | Prompts nat

definition unlock :: "signer_tab \<Rightarrow> unlock_answer \<times> signer_tab" where
  "unlock t = (case sg_chosen t of
     Some s \<Rightarrow> (HasSeed s, t)
   | None \<Rightarrow> (case sg_slot t of
       Some g \<Rightarrow> (Joins g, t)
     | None \<Rightarrow> (case sg_record t of
         None \<Rightarrow> (NoSession, t)
       | Some r \<Rightarrow>
           let g = Suc (sg_gen t)
           in (Prompts g, t\<lparr>sg_gen := g, sg_unlocking := True, sg_error := None, sg_slot := Some g,
                            sg_prompts := UnlockPrompt r g # sg_prompts t\<rparr>))))"

text \<open>The \<open>finally\<close> of the unlock: only the current generation owns the spinner and the slot.\<close>

definition unlock_release :: "nat \<Rightarrow> signer_tab \<Rightarrow> signer_tab" where
  "unlock_release g t = (if sg_gen t = g then t\<lparr>sg_unlocking := False, sg_slot := None\<rparr> else t)"

definition unlock_err :: "nat \<Rightarrow> string \<Rightarrow> signer_tab \<Rightarrow> signer_tab" where
  "unlock_err g msg t = unlock_release g (if sg_gen t = g then t\<lparr>sg_error := Some msg\<rparr> else t)"

definition unlock_ok :: "restored_session \<Rightarrow> nat \<Rightarrow> posting_signer \<Rightarrow> string \<Rightarrow> string \<Rightarrow> signer_tab \<Rightarrow> signer_tab" where
  "unlock_ok r g s addr addrHex t =
     (if sg_gen t \<noteq> g then unlock_err g ''the session ended before the signature arrived'' t
      else if s_ss58 s \<noteq> rs_ss58 r then
        unlock_err g ''this wallet is now on a different account. Sign in again to post from it''
          ((clearRestoredSession t)\<lparr>sg_probe := ProbeMismatched\<rparr>)
      else unlock_release g
        (saveRestoredSession
          \<lparr>rs_walletId = rs_walletId r, rs_ss58 = s_ss58 s, rs_publicKeyHex = s_publicKeyHex s,
           rs_walletAddress = addr, rs_walletAddressHex = addrHex\<rparr>
          (t\<lparr>sg_chosen := Some s, sg_walletId := Some (rs_walletId r), sg_walletAddress := Some addr\<rparr>)))"

definition drop_key :: "signer_tab \<Rightarrow> signer_tab" where
  "drop_key t = t\<lparr>sg_gen := Suc (sg_gen t), sg_slot := None, sg_deriving := False, sg_unlocking := False,
     sg_walletId := None, sg_walletAddress := None, sg_error := None, sg_chosen := None, sg_probe := ProbePending,
     sg_recordSeen := False\<rparr>"

definition disconnect :: "signer_tab \<Rightarrow> signer_tab" where
  "disconnect t = clearRestoredSession ((drop_key t)\<lparr>sg_devChosen := False\<rparr>)"

definition adoption_input :: "signer_tab \<Rightarrow> sign_out_adoption_input" where
  "adoption_input t = \<lparr>ai_hydrated = sg_hydrated t, ai_chosenSs58 = map_option s_ss58 (sg_chosen t),
     ai_devChosen = sg_devChosen t, ai_recordSs58 = map_option rs_ss58 (sg_record t), ai_recordSeen = sg_recordSeen t\<rparr>"

definition adopt_effect :: "signer_tab \<Rightarrow> signer_tab" where
  "adopt_effect t =
     (if sg_chosen t \<noteq> None \<and> sg_record t \<noteq> None \<and> map_option rs_ss58 (sg_record t) = map_option s_ss58 (sg_chosen t)
      then t\<lparr>sg_recordSeen := True\<rparr>
      else if \<not> shouldAdoptSignOut (adoption_input t) then t
      else drop_key t)"

definition adopt_wallet :: "signer_tab \<Rightarrow> signer_tab" where
  "adopt_wallet t = (case (sg_chosen t, sg_record t) of
     (None, Some r) \<Rightarrow> t\<lparr>sg_walletId := Some (rs_walletId r), sg_walletAddress := Some (rs_walletAddress r)\<rparr>
   | _ \<Rightarrow> t)"

definition setDevAccount :: "posting_signer \<Rightarrow> signer_tab \<Rightarrow> signer_tab" where
  "setDevAccount s t =
     t\<lparr>sg_error := None, sg_walletId := None, sg_walletAddress := None, sg_devChosen := True, sg_chosen := Some s\<rparr>"

datatype probe_answer = ProbeAddress string | ProbeOther | ProbeUnavailable

definition probe_answered :: "probe_answer \<Rightarrow> signer_tab \<Rightarrow> signer_tab" where
  "probe_answered p t = (case (sg_record t, sg_chosen t) of
     (Some r, None) \<Rightarrow>
       if (case p of ProbeAddress a \<Rightarrow> a \<noteq> rs_walletAddressHex r | ProbeOther \<Rightarrow> True | ProbeUnavailable \<Rightarrow> False)
       then (clearRestoredSession t)\<lparr>sg_probe := ProbeMismatched\<rparr>
       else t\<lparr>sg_probe := ProbeSettled\<rparr>
   | _ \<Rightarrow> t)"

definition probe_timeout :: "signer_tab \<Rightarrow> signer_tab" where
  "probe_timeout t = (case (sg_record t, sg_chosen t) of
     (Some r, None) \<Rightarrow> if sg_probe t = ProbePending then t\<lparr>sg_probe := ProbeSettled\<rparr> else t
   | _ \<Rightarrow> t)"

text \<open>Another tab wrote the record: the disk changes and the storage event reloads the snapshot.\<close>

definition foreign_write :: "restored_session option \<Rightarrow> signer_tab \<Rightarrow> signer_tab" where
  "foreign_write r t = t\<lparr>sg_disk := r, sg_record := r\<rparr>"

subsection \<open>As a transition system\<close>

datatype signer_event =
    ConnectStart string | Settles prompt "posting_signer \<times> string \<times> string" | Fails prompt string | UnlockCall
  | Disconnect | AdoptEffect | AdoptWallet | DevAccount posting_signer | ProbeAnswered probe_answer | ProbeTimeout
  | ForeignWrite "restored_session option" | Hydrate

definition settle :: "prompt \<Rightarrow> signer_tab \<Rightarrow> signer_tab" where
  "settle p t = t\<lparr>sg_prompts := remove1 p (sg_prompts t)\<rparr>"

fun signer_step :: "signer_event \<Rightarrow> signer_tab \<Rightarrow> signer_tab" where
  "signer_step (ConnectStart wid) t = connect_start wid t"
| "signer_step (Settles p (s, addr, hex)) t =
     (if p \<in> set (sg_prompts t)
      then (case p of ConnectPrompt wid g \<Rightarrow> connect_ok wid g s addr hex (settle p t)
                    | UnlockPrompt r g \<Rightarrow> unlock_ok r g s addr hex (settle p t))
      else t)"
| "signer_step (Fails p msg) t =
     (if p \<in> set (sg_prompts t)
      then (case p of ConnectPrompt wid g \<Rightarrow> connect_err g msg (settle p t)
                    | UnlockPrompt r g \<Rightarrow> unlock_err g msg (settle p t))
      else t)"
| "signer_step UnlockCall t = snd (unlock t)"
| "signer_step Disconnect t = disconnect t"
| "signer_step AdoptEffect t = adopt_effect t"
| "signer_step AdoptWallet t = adopt_wallet t"
| "signer_step (DevAccount s) t = setDevAccount s t"
| "signer_step (ProbeAnswered p) t = probe_answered p t"
| "signer_step ProbeTimeout t = probe_timeout t"
| "signer_step (ForeignWrite r) t = foreign_write r t"
| "signer_step Hydrate t = t\<lparr>sg_hydrated := True\<rparr>"

definition signer_run :: "signer_event list \<Rightarrow> signer_tab \<Rightarrow> signer_tab" where
  "signer_run es t = fold signer_step es t"

definition fresh_tab :: "restored_session option \<Rightarrow> bool \<Rightarrow> signer_tab" where
  "fresh_tab r w = \<lparr>sg_chosen = None, sg_walletId = None, sg_walletAddress = None, sg_deriving = False,
     sg_unlocking = False, sg_error = None, sg_devChosen = False, sg_record = r, sg_hydrated = False,
     sg_probe = ProbePending, sg_gen = 0, sg_slot = None, sg_recordSeen = False, sg_prompts = [],
     sg_disk = r, sg_writable = w\<rparr>"

subsection \<open>Sign-out is final\<close>

lemmas signer_defs = connect_start_def connect_ok_def connect_err_def unlock_release_def unlock_err_def unlock_ok_def
  drop_key_def disconnect_def adopt_effect_def adopt_wallet_def setDevAccount_def probe_answered_def probe_timeout_def
  foreign_write_def settle_def saveRestoredSession_def clearRestoredSession_def commit_record_def Let_def

definition prompts_ok :: "signer_tab \<Rightarrow> bool" where
  "prompts_ok t \<longleftrightarrow> (\<forall>p \<in> set (sg_prompts t). prompt_gen p \<le> sg_gen t)"

lemma prompts_ok_intro:
  "prompts_ok t \<Longrightarrow> set (sg_prompts t') \<subseteq> set (sg_prompts t) \<Longrightarrow> sg_gen t \<le> sg_gen t' \<Longrightarrow> prompts_ok t'"
  unfolding prompts_ok_def by (meson le_trans subsetD)

lemma frame_record [simp]:
  "sg_prompts (clearRestoredSession t) = sg_prompts t" "sg_gen (clearRestoredSession t) = sg_gen t"
  "sg_prompts (saveRestoredSession r t) = sg_prompts t" "sg_gen (saveRestoredSession r t) = sg_gen t"
  "sg_prompts (unlock_release g t) = sg_prompts t" "sg_gen (unlock_release g t) = sg_gen t"
  "sg_prompts (unlock_err g m t) = sg_prompts t" "sg_gen (unlock_err g m t) = sg_gen t"
  by (simp_all add: clearRestoredSession_def saveRestoredSession_def commit_record_def unlock_release_def unlock_err_def)

lemma prompts_ok_step: "prompts_ok t \<Longrightarrow> prompts_ok (signer_step e t)"
proof (cases e)
  case (ConnectStart w)
  then show "prompts_ok t \<Longrightarrow> ?thesis" by (auto simp: connect_start_def prompts_ok_def Let_def)
next
  case (Settles p d)
  obtain s a h where d: "d = (s, a, h)" by (cases d)
  assume ok: "prompts_ok t"
  have "set (sg_prompts (signer_step e t)) \<subseteq> set (sg_prompts t)" "sg_gen t \<le> sg_gen (signer_step e t)"
    using set_remove1_subset [of p "sg_prompts t"]
    by (auto simp: Settles d connect_ok_def unlock_ok_def settle_def split: prompt.split)
  with ok show ?thesis by (rule prompts_ok_intro)
next
  case (Fails p m)
  assume ok: "prompts_ok t"
  have "set (sg_prompts (signer_step e t)) \<subseteq> set (sg_prompts t)" "sg_gen t \<le> sg_gen (signer_step e t)"
    using set_remove1_subset [of p "sg_prompts t"]
    by (auto simp: Fails connect_err_def settle_def split: prompt.split)
  with ok show ?thesis by (rule prompts_ok_intro)
next
  case UnlockCall
  then show "prompts_ok t \<Longrightarrow> ?thesis" by (auto simp: unlock_def prompts_ok_def Let_def split: option.splits)
qed (auto simp: prompts_ok_def disconnect_def drop_key_def adopt_effect_def adopt_wallet_def setDevAccount_def
    probe_answered_def probe_timeout_def foreign_write_def le_Suc_eq split: option.splits)

lemma prompts_ok_run: "prompts_ok t \<Longrightarrow> prompts_ok (signer_run es t)"
  unfolding signer_run_def by (induction es arbitrary: t) (simp_all add: prompts_ok_step)

text \<open>A tab with no identity, every prompt of which is abandoned.\<close>

definition signed_out :: "signer_tab \<Rightarrow> bool" where
  "signed_out t \<longleftrightarrow> sg_chosen t = None \<and> sg_record t = None \<and> \<not> sg_devChosen t \<and> sg_slot t = None \<and>
     (\<forall>p \<in> set (sg_prompts t). prompt_gen p < sg_gen t)"

text \<open>Events that are not a new sign-in: no connect, no dev account, no record written by another tab.\<close>

fun quiet :: "signer_event \<Rightarrow> bool" where
  "quiet (ConnectStart _) = False"
| "quiet (DevAccount _) = False"
| "quiet (ForeignWrite (Some _)) = False"
| "quiet _ = True"

lemma signed_out_disconnect: "prompts_ok t \<Longrightarrow> signed_out (disconnect t)"
  by (auto simp: signed_out_def prompts_ok_def disconnect_def clearRestoredSession_def commit_record_def drop_key_def
      less_Suc_eq_le)

lemma signed_out_step:
  assumes "signed_out t" and "quiet e"
  shows "signed_out (signer_step e t) \<and> (sg_disk (signer_step e t) = sg_disk t \<or> sg_disk (signer_step e t) = None)"
proof (cases e)
  case (Settles p d)
  obtain s a h where d: "d = (s, a, h)" by (cases d)
  have stale: "prompt_gen p \<noteq> sg_gen t" if "p \<in> set (sg_prompts t)" using assms(1) that by (auto simp: signed_out_def)
  have "set (remove1 p (sg_prompts t)) \<subseteq> set (sg_prompts t)" by (rule set_remove1_subset)
  with assms(1) stale show ?thesis
    by (cases p) (auto simp: Settles d signed_out_def connect_ok_def unlock_ok_def unlock_err_def unlock_release_def settle_def)
next
  case (Fails p m)
  have stale: "prompt_gen p \<noteq> sg_gen t" if "p \<in> set (sg_prompts t)" using assms(1) that by (auto simp: signed_out_def)
  have "set (remove1 p (sg_prompts t)) \<subseteq> set (sg_prompts t)" by (rule set_remove1_subset)
  with assms(1) stale show ?thesis
    by (cases p) (auto simp: Fails signed_out_def connect_err_def unlock_err_def unlock_release_def settle_def)
next
  case (ForeignWrite r)
  with assms show ?thesis by (cases r) (auto simp: signed_out_def foreign_write_def)
qed (use assms in \<open>auto simp: signed_out_def unlock_def disconnect_def drop_key_def clearRestoredSession_def adopt_effect_def
    adoption_input_def shouldAdoptSignOut_def adopt_wallet_def probe_answered_def probe_timeout_def less_Suc_eq\<close>)

lemma signed_out_run:
  "signed_out t \<Longrightarrow> list_all quiet es \<Longrightarrow>
   signed_out (signer_run es t) \<and> (sg_disk (signer_run es t) = sg_disk t \<or> sg_disk (signer_run es t) = None)"
  unfolding signer_run_def
proof (induction es arbitrary: t)
  case (Cons e es)
  with signed_out_step [of t e] show ?case by fastforce
qed simp

text \<open>
  C15: signing out is final.  Whatever the tab did before, with however many wallet prompts still open,
  after a sign-out no approval, refusal, probe answer or repeated unlock brings a key or a record back
  until the user signs in again: posting stays off and the device's record stays erased.
\<close>

theorem sign_out_is_final:
  assumes "t = signer_run es0 (fresh_tab r w)" and "list_all quiet es" and "s_kind fallback = Dev"
  shows "\<not> postingEnabled fallback (signer_run es (disconnect t)) \<and>
         fst (unlock (signer_run es (disconnect t))) = NoSession \<and>
         (sg_writable t \<and> sg_record t \<noteq> None \<longrightarrow> sg_disk (signer_run es (disconnect t)) = None)"
proof -
  have "prompts_ok (fresh_tab r w)" by (simp add: prompts_ok_def fresh_tab_def)
  then have "prompts_ok t" unfolding assms(1) by (rule prompts_ok_run)
  from signed_out_run [OF signed_out_disconnect [OF this] assms(2)]
  have out: "signed_out (signer_run es (disconnect t))"
    and disk: "sg_disk (signer_run es (disconnect t)) = sg_disk (disconnect t) \<or> sg_disk (signer_run es (disconnect t)) = None"
    by auto
  have "sg_disk (disconnect t) = None" if "sg_writable t" "sg_record t \<noteq> None"
    using that by (auto simp: disconnect_def clearRestoredSession_def commit_record_def drop_key_def)
  with out disk assms(3) show ?thesis
    by (auto simp: signed_out_def postingEnabled_def activeSigner_def restoredSigner_def unlock_def)
qed

definition demo_session :: restored_session where
  "demo_session = \<lparr>rs_walletId = ''eternl'', rs_ss58 = ''5Alice'', rs_publicKeyHex = ''0xaa'',
     rs_walletAddress = ''addr1'', rs_walletAddressHex = ''01''\<rparr>"

definition demo_signer :: posting_signer where
  "demo_signer = \<lparr>s_ss58 = ''5Alice'', s_publicKeyHex = ''0xaa'', s_kind = Derived\<rparr>"

definition demo_dev :: posting_signer where
  "demo_dev = \<lparr>s_ss58 = ''5Dev'', s_publicKeyHex = ''0xdd'', s_kind = Dev\<rparr>"

lemma sign_out_is_final_witness:
  "\<not> postingEnabled demo_dev (signer_run [Settles (UnlockPrompt demo_session 1) (demo_signer, ''addr1'', ''01'')]
       (disconnect (signer_run [Hydrate, UnlockCall] (fresh_tab (Some demo_session) True))))"
  using sign_out_is_final [OF refl, of "[Settles (UnlockPrompt demo_session 1) (demo_signer, ''addr1'', ''01'')]" demo_dev
      "[Hydrate, UnlockCall]" "Some demo_session" True]
  by (simp add: demo_dev_def)

subsection \<open>Another tab signs out, or signs someone else in\<close>

text \<open>Only the outcome of prompts that are already open.\<close>

fun late_answer :: "signer_event \<Rightarrow> bool" where
  "late_answer (Settles _ _) = True"
| "late_answer (Fails _ _) = True"
| "late_answer _ = False"

lemma late_answer_step:
  assumes "\<forall>p \<in> set (sg_prompts t). prompt_gen p < sg_gen t" and "late_answer e"
  shows "signer_step e t = t\<lparr>sg_prompts := sg_prompts (signer_step e t)\<rparr> \<and>
         set (sg_prompts (signer_step e t)) \<subseteq> set (sg_prompts t)"
proof (cases e)
  case (Settles p d)
  obtain s a h where d: "d = (s, a, h)" by (cases d)
  have "prompt_gen p \<noteq> sg_gen t" if "p \<in> set (sg_prompts t)" using assms(1) that by auto
  then show ?thesis
    using set_remove1_subset [of p "sg_prompts t"]
    by (cases p) (auto simp: Settles d connect_ok_def unlock_ok_def unlock_err_def unlock_release_def settle_def)
next
  case (Fails p m)
  have "prompt_gen p \<noteq> sg_gen t" if "p \<in> set (sg_prompts t)" using assms(1) that by auto
  then show ?thesis
    using set_remove1_subset [of p "sg_prompts t"]
    by (cases p) (auto simp: Fails connect_err_def unlock_err_def unlock_release_def settle_def)
qed (use assms(2) in auto)

lemma late_answers_run:
  assumes "\<forall>p \<in> set (sg_prompts t). prompt_gen p < sg_gen t" and "list_all late_answer es"
  shows "\<exists>ps. signer_run es t = t\<lparr>sg_prompts := ps\<rparr>"
  using assms unfolding signer_run_def
proof (induction es arbitrary: t)
  case Nil
  show ?case by (intro exI [of _ "sg_prompts t"]) simp
next
  case (Cons e es)
  from late_answer_step [OF Cons.prems(1)] Cons.prems(2)
  have step: "signer_step e t = t\<lparr>sg_prompts := sg_prompts (signer_step e t)\<rparr>"
    "set (sg_prompts (signer_step e t)) \<subseteq> set (sg_prompts t)" by auto
  define qs where "qs = sg_prompts (signer_step e t)"
  have t': "signer_step e t = t\<lparr>sg_prompts := qs\<rparr>" using step(1) by (simp add: qs_def)
  have "\<forall>p \<in> set (sg_prompts (t\<lparr>sg_prompts := qs\<rparr>)). prompt_gen p < sg_gen (t\<lparr>sg_prompts := qs\<rparr>)"
    using step(2) Cons.prems(1) by (auto simp: qs_def)
  from Cons.IH [OF this] Cons.prems(2) show ?case by (auto simp: t')
qed

text \<open>
  C16: a tab whose key was confirmed by the shared record follows the record: when another tab signs
  out or signs in a different account, this tab drops its in-memory key, does not touch the record that
  now belongs to the other session, and no prompt it had open can bring the old key back.
\<close>

theorem tab_adopts_foreign_sign_out:
  assumes "t = signer_run es0 (fresh_tab r0 w)" and "sg_hydrated t" and "sg_recordSeen t" and "\<not> sg_devChosen t"
    and "sg_chosen t = Some k" and "map_option rs_ss58 r \<noteq> Some (s_ss58 k)" and "list_all late_answer es"
  shows "let t' = signer_run es (signer_run [ForeignWrite r, AdoptEffect] t)
         in sg_chosen t' = None \<and> sg_record t' = r \<and> sg_disk t' = r \<and>
            activeSigner fallback t' = (case r of None \<Rightarrow> fallback
              | Some x \<Rightarrow> \<lparr>s_ss58 = rs_ss58 x, s_publicKeyHex = rs_publicKeyHex x, s_kind = Restored\<rparr>)"
proof -
  have "prompts_ok (fresh_tab r0 w)" by (simp add: prompts_ok_def fresh_tab_def)
  then have ok: "prompts_ok t" unfolding assms(1) by (rule prompts_ok_run)
  define u where "u = signer_run [ForeignWrite r, AdoptEffect] t"
  have eq: "u = drop_key (foreign_write r t)"
    using assms(2-6)
    by (auto simp: u_def signer_run_def adopt_effect_def shouldAdoptSignOut_def adoption_input_def foreign_write_def)
  have "\<forall>p \<in> set (sg_prompts u). prompt_gen p < sg_gen u"
    using ok by (auto simp: eq drop_key_def foreign_write_def prompts_ok_def less_Suc_eq_le)
  from late_answers_run [OF this assms(7)] obtain ps where "signer_run es u = u\<lparr>sg_prompts := ps\<rparr>" by blast
  then have "signer_run es (signer_run [ForeignWrite r, AdoptEffect] t) = (drop_key (foreign_write r t))\<lparr>sg_prompts := ps\<rparr>"
    by (simp only: u_def [symmetric] eq [symmetric])
  then show ?thesis
    by (cases r) (simp_all add: drop_key_def foreign_write_def activeSigner_def restoredSigner_def Let_def)
qed

lemma tab_adopts_foreign_sign_out_witness:
  "let t = signer_run [Hydrate, UnlockCall, Settles (UnlockPrompt demo_session 1) (demo_signer, ''addr1'', ''01''), AdoptEffect]
             (fresh_tab (Some demo_session) True)
   in sg_chosen t = Some demo_signer \<and> sg_chosen (signer_run [ForeignWrite None, AdoptEffect] t) = None"
proof -
  let ?es = "[Hydrate, UnlockCall, Settles (UnlockPrompt demo_session 1) (demo_signer, ''addr1'', ''01''), AdoptEffect]"
  let ?t = "signer_run ?es (fresh_tab (Some demo_session) True)"
  have t: "sg_hydrated ?t" "sg_recordSeen ?t" "\<not> sg_devChosen ?t" "sg_chosen ?t = Some demo_signer"
    by (simp_all add: signer_run_def fresh_tab_def unlock_def unlock_ok_def unlock_release_def settle_def
        saveRestoredSession_def commit_record_def adopt_effect_def demo_signer_def demo_session_def)
  have "map_option rs_ss58 None \<noteq> Some (s_ss58 demo_signer)" by simp
  from tab_adopts_foreign_sign_out [OF refl t this, of "[]"] t show ?thesis by (simp add: Let_def signer_run_def)
qed

text \<open>
  Storage that refuses writes does not keep the record from being seen: the store keeps the new
  value in memory before it tries the disk, so a fresh connect on a browser with site data blocked
  still arms the adoption latch, against the stated reason for that latch.
\<close>

theorem blocked_storage_still_arms:
  "let t = signer_run [Hydrate, ConnectStart ''eternl'',
             Settles (ConnectPrompt ''eternl'' 1) (demo_signer, ''addr1'', ''01''), AdoptEffect] (fresh_tab None False)
   in sg_disk t = None \<and> map_option rs_ss58 (sg_record t) = Some ''5Alice'' \<and> sg_recordSeen t \<and> sg_chosen t = Some demo_signer"
  by (simp add: signer_run_def fresh_tab_def connect_start_def connect_ok_def settle_def saveRestoredSession_def
      commit_record_def adopt_effect_def demo_signer_def Let_def)

text \<open>
  An unlock overtaken by a connect wedges the restored session: the overtaken prompt no longer owns
  the single-flight slot, so when the connect is declined and the old prompt settles, the slot still
  holds the dead promise and every later unlock joins it, with no prompt open and the spinner on.
\<close>

lemma overtaken_unlock_wedges:
  "let t = signer_run [Hydrate, UnlockCall, ConnectStart ''eternl'', Fails (ConnectPrompt ''eternl'' 2) ''declined'',
             Fails (UnlockPrompt demo_session 1) ''closed''] (fresh_tab (Some demo_session) True)
   in sg_prompts t = [] \<and> sg_unlocking t \<and> fst (unlock t) = Joins 1"
  by (simp add: signer_run_def fresh_tab_def unlock_def connect_start_def connect_err_def unlock_err_def
      unlock_release_def settle_def Let_def)

text \<open>
  The opposite overlap hides the session: a connect overtaken by an unlock never lowers the
  connecting flag, although no prompt is open any more, so the viewer reads as not connected.
\<close>

theorem overtaken_connect_hides_session:
  "let t = signer_run [Hydrate, ConnectStart ''eternl'', UnlockCall,
             Settles (UnlockPrompt demo_session 2) (demo_signer, ''addr1'', ''01''),
             Fails (ConnectPrompt ''eternl'' 1) ''declined''] (fresh_tab (Some demo_session) True)
   in sg_prompts t = [] \<and> sg_chosen t = Some demo_signer \<and> sg_deriving t \<and>
      viewerStatusOf (deriveSessionState
        \<lparr>ss_deriving = sg_deriving t, ss_postingEnabled = postingEnabled demo_dev t, ss_walletConnected = True\<rparr>
        \<lparr>id_bound = Some True, id_binding = False, id_stakeBound = None\<rparr>) = NotConnected"
  by (simp add: signer_run_def fresh_tab_def unlock_def connect_start_def connect_err_def unlock_ok_def
      unlock_release_def settle_def saveRestoredSession_def commit_record_def demo_signer_def demo_session_def
      deriveSessionState_def Let_def)

end
