(* ===== verification/Addresses.thy ===== *)
theory Addresses
  imports Unicode
begin

text \<open>
  Account addresses as text, \<open>app/src/lib/ss58.ts\<close>: the truncated handle, the fallback name, the cheap
  shape test and the strict normalisation to the chain's own prefix.

  The codec itself (\<open>ss58Decode\<close>, \<open>ss58Encode\<close>) is a library; it is the record \<open>ss58_lib\<close>, and what the
  code relies on is \<open>ss58_laws\<close>: encoding a 32-byte account gives a base58 text of the usual length that
  decodes to that account.
\<close>

record ss58_lib =
  ss58Decode :: "ustring \<Rightarrow> nat list option"
  ss58Encode :: "nat list \<Rightarrow> ustring"

definition ELLIPSIS :: nat where "ELLIPSIS = 0x2026"

text \<open>An address holds no character outside the basic plane, so its length in code units is its length.\<close>

definition truncateSs58 :: "ustring \<Rightarrow> ustring" where
  "truncateSs58 address =
     (if address = [] then []
      else if length address \<le> 4 + 4 + 1 then address
      else take 4 address @ [ELLIPSIS] @ drop (length address - 4) address)"

definition handleOf :: "ustring \<Rightarrow> ustring" where
  "handleOf address = 64 # truncateSs58 address"

definition fallbackDisplayName :: "ustring \<Rightarrow> ustring" where
  "fallbackDisplayName address =
     (if address = [] then ascii ''cogno-anon'' else ascii ''cogno-'' @ take 6 (drop 1 address))"

definition base58 :: "nat \<Rightarrow> bool" where
  "base58 c \<longleftrightarrow> 49 \<le> c \<and> c \<le> 57 \<or> 65 \<le> c \<and> c \<le> 72 \<or> 74 \<le> c \<and> c \<le> 78 \<or> 80 \<le> c \<and> c \<le> 90 \<or>
     97 \<le> c \<and> c \<le> 107 \<or> 109 \<le> c \<and> c \<le> 122"

definition isPlausibleSs58 :: "ustring option \<Rightarrow> bool" where
  "isPlausibleSs58 v = (case v of None \<Rightarrow> False
     | Some s \<Rightarrow> 40 \<le> length s \<and> length s \<le> 60 \<and> list_all base58 s)"

definition normalizeSs58 :: "ss58_lib \<Rightarrow> ustring option \<Rightarrow> ustring option" where
  "normalizeSs58 lib v = (case v of None \<Rightarrow> None | Some s \<Rightarrow>
     let trimmed = utrim s
     in if \<not> isPlausibleSs58 (Some trimmed) then None
        else case ss58Decode lib trimmed of None \<Rightarrow> None
             | Some payload \<Rightarrow> if length payload \<noteq> 32 then None else Some (ss58Encode lib payload))"

definition profileRouteForQuery :: "ss58_lib \<Rightarrow> ustring option \<Rightarrow> ustring option" where
  "profileRouteForQuery lib v = map_option (\<lambda>addr. ascii ''/u/'' @ addr @ [47]) (normalizeSs58 lib v)"

definition ss58_laws :: "ss58_lib \<Rightarrow> bool" where
  "ss58_laws lib \<longleftrightarrow>
     (\<forall>s p. ss58Decode lib s = Some p \<longrightarrow> list_all (\<lambda>b. b < 256) p) \<and>
     (\<forall>p. length p = 32 \<and> list_all (\<lambda>b. b < 256) p \<longrightarrow>
     ss58Decode lib (ss58Encode lib p) = Some p \<and> isPlausibleSs58 (Some (ss58Encode lib p)))"

lemma base58_not_white: "base58 c \<Longrightarrow> \<not> white c"
  by (auto simp: base58_def white_def)

lemma utrim_id: "list_all (\<lambda>c. \<not> white c) s \<Longrightarrow> utrim s = s"
proof -
  assume a: "list_all (\<lambda>c. \<not> white c) s"
  have "dropWhile white xs = xs" if "list_all (\<lambda>c. \<not> white c) xs" for xs using that by (cases xs) auto
  from this [OF a] this [of "rev s"] a show ?thesis by (simp add: utrim_def)
qed

lemma utrim_plausible: "isPlausibleSs58 (Some s) \<Longrightarrow> utrim s = s"
  by (rule utrim_id) (auto simp: isPlausibleSs58_def list_all_iff base58_not_white)

lemma normalizeSs58_canonical:
  assumes "ss58_laws lib" and "normalizeSs58 lib v = Some a"
  shows "isPlausibleSs58 (Some a)" and "normalizeSs58 lib (Some a) = Some a"
proof -
  obtain q p where q: "ss58Decode lib q = Some p" "length p = 32" "a = ss58Encode lib p"
    using assms(2) by (auto simp: normalizeSs58_def Let_def split: option.splits if_splits)
  then have p: "length p = 32" "list_all (\<lambda>b. b < 256) p" "a = ss58Encode lib p"
    using assms(1) by (auto simp: ss58_laws_def)
  then have laws: "ss58Decode lib a = Some p" "isPlausibleSs58 (Some a)" using assms(1) by (auto simp: ss58_laws_def)
  then show "isPlausibleSs58 (Some a)" by simp
  show "normalizeSs58 lib (Some a) = Some a"
    using laws p utrim_plausible [of a] by (simp add: normalizeSs58_def)
qed

section \<open>A codec for concrete inputs\<close>

text \<open>Forty-four base58 digits of the account's number after a fixed head; there is no checksum.\<close>

fun digits :: "nat \<Rightarrow> nat \<Rightarrow> nat \<Rightarrow> nat list" where
  "digits b 0 n = []"
| "digits b (Suc k) n = n div b ^ k mod b # digits b k n"

fun number :: "nat \<Rightarrow> nat list \<Rightarrow> nat" where
  "number b [] = 0"
| "number b (d # ds) = d * b ^ length ds + number b ds"

lemma length_digits [simp]: "length (digits b k n) = k"
  by (induction k) auto

lemma digits_less: "0 < b \<Longrightarrow> list_all (\<lambda>d. d < b) (digits b k n)"
  by (induction k) auto

lemma number_digits: "number b (digits b k n) = n mod b ^ k"
proof (induction k)
  case (Suc k)
  then show ?case using mod_mult2_eq [of n "b ^ k" b] by (simp add: mult.commute)
qed simp

lemma number_less: "list_all (\<lambda>d. d < b) ds \<Longrightarrow> number b ds < b ^ length ds"
proof (induction ds)
  case (Cons d ds)
  then have "d * b ^ length ds + number b ds < Suc d * b ^ length ds" by simp
  also have "\<dots> \<le> b * b ^ length ds" using Cons.prems by (intro mult_le_mono1) simp
  finally show ?case by simp
qed simp

lemma digits_mod: "digits b k (n mod b ^ j) = digits b k n" if "k \<le> j" "0 < b" for n
  using that(1)
proof (induction k)
  case (Suc k)
  have "n mod b ^ j div b ^ k mod b = n div b ^ k mod b"
  proof -
    have j: "b ^ j = b ^ k * b ^ (j - k)" using Suc.prems by (simp add: power_add [symmetric])
    have "b dvd b ^ (j - k)" using Suc.prems by (intro dvd_power) auto
    have "n mod b ^ j div b ^ k = n div b ^ k mod b ^ (j - k)"
      unfolding j using that(2) by (simp add: mod_mult2_eq)
    then show ?thesis using \<open>b dvd b ^ (j - k)\<close> by (simp add: mod_mod_cancel)
  qed
  with Suc show ?case by simp
qed simp

lemma digits_number: "list_all (\<lambda>d. d < b) ds \<Longrightarrow> digits b (length ds) (number b ds) = ds"
proof (induction ds)
  case (Cons d ds)
  let ?k = "length ds"
  have small: "number b ds < b ^ ?k" using Cons.prems by (intro number_less) simp
  have "0 < b" using Cons.prems by auto
  then have hd: "(d * b ^ ?k + number b ds) div b ^ ?k mod b = d" using small Cons.prems by simp
  have "(d * b ^ ?k + number b ds) mod b ^ ?k = number b ds" using small by simp
  then have "digits b ?k (d * b ^ ?k + number b ds) = digits b ?k (number b ds)"
    using digits_mod [of ?k ?k b "d * b ^ ?k + number b ds"] \<open>0 < b\<close> by simp
  with Cons hd show ?case by simp
qed simp

definition alphabet :: "nat list" where
  "alphabet = [49..<58] @ [65..<73] @ [74..<79] @ [80..<91] @ [97..<108] @ [109..<123]"

definition unalpha :: "nat \<Rightarrow> nat" where
  "unalpha c = length (takeWhile (\<lambda>x. x \<noteq> c) alphabet)"

lemma alphabet_facts: "length alphabet = 58" "distinct alphabet" "list_all base58 alphabet"
  by (simp_all add: alphabet_def upt_rec base58_def)

lemma unalpha_alphabet: "d < 58 \<Longrightarrow> unalpha (alphabet ! d) = d"
proof -
  assume d: "d < 58"
  have "takeWhile (\<lambda>x. x \<noteq> alphabet ! d) alphabet = take d alphabet"
    using d alphabet_facts(1,2) by (intro takeWhile_eq_take_P_nth) (auto simp: nth_eq_iff_index_eq)
  with d show ?thesis by (simp add: unalpha_def alphabet_facts)
qed

definition demo_head :: ustring where "demo_head = [53, 53, 53, 53]"

definition demo_lib :: ss58_lib where
  "demo_lib = \<lparr>
     ss58Decode = (\<lambda>s. if length s = 48 \<and> take 4 s = demo_head
        then Some (digits 256 32 (number 58 (map unalpha (drop 4 s)))) else None),
     ss58Encode = (\<lambda>p. demo_head @ map ((!) alphabet) (digits 58 44 (number 256 p)))\<rparr>"

lemma demo_lib_laws: "ss58_laws demo_lib"
  unfolding ss58_laws_def
proof (intro conjI allI impI)
  fix s p
  assume "ss58Decode demo_lib s = Some p"
  then show "list_all (\<lambda>b. b < 256) p" by (auto simp: demo_lib_def digits_less split: if_splits)
next
  fix p :: "nat list"
  assume p: "length p = 32 \<and> list_all (\<lambda>b. b < 256) p"
  define ds where "ds = digits 58 44 (number 256 p)"
  have ds: "list_all (\<lambda>d. d < 58) ds" "length ds = 44" by (simp_all add: ds_def digits_less)
  have un: "map unalpha (map ((!) alphabet) ds) = ds"
    using ds(1) by (auto simp: list_all_iff unalpha_alphabet intro!: map_idI)
  have "number 256 p < 256 ^ 32" using number_less [of 256 p] p by simp
  also have "(256::nat) ^ 32 < 58 ^ 44" by simp
  finally have "number 58 ds = number 256 p" by (simp add: ds_def number_digits)
  moreover have "digits 256 32 (number 256 p) = p" using digits_number [of 256 p] p by simp
  ultimately show "ss58Decode demo_lib (ss58Encode demo_lib p) = Some p"
    using un ds(2) by (simp add: demo_lib_def demo_head_def ds_def [symmetric])
  have "list_all base58 (map ((!) alphabet) ds)"
    using ds(1) alphabet_facts(1,3) by (auto simp: list_all_iff intro: nth_mem)
  then show "isPlausibleSs58 (Some (ss58Encode demo_lib p))"
    using ds(2) by (simp add: isPlausibleSs58_def demo_lib_def demo_head_def ds_def [symmetric] base58_def)
qed

definition demo_address :: ustring where
  "demo_address = demo_head @ replicate 44 49"

lemma demo_address_normal: "normalizeSs58 demo_lib (Some demo_address) = Some demo_address"
proof -
  have pl: "isPlausibleSs58 (Some demo_address)"
    by (simp add: isPlausibleSs58_def demo_address_def demo_head_def base58_def list_all_iff)
  have z: "number 58 (replicate n 0) = 0" "digits b n 0 = replicate n 0" "number 256 (replicate n 0) = 0" for n b
    by (induction n) simp_all
  have u: "unalpha 49 = 0" "alphabet ! 0 = 49" by (simp_all add: unalpha_def alphabet_def upt_rec)
  have "ss58Decode demo_lib demo_address = Some (replicate 32 0)"
    by (simp add: demo_lib_def demo_address_def demo_head_def u z)
  moreover have "ss58Encode demo_lib (replicate 32 0) = demo_address"
    by (simp add: demo_lib_def demo_address_def u z)
  ultimately show ?thesis using pl utrim_plausible [OF pl] by (simp add: normalizeSs58_def)
qed

end
