(* ===== verification/Device_Store.thy ===== *)
theory Device_Store
  imports Addresses "HOL-Library.List_Lexorder"
begin

text \<open>
  The device-local stores, \<open>app/src/lib/persistentStore.ts\<close>, \<open>viewerScopedStore.ts\<close> and
  \<open>stringSetStore.ts\<close>: a value held in memory and mirrored under a key of \<open>localStorage\<close>, one bucket
  per account, kept in step between the tabs of a device.

  A stored text is the output of \<open>JSON.stringify\<close> on a value, the empty text (which the parsers take for an
  absent item) or any other text together with what \<open>JSON.parse\<close> makes of it, if it parses; parsed numbers
  are finite, and the fields of an object are in insertion order.  An operation that throws returns
  \<^const>\<open>None\<close>.  What the codec of a store promises is the locale \<open>codec\<close>; every store below and in
  \<open>Device_Lists\<close> and \<open>Device_Records\<close> interprets it.
\<close>

section \<open>The browser\<close>

datatype json =
  JNull | JBool bool | JNum rat | JStr ustring | JArr "json list" | JObj "(ustring \<times> json) list"

datatype stored = Json json | Blank | Typed ustring "json option"

text \<open>\<open>raw ? JSON.parse(raw) : d\<close>.\<close>

fun parse_or :: "json \<Rightarrow> stored option \<Rightarrow> json option" where
  "parse_or d None = Some d"
| "parse_or d (Some Blank) = Some d"
| "parse_or d (Some (Json v)) = Some v"
| "parse_or d (Some (Typed t p)) = p"

text \<open>
  \<open>blocked\<close>: every access to \<open>localStorage\<close> throws (site data switched off).  \<open>refuses\<close>: a write throws
  (the quota of the origin).  \<open>window\<close> is false while the page is rendered on the server.
\<close>

record browser =
  window :: bool
  blocked :: bool
  refuses :: "ustring \<Rightarrow> stored \<Rightarrow> bool"
  disk :: "(ustring, stored) omap"

definition getItem :: "browser \<Rightarrow> ustring \<Rightarrow> stored option option" where
  "getItem b k = (if blocked b then None else Some (map_of (disk b) k))"

definition setItem :: "browser \<Rightarrow> ustring \<Rightarrow> stored \<Rightarrow> browser option" where
  "setItem b k v = (if blocked b \<or> refuses b k v then None else Some (b\<lparr>disk := omap_set k v (disk b)\<rparr>))"

definition removeItem :: "browser \<Rightarrow> ustring \<Rightarrow> browser option" where
  "removeItem b k = (if blocked b then None else Some (b\<lparr>disk := omap_del k (disk b)\<rparr>))"

definition item :: "browser \<Rightarrow> ustring \<Rightarrow> stored option" where
  "item b k = map_of (disk b) k"

text \<open>The order of \<open>Array.prototype.sort\<close> on strings: by UTF-16 code units.\<close>

definition utf16_char :: "nat \<Rightarrow> nat list" where
  "utf16_char c = (if c < 0x10000 then [c] else [0xD800 + (c - 0x10000) div 1024, 0xDC00 + (c - 0x10000) mod 1024])"

definition utf16 :: "ustring \<Rightarrow> nat list" where
  "utf16 s = concat (map utf16_char s)"

definition unit_cmp :: "ustring \<Rightarrow> ustring \<Rightarrow> int" where
  "unit_cmp a b = (if utf16 a < utf16 b then -1 else if utf16 b < utf16 a then 1 else 0)"

interpretation unit_order: comparator unit_cmp
  by unfold_locales (auto simp: unit_cmp_def split: if_splits)

section \<open>persistentStore.ts\<close>

record 'a store_opts =
  skey :: ustring
  sempty :: 'a
  sparse :: "stored option \<Rightarrow> 'a option"
  sserialize :: "'a \<Rightarrow> json"
  scrossTab :: bool

record 'a live =
  cache :: 'a
  listeners :: nat
  attached :: bool

definition loadFromStorage :: "'a store_opts \<Rightarrow> browser \<Rightarrow> 'a" where
  "loadFromStorage opts b =
     (if \<not> window b then sempty opts
      else case getItem b (skey opts) of
             None \<Rightarrow> sempty opts
           | Some raw \<Rightarrow> (case sparse opts raw of None \<Rightarrow> sempty opts | Some v \<Rightarrow> v))"

definition createPersistentStore :: "'a store_opts \<Rightarrow> browser \<Rightarrow> 'a live" where
  "createPersistentStore opts b = \<lparr>cache = loadFromStorage opts b, listeners = 0, attached = False\<rparr>"

definition commit :: "'a store_opts \<Rightarrow> 'a \<Rightarrow> browser \<times> 'a live \<Rightarrow> (browser \<times> 'a live) \<times> bool" where
  "commit opts nxt = (\<lambda>(b, s).
     let s' = s\<lparr>cache := nxt\<rparr>
     in if \<not> window b then ((b, s'), True)
        else case setItem b (skey opts) (Json (sserialize opts nxt)) of
               None \<Rightarrow> ((b, s'), False)
             | Some b' \<Rightarrow> ((b', s'), True))"

definition onStorage :: "'a store_opts \<Rightarrow> ustring option \<Rightarrow> browser \<Rightarrow> 'a live \<Rightarrow> 'a live" where
  "onStorage opts ekey b s =
     (if ekey \<noteq> None \<and> ekey \<noteq> Some (skey opts) then s
      else let nxt = loadFromStorage opts b
           in if sserialize opts nxt = sserialize opts (cache s) then s else s\<lparr>cache := nxt\<rparr>)"

definition subscribe :: "'a store_opts \<Rightarrow> browser \<Rightarrow> 'a live \<Rightarrow> 'a live" where
  "subscribe opts b s =
     (let s = (if scrossTab opts \<and> listeners s = 0 \<and> window b
               then let fresh = loadFromStorage opts b
                    in s\<lparr>attached := True,
                         cache := (if sserialize opts fresh \<noteq> sserialize opts (cache s) then fresh else cache s)\<rparr>
               else s)
      in s\<lparr>listeners := Suc (listeners s)\<rparr>)"

definition unsubscribe :: "'a store_opts \<Rightarrow> browser \<Rightarrow> 'a live \<Rightarrow> 'a live" where
  "unsubscribe opts b s =
     (let s = s\<lparr>listeners := listeners s - 1\<rparr>
      in if scrossTab opts \<and> listeners s = 0 \<and> window b then s\<lparr>attached := False\<rparr> else s)"

lemma item_setItem [store_simps]:
  "setItem b k v = Some b' \<Longrightarrow> item b' k' = (if k' = k then Some v else item b k')"
  by (auto simp: setItem_def item_def split: if_splits)

lemma item_removeItem [store_simps]:
  "removeItem b k = Some b' \<Longrightarrow> item b' k' = (if k' = k then None else item b k')"
  by (auto simp: removeItem_def item_def split: if_splits)

lemma browser_frame [store_simps]:
  "setItem b k v = Some b' \<Longrightarrow> window b' = window b \<and> blocked b' = blocked b \<and> refuses b' = refuses b"
  "removeItem b k = Some b' \<Longrightarrow> window b' = window b \<and> blocked b' = blocked b \<and> refuses b' = refuses b"
  by (auto simp: setItem_def removeItem_def split: if_splits)

section \<open>The contract of a codec\<close>

text \<open>
  What a store relies on: a value read from any text is valid, and a valid value written and read back is
  the same up to its serialised form (the order of the elements of a set is not kept).
\<close>

locale codec =
  fixes parse :: "stored option \<Rightarrow> 'a option"
    and serialize :: "'a \<Rightarrow> json"
    and valid :: "'a \<Rightarrow> bool"
    and empty_value :: 'a
  assumes parse_valid: "parse raw = Some v \<Longrightarrow> valid v"
    and reads_back: "valid v \<Longrightarrow> \<exists>w. parse (Some (Json (serialize v))) = Some w \<and> serialize w = serialize v"
    and empty_valid: "valid empty_value"
begin

abbreviation codes :: "'a store_opts \<Rightarrow> bool" where
  "codes opts \<equiv> sparse opts = parse \<and> sserialize opts = serialize \<and> sempty opts = empty_value"

lemma load_valid: "codes opts \<Longrightarrow> valid (loadFromStorage opts b)"
  using parse_valid empty_valid by (auto simp: loadFromStorage_def split: option.splits)

lemma create_valid: "codes opts \<Longrightarrow> valid (cache (createPersistentStore opts b))"
  using load_valid by (simp add: createPersistentStore_def)

lemma onStorage_valid: "codes opts \<Longrightarrow> valid (cache s) \<Longrightarrow> valid (cache (onStorage opts k b s))"
  using load_valid by (auto simp: onStorage_def Let_def)

lemma subscribe_valid: "codes opts \<Longrightarrow> valid (cache s) \<Longrightarrow> valid (cache (subscribe opts b s))"
  using load_valid by (auto simp: subscribe_def Let_def)

text \<open>A commit that reports success is what the next page load shows.\<close>

lemma load_after_commit:
  assumes "codes opts" "valid nxt" "window b" "commit opts nxt (b, s) = ((b', s'), True)"
  shows "serialize (loadFromStorage opts b') = serialize nxt"
proof -
  have set: "setItem b (skey opts) (Json (serialize nxt)) = Some b'"
    using assms by (auto simp: commit_def Let_def split: option.splits)
  then have b': "window b'" "\<not> blocked b'" "map_of (disk b') (skey opts) = Some (Json (serialize nxt))"
    using assms(3) by (auto simp: setItem_def split: if_splits)
  obtain w where "parse (Some (Json (serialize nxt))) = Some w" "serialize w = serialize nxt"
    using reads_back [OF assms(2)] by blast
  with b' assms(1) show ?thesis by (simp add: loadFromStorage_def getItem_def)
qed

lemma onStorage_reads:
  "codes opts \<Longrightarrow> k = None \<or> k = Some (skey opts) \<Longrightarrow>
   serialize (cache (onStorage opts k b s)) = serialize (loadFromStorage opts b)"
  by (auto simp: onStorage_def Let_def)

end

lemma commit_cache [store_simps]: "commit opts nxt (b, s) = ((b', s'), r) \<Longrightarrow> s' = s\<lparr>cache := nxt\<rparr>"
  by (auto simp: commit_def Let_def split: if_splits option.splits)

lemma commit_other_key [store_simps]:
  "commit opts nxt (b, s) = ((b', s'), r) \<Longrightarrow> k \<noteq> skey opts \<Longrightarrow> item b' k = item b k"
  by (auto simp: commit_def Let_def item_setItem split: if_splits option.splits)

lemma commit_frame [store_simps]:
  "commit opts nxt (b, s) = ((b', s'), r) \<Longrightarrow> window b' = window b \<and> blocked b' = blocked b \<and> refuses b' = refuses b"
  by (auto simp: commit_def Let_def split: if_splits option.splits dest: browser_frame)

lemma commit_failed [store_simps]:
  "commit opts nxt (b, s) = ((b', s'), False) \<Longrightarrow> b' = b"
  by (auto simp: commit_def Let_def split: if_splits option.splits)

section \<open>Several tabs of a device\<close>

text \<open>
  The tabs of one origin share \<open>localStorage\<close>.  A write that changes an item queues a storage event in every
  other tab, which handles it later.  A tab that opens a bucket without an item may first move the value of the
  device-global key there (\<open>claimLegacyFor\<close> in \<open>viewerScopedStore.ts\<close>).  \<open>unsaved\<close> marks a tab whose last commit did not reach storage.
\<close>

record 'a tab =
  tlive :: "'a live"
  inbox :: nat
  unsaved :: bool

definition notify_tab :: "'a tab \<Rightarrow> 'a tab" where
  "notify_tab t = (if attached (tlive t) then t\<lparr>inbox := Suc (inbox t)\<rparr> else t)"

definition notify_others :: "nat \<Rightarrow> 'a tab list \<Rightarrow> 'a tab list" where
  "notify_others i ts = map (\<lambda>j. if j = i then ts ! j else notify_tab (ts ! j)) [0..<length ts]"

definition tab_commit :: "'a store_opts \<Rightarrow> nat \<Rightarrow> 'a \<Rightarrow> browser \<times> 'a tab list \<Rightarrow> browser \<times> 'a tab list" where
  "tab_commit opts i v = (\<lambda>(b, ts).
     let ((b', s'), ok) = commit opts v (b, tlive (ts ! i));
         ts' = ts[i := (ts ! i)\<lparr>tlive := s', unsaved := \<not> ok\<rparr>]
     in (b', if item b' (skey opts) = item b (skey opts) then ts' else notify_others i ts'))"

inductive device_step :: "'a store_opts \<Rightarrow> ('a \<Rightarrow> bool) \<Rightarrow> browser \<times> 'a tab list \<Rightarrow> browser \<times> 'a tab list \<Rightarrow> bool"
  for opts and valid where
  open_tab: "device_step opts valid (b, ts)
     (b, ts @ [\<lparr>tlive = createPersistentStore opts b, inbox = 0, unsaved = False\<rparr>])"
| claim_tab: "item b (skey opts) = None \<Longrightarrow> setItem b (skey opts) v = Some b' \<Longrightarrow> device_step opts valid (b, ts)
     (b', map notify_tab ts @ [\<lparr>tlive = createPersistentStore opts b', inbox = 0, unsaved = False\<rparr>])"
| commit_tab: "i < length ts \<Longrightarrow> valid v \<Longrightarrow> device_step opts valid (b, ts) (tab_commit opts i v (b, ts))"
| deliver: "i < length ts \<Longrightarrow> inbox (ts ! i) = Suc n \<Longrightarrow> attached (tlive (ts ! i)) \<Longrightarrow>
     device_step opts valid (b, ts)
       (b, ts[i := \<lparr>tlive = onStorage opts (Some (skey opts)) b (tlive (ts ! i)), inbox = n, unsaved = False\<rparr>])"
| subscribe_tab: "i < length ts \<Longrightarrow> device_step opts valid (b, ts)
     (b, ts[i := (ts ! i)\<lparr>tlive := subscribe opts b (tlive (ts ! i)),
                          unsaved := unsaved (ts ! i) \<and> 0 < listeners (tlive (ts ! i))\<rparr>])"
| unsubscribe_tab: "i < length ts \<Longrightarrow> 0 < listeners (tlive (ts ! i)) \<Longrightarrow> device_step opts valid (b, ts)
     (b, ts[i := (ts ! i)\<lparr>tlive := unsubscribe opts b (tlive (ts ! i))\<rparr>])"
| quota: "device_step opts valid (b, ts) (b\<lparr>refuses := r\<rparr>, ts)"

definition in_step :: "'a store_opts \<Rightarrow> browser \<Rightarrow> 'a tab \<Rightarrow> bool" where
  "in_step opts b t \<longleftrightarrow> (attached (tlive t) \<longleftrightarrow> 0 < listeners (tlive t)) \<and>
     (attached (tlive t) \<and> \<not> unsaved t \<and> inbox t = 0 \<longrightarrow>
       sserialize opts (cache (tlive t)) = sserialize opts (loadFromStorage opts b))"

lemma load_cong: "item b' (skey opts) = item b (skey opts) \<Longrightarrow> window b' = window b \<Longrightarrow> blocked b' = blocked b \<Longrightarrow>
  loadFromStorage opts b' = loadFromStorage opts b"
  by (simp add: loadFromStorage_def getItem_def item_def)

lemma notify_others_nth:
  "length (notify_others i ts) = length ts"
  "j < length ts \<Longrightarrow> notify_others i ts ! j = (if j = i then ts ! j else notify_tab (ts ! j))"
  by (simp_all add: notify_others_def)

lemma in_step_notified: "in_step opts b t \<Longrightarrow> in_step opts b' (notify_tab t)"
  by (auto simp: in_step_def notify_tab_def)

lemma in_step_opened: "in_step opts b \<lparr>tlive = createPersistentStore opts b, inbox = 0, unsaved = False\<rparr>"
  by (simp add: in_step_def createPersistentStore_def)

lemma load_quota [simp]: "loadFromStorage opts (b\<lparr>refuses := r\<rparr>) = loadFromStorage opts b"
  by (simp add: loadFromStorage_def getItem_def)

lemma list_all_updated: "list_all P xs \<Longrightarrow> P y \<Longrightarrow> list_all P (xs[i := y])"
  by (metis list_all_iff insert_iff set_update_subset_insert subset_code(1))

lemma in_step_load: "loadFromStorage opts b' = loadFromStorage opts b \<Longrightarrow> in_step opts b' t = in_step opts b t"
  by (simp add: in_step_def)

lemma in_step_subscribe:
  assumes "scrossTab opts" "window b" "in_step opts b t"
  shows "in_step opts b (t\<lparr>tlive := subscribe opts b (tlive t), unsaved := unsaved t \<and> 0 < listeners (tlive t)\<rparr>)"
  using assms by (cases "listeners (tlive t) = 0") (simp_all add: in_step_def subscribe_def Let_def)

lemma in_step_unsubscribe:
  assumes "scrossTab opts" "window b" "in_step opts b t"
  shows "in_step opts b (t\<lparr>tlive := unsubscribe opts b (tlive t)\<rparr>)"
  using assms by (cases "listeners (tlive t) \<le> 1") (simp_all add: in_step_def unsubscribe_def Let_def)

context codec
begin

lemma commit_keeps_step:
  assumes opts: "codes opts" "window b" and i: "i < length ts" "valid v" and inv: "list_all (in_step opts b) ts"
    and c: "tab_commit opts i v (b, ts) = (b', ts')"
  shows "window b' \<and> list_all (in_step opts b') ts'"
proof -
  obtain b1 s1 ok where k: "commit opts v (b, tlive (ts ! i)) = ((b1, s1), ok)" by (metis surj_pair)
  define us where "us = ts[i := (ts ! i)\<lparr>tlive := s1, unsaved := \<not> ok\<rparr>]"
  have "(b1, if item b1 (skey opts) = item b (skey opts) then us else notify_others i us) = (b', ts')"
    using c unfolding tab_commit_def us_def by (simp only: k Let_def prod.case)
  then have b': "b' = b1" and ts': "ts' = (if item b1 (skey opts) = item b (skey opts) then us else notify_others i us)"
    by blast+
  have fr: "window b1" "blocked b1 = blocked b" using commit_frame [OF k] opts(2) by simp_all
  have s1: "s1 = (tlive (ts ! i))\<lparr>cache := v\<rparr>" using commit_cache [OF k] .
  have at_i: "us ! i = (ts ! i)\<lparr>tlive := s1, unsaved := \<not> ok\<rparr>" using i(1) by (simp add: us_def)
  have "in_step opts b (ts ! i)" using inv i(1) by (simp add: list_all_length)
  then have att: "attached s1 \<longleftrightarrow> 0 < listeners s1" by (simp add: in_step_def s1)
  have "ok \<Longrightarrow> serialize (loadFromStorage opts b1) = serialize v"
    using load_after_commit [OF opts(1) i(2) opts(2)] k by simp
  then have own: "in_step opts b1 (us ! i)"
    using att opts(1) unfolding at_i by (simp add: in_step_def s1)
  have len: "length us = length ts" by (simp add: us_def)
  have "in_step opts b1 (ts' ! j)" if j: "j < length ts" for j
  proof (cases "j = i")
    case True
    with own j len show ?thesis by (simp add: ts' notify_others_nth)
  next
    case False
    then have old: "us ! j = ts ! j" "in_step opts b (ts ! j)" using inv j by (simp_all add: us_def list_all_length)
    show ?thesis
    proof (cases "item b1 (skey opts) = item b (skey opts)")
      case True
      then have "loadFromStorage opts b1 = loadFromStorage opts b" using fr opts(2) by (intro load_cong) simp_all
      from in_step_load [OF this] old True show ?thesis by (simp add: ts')
    next
      case changed: False
      with old j False len show ?thesis by (simp add: ts' notify_others_nth in_step_notified)
    qed
  qed
  moreover have "length ts' = length ts" using len by (simp add: ts' notify_others_nth)
  ultimately show ?thesis using fr(1) by (simp add: list_all_length b')
qed

lemma in_step_deliver:
  assumes "codes opts" "in_step opts b t"
  shows "in_step opts b \<lparr>tlive = onStorage opts (Some (skey opts)) b (tlive t), inbox = n, unsaved = False\<rparr>"
proof -
  have "attached (onStorage opts k b s) = attached s \<and> listeners (onStorage opts k b s) = listeners s" for k s
    by (simp add: onStorage_def Let_def)
  with assms onStorage_reads [of opts "Some (skey opts)" b "tlive t"] show ?thesis by (simp add: in_step_def)
qed

lemma device_step_keeps:
  assumes "device_step opts valid d d'" and "codes opts" "scrossTab opts"
    and "window (fst d)" "list_all (in_step opts (fst d)) (snd d)"
  shows "window (fst d') \<and> list_all (in_step opts (fst d')) (snd d')"
  using assms
proof (induction rule: device_step.induct)
  case (open_tab b ts)
  then show ?case by (simp add: in_step_opened)
next
  case (claim_tab b v b' ts)
  then show ?case
    using browser_frame(1) [OF claim_tab.hyps(2)]
    by (auto simp: list_all_iff in_step_notified in_step_opened)
next
  case (commit_tab i ts v b)
  then show ?case using commit_keeps_step [of opts b i ts v] by (cases "tab_commit opts i v (b, ts)") simp
next
  case (deliver i ts n b)
  then have "in_step opts b (ts ! i)" by (simp add: list_all_length)
  with deliver show ?case by (simp add: list_all_updated in_step_deliver)
next
  case (subscribe_tab i ts b)
  then have "in_step opts b (ts ! i)" by (simp add: list_all_length)
  then show ?case using subscribe_tab by (simp add: list_all_updated in_step_subscribe)
next
  case (unsubscribe_tab i ts b)
  then have "in_step opts b (ts ! i)" by (simp add: list_all_length)
  then show ?case using unsubscribe_tab by (simp add: list_all_updated in_step_unsubscribe)
next
  case (quota b ts r)
  then show ?case using in_step_load [OF load_quota [of opts r b]] by (simp add: list_all_iff)
qed

lemma device_run_keeps:
  assumes "rtranclp (device_step opts valid) d d'" and "codes opts" "scrossTab opts"
    and "window (fst d)" "list_all (in_step opts (fst d)) (snd d)"
  shows "window (fst d') \<and> list_all (in_step opts (fst d')) (snd d')"
  using assms(1)
proof (induction rule: rtranclp_induct)
  case base
  then show ?case using assms(4,5) by blast
next
  case (step d1 d2)
  then show ?case using device_step_keeps [OF step.hyps(2) assms(2,3)] by blast
qed

end

end
