(* ===== verification/Device_Sets.thy ===== *)
theory Device_Sets
  imports Device_Store
begin

text \<open>
  Per-account buckets (\<open>app/src/lib/viewerScopedStore.ts\<close>) and the sets of strings kept in them
  (\<open>stringSetStore.ts\<close>): bookmarks, mutes, blocks and hidden posts.  The state of a page is the browser and
  the map of the buckets opened so far.
\<close>

section \<open>viewerScopedStore.ts\<close>

record 'a scoped_opts =
  prefix :: ustring
  vempty :: 'a
  vparse :: "stored option \<Rightarrow> 'a option"
  vserialize :: "'a \<Rightarrow> json"
  claimLegacy :: bool

type_synonym 'a page = "browser \<times> (ustring, 'a live) omap"

definition ANON :: ustring where "ANON = ascii ''anon''"

definition bucket_of :: "ustring option \<Rightarrow> ustring" where
  "bucket_of who = coalesce who ANON"

definition bucket_key :: "'a scoped_opts \<Rightarrow> ustring \<Rightarrow> ustring" where
  "bucket_key opts bucket = prefix opts @ 58 # bucket"

definition bucket_opts :: "'a scoped_opts \<Rightarrow> ustring \<Rightarrow> 'a store_opts" where
  "bucket_opts opts bucket = \<lparr>skey = bucket_key opts bucket, sempty = vempty opts, sparse = vparse opts,
     sserialize = vserialize opts, scrossTab = True\<rparr>"

definition claimLegacyFor :: "'a scoped_opts \<Rightarrow> ustring option \<Rightarrow> browser \<Rightarrow> browser" where
  "claimLegacyFor opts who b = (case who of None \<Rightarrow> b | Some w \<Rightarrow>
     if \<not> claimLegacy opts \<or> \<not> window b then b
     else case getItem b (bucket_key opts w) of
            Some None \<Rightarrow>
              (case getItem b (prefix opts) of
                 Some (Some legacy) \<Rightarrow>
                   (case setItem b (bucket_key opts w) legacy of
                      None \<Rightarrow> b
                    | Some b1 \<Rightarrow> coalesce (removeItem b1 (prefix opts)) b1)
               | _ \<Rightarrow> b)
          | _ \<Rightarrow> b)"

definition storeFor :: "'a scoped_opts \<Rightarrow> ustring option \<Rightarrow> 'a page \<Rightarrow> 'a page \<times> 'a live" where
  "storeFor opts who = (\<lambda>(b, m).
     case map_of m (bucket_of who) of
       Some s \<Rightarrow> ((b, m), s)
     | None \<Rightarrow>
         let b' = claimLegacyFor opts who b;
             s = createPersistentStore (bucket_opts opts (bucket_of who)) b'
         in ((b', omap_set (bucket_of who) s m), s))"

definition readFor :: "'a scoped_opts \<Rightarrow> ustring option \<Rightarrow> 'a page \<Rightarrow> 'a page \<times> 'a" where
  "readFor opts who p = (let (p', s) = storeFor opts who p in (p', cache s))"

definition update :: "'a scoped_opts \<Rightarrow> ustring option \<Rightarrow> ('a \<Rightarrow> 'a) \<Rightarrow> 'a page \<Rightarrow> 'a page \<times> bool" where
  "update opts who mutate p =
     (let ((b, m), s) = storeFor opts who p;
          ((b', s'), ok) = commit (bucket_opts opts (bucket_of who)) (mutate (cache s)) (b, s)
      in ((b', omap_set (bucket_of who) s' m), ok))"

text \<open>A page that has just loaded: no bucket is open.\<close>

definition reload :: "'a page \<Rightarrow> 'a page" where
  "reload p = (fst p, [])"

lemma bucket_opts_simps [simp]:
  "skey (bucket_opts opts w) = bucket_key opts w" "sempty (bucket_opts opts w) = vempty opts"
  "sparse (bucket_opts opts w) = vparse opts" "sserialize (bucket_opts opts w) = vserialize opts"
  by (simp_all add: bucket_opts_def)

lemma bucket_key_inject [simp]: "bucket_key opts v = bucket_key opts w \<longleftrightarrow> v = w"
  by (simp add: bucket_key_def)

lemma bucket_key_bare [simp]: "bucket_key opts w \<noteq> prefix opts" "prefix opts \<noteq> bucket_key opts w"
  by (simp_all add: bucket_key_def)

lemma bucket_of_Some [simp]: "bucket_of (Some w) = w"
  by (simp add: bucket_of_def)

lemma claim_other [store_simps]:
  "v \<noteq> bucket_of who \<Longrightarrow> item (claimLegacyFor opts who b) (bucket_key opts v) = item b (bucket_key opts v)"
  by (auto simp: claimLegacyFor_def coalesce_def item_setItem item_removeItem split: option.splits)

lemma claim_frame [store_simps]:
  "window (claimLegacyFor opts who b) = window b" "blocked (claimLegacyFor opts who b) = blocked b"
  "refuses (claimLegacyFor opts who b) = refuses b"
  by (auto simp: claimLegacyFor_def coalesce_def split: option.splits dest!: browser_frame)

lemma claim_held [store_simps]:
  "item b (bucket_key opts (bucket_of who)) = Some v \<Longrightarrow> claimLegacyFor opts who b = b"
  by (auto simp: claimLegacyFor_def getItem_def item_def split: option.splits if_splits)

lemma storeFor_open: "storeFor opts who p = ((b', m'), s) \<Longrightarrow> map_of m' (bucket_of who) = Some s"
  by (auto simp: storeFor_def Let_def split: prod.splits option.splits)

lemma storeFor_other:
  assumes "storeFor opts who (b, m) = ((b', m'), s)" and "v \<noteq> bucket_of who"
  shows "map_of m' v = map_of m v" and "item b' (bucket_key opts v) = item b (bucket_key opts v)"
    and "window b' = window b" "blocked b' = blocked b"
  using assms by (auto simp: storeFor_def Let_def claim_other claim_frame split: option.splits)

lemma storeFor_frame:
  "storeFor opts who (b, m) = ((b', m'), s) \<Longrightarrow> window b' = window b \<and> blocked b' = blocked b \<and> refuses b' = refuses b"
  by (auto simp: storeFor_def Let_def claim_frame split: option.splits)

text \<open>What an account sees: its open bucket, or what its stored item loads to.\<close>

definition held :: "'a scoped_opts \<Rightarrow> ustring \<Rightarrow> 'a page \<Rightarrow> bool" where
  "held opts w p \<longleftrightarrow> map_of (snd p) w \<noteq> None \<or> item (fst p) (bucket_key opts w) \<noteq> None"

text \<open>What a bucket without an item reads.\<close>

definition unstored :: "'a scoped_opts \<Rightarrow> browser \<Rightarrow> 'a" where
  "unstored opts b = (if \<not> window b \<or> blocked b then vempty opts else coalesce (vparse opts None) (vempty opts))"

lemma load_unstored: "item b (bucket_key opts w) = None \<Longrightarrow> loadFromStorage (bucket_opts opts w) b = unstored opts b"
  by (auto simp: loadFromStorage_def unstored_def getItem_def item_def coalesce_def split: option.splits)

lemma claim_item:
  "item b (bucket_key opts w) = None \<Longrightarrow> item (claimLegacyFor opts (Some w) b) (bucket_key opts w) =
     (if claimLegacy opts \<and> window b \<and> \<not> blocked b
      then (case item b (prefix opts) of Some l \<Rightarrow> if refuses b (bucket_key opts w) l then None else Some l | None \<Rightarrow> None)
      else None)"
  by (auto simp: claimLegacyFor_def getItem_def item_def setItem_def removeItem_def coalesce_def split: option.splits)

lemma readFor_closed:
  "map_of m w = None \<Longrightarrow>
   snd (readFor opts (Some w) (b, m)) = loadFromStorage (bucket_opts opts w) (claimLegacyFor opts (Some w) b)"
  by (simp add: readFor_def storeFor_def Let_def createPersistentStore_def)

lemma claim_item_same:
  assumes "item b' (bucket_key opts w) = item b (bucket_key opts w)"
    and "window b' = window b" "blocked b' = blocked b" "refuses b' = refuses b"
    and "item b' (prefix opts) = item b (prefix opts) \<or> item b (bucket_key opts w) \<noteq> None \<or> \<not> claimLegacy opts"
  shows "item (claimLegacyFor opts (Some w) b') (bucket_key opts w) = item (claimLegacyFor opts (Some w) b) (bucket_key opts w)"
proof (cases "item b (bucket_key opts w)")
  case None
  with assms show ?thesis by (auto simp: claim_item split: option.split)
next
  case (Some v)
  with assms(1) claim_held [of b opts "Some w"] claim_held [of b' opts "Some w"] show ?thesis by simp
qed

lemma readFor_others:
  assumes "map_of m' w = map_of m w" "item b' (bucket_key opts w) = item b (bucket_key opts w)"
    and "window b' = window b" "blocked b' = blocked b" "refuses b' = refuses b"
    and "item b' (prefix opts) = item b (prefix opts) \<or> item b' (prefix opts) = None"
  shows "held opts w (b, m) \<or> \<not> claimLegacy opts \<or> item b (prefix opts) = None \<Longrightarrow>
           snd (readFor opts (Some w) (b', m')) = snd (readFor opts (Some w) (b, m))"
    and "snd (readFor opts (Some w) (b', m')) \<in> {snd (readFor opts (Some w) (b, m)), unstored opts b}"
proof -
  have same: "snd (readFor opts (Some w) (b', m')) = snd (readFor opts (Some w) (b, m))"
    if "held opts w (b, m) \<or> \<not> claimLegacy opts \<or> item b' (prefix opts) = item b (prefix opts)"
  proof (cases "map_of m w")
    case None
    have "loadFromStorage (bucket_opts opts w) (claimLegacyFor opts (Some w) b') =
        loadFromStorage (bucket_opts opts w) (claimLegacyFor opts (Some w) b)"
      using that None assms
      by (intro load_cong) (auto simp: claim_frame held_def intro!: claim_item_same)
    with None assms(1) show ?thesis by (simp add: readFor_closed)
  qed (simp add: readFor_def storeFor_def assms(1))
  then show "held opts w (b, m) \<or> \<not> claimLegacy opts \<or> item b (prefix opts) = None \<Longrightarrow>
      snd (readFor opts (Some w) (b', m')) = snd (readFor opts (Some w) (b, m))"
    using assms(6) by argo
  show "snd (readFor opts (Some w) (b', m')) \<in> {snd (readFor opts (Some w) (b, m)), unstored opts b}"
  proof (cases "held opts w (b, m) \<or> item b' (prefix opts) = item b (prefix opts)")
    case False
    then have none: "map_of m' w = None" "item b' (bucket_key opts w) = None" "item b' (prefix opts) = None"
      using assms by (auto simp: held_def)
    then have "item (claimLegacyFor opts (Some w) b') (bucket_key opts w) = None" by (simp add: claim_item)
    then have "snd (readFor opts (Some w) (b', m')) = unstored opts (claimLegacyFor opts (Some w) b')"
      using none(1) by (simp add: readFor_closed load_unstored)
    also have "\<dots> = unstored opts b" using assms(3,4) by (simp add: unstored_def claim_frame)
    finally show ?thesis by simp
  qed (use same in auto)
qed

definition updates :: "'a scoped_opts \<Rightarrow> (ustring option \<times> ('a \<Rightarrow> 'a)) list \<Rightarrow> 'a page \<Rightarrow> 'a page" where
  "updates opts = fold (\<lambda>(who, f) p. fst (update opts who f p))"

lemma claim_legacy_key:
  "item (claimLegacyFor opts who b) (prefix opts) = item b (prefix opts) \<or> item (claimLegacyFor opts who b) (prefix opts) = None"
  by (auto simp: claimLegacyFor_def coalesce_def item_setItem item_removeItem split: option.splits)

lemma storeFor_legacy_key:
  "storeFor opts who (b, m) = ((b', m'), s) \<Longrightarrow> item b' (prefix opts) = item b (prefix opts) \<or> item b' (prefix opts) = None"
  using claim_legacy_key [of opts who b] by (auto simp: storeFor_def Let_def split: option.splits)

text \<open>What an update made under another account leaves to this one.\<close>

definition left_alone :: "'a scoped_opts \<Rightarrow> ustring \<Rightarrow> 'a page \<Rightarrow> 'a page \<Rightarrow> bool" where
  "left_alone opts w p p' \<longleftrightarrow> map_of (snd p') w = map_of (snd p) w \<and>
     item (fst p') (bucket_key opts w) = item (fst p) (bucket_key opts w) \<and>
     window (fst p') = window (fst p) \<and> blocked (fst p') = blocked (fst p) \<and> refuses (fst p') = refuses (fst p) \<and>
     (item (fst p') (prefix opts) = item (fst p) (prefix opts) \<or> item (fst p') (prefix opts) = None)"

lemma update_other:
  assumes "update opts who f p = (p', ok)" and "w \<noteq> bucket_of who"
  shows "left_alone opts w p p'"
proof -
  obtain b m where p: "p = (b, m)" by (cases p)
  obtain b1 m1 s where 1: "storeFor opts who (b, m) = ((b1, m1), s)" by (metis surj_pair)
  obtain b2 s2 r where 2: "commit (bucket_opts opts (bucket_of who)) (f (cache s)) (b1, s) = ((b2, s2), r)"
    by (metis surj_pair)
  have "p' = (b2, omap_set (bucket_of who) s2 m1)" using assms(1) by (simp add: update_def p 1 2)
  then show ?thesis
    using storeFor_other [OF 1 assms(2)] commit_other_key [OF 2, of "bucket_key opts w"] commit_frame [OF 2] assms(2)
      storeFor_frame [OF 1] storeFor_legacy_key [OF 1] commit_other_key [OF 2, of "prefix opts"]
    by (simp add: left_alone_def p)
qed

lemma updates_other:
  "\<forall>(who, f) \<in> set ops. bucket_of who \<noteq> w \<Longrightarrow> left_alone opts w p (updates opts ops p)"
proof (induction ops arbitrary: p)
  case Nil
  then show ?case by (simp add: updates_def left_alone_def)
next
  case (Cons op ops)
  obtain who f where op: "op = (who, f)" by (cases op)
  obtain p1 ok where 1: "update opts who f p = (p1, ok)" by (metis surj_pair)
  have "left_alone opts w p p1" by (rule update_other [OF 1]) (use Cons.prems op in auto)
  moreover have "left_alone opts w p1 (updates opts ops p1)" using Cons by simp
  moreover have "updates opts (op # ops) p = updates opts ops p1" by (simp add: updates_def op 1)
  ultimately show ?case by (auto simp: left_alone_def)
qed

lemma update_shows:
  assumes "update opts who f p = (p', ok)"
  shows "snd (readFor opts who p') = f (snd (readFor opts who p))"
    and "window (fst p') = window (fst p)"
proof -
  obtain b m where p: "p = (b, m)" by (cases p)
  obtain b1 m1 s where 1: "storeFor opts who (b, m) = ((b1, m1), s)" by (metis surj_pair)
  obtain b2 s2 r where 2: "commit (bucket_opts opts (bucket_of who)) (f (cache s)) (b1, s) = ((b2, s2), r)"
    by (metis surj_pair)
  have p': "p' = (b2, omap_set (bucket_of who) s2 m1)" using assms by (simp add: update_def p 1 2)
  then show "snd (readFor opts who p') = f (snd (readFor opts who p))"
    using commit_cache [OF 2] by (simp add: readFor_def p 1) (simp add: storeFor_def)
  show "window (fst p') = window (fst p)" using p' p storeFor_frame [OF 1] commit_frame [OF 2] by simp
qed

text \<open>The values of the open buckets; a bucket that is not open reads its item when it is opened.\<close>

definition page_ok :: "('a \<Rightarrow> bool) \<Rightarrow> 'a page \<Rightarrow> bool" where
  "page_ok valid p \<longleftrightarrow> (\<forall>s \<in> ran (map_of (snd p)). valid (cache s))"

lemma page_ok_set: "page_ok valid (b, m) \<Longrightarrow> valid (cache s) \<Longrightarrow> page_ok valid (b', omap_set k s m)"
  by (auto simp: page_ok_def ran_def)

lemma page_ok_get: "page_ok valid (b, m) \<Longrightarrow> map_of m k = Some s \<Longrightarrow> valid (cache s)"
  by (auto simp: page_ok_def ran_def)

lemma page_ok_reload [simp]: "page_ok valid (reload p)"
  by (simp add: page_ok_def reload_def)

lemma commit_stores:
  "commit opts v (b, s) = ((b', s'), r) \<Longrightarrow> r \<Longrightarrow> window b \<Longrightarrow>
   item b' (skey opts) = Some (Json (sserialize opts v))"
  by (auto simp: commit_def Let_def item_setItem split: option.splits)

context codec
begin

abbreviation vcodes :: "'a scoped_opts \<Rightarrow> bool" where
  "vcodes opts \<equiv> vparse opts = parse \<and> vserialize opts = serialize \<and> vempty opts = empty_value"

lemma storeFor_valid:
  assumes "vcodes opts" "page_ok valid p" "storeFor opts who p = (p', s)"
  shows "valid (cache s) \<and> page_ok valid p'"
proof -
  obtain b m where p: "p = (b, m)" by (cases p)
  have new: "valid (cache (createPersistentStore (bucket_opts opts w) b'))" for w b'
    by (rule create_valid) (simp add: assms(1))
  show ?thesis
  proof (cases "map_of m (bucket_of who)")
    case None
    then have "s = createPersistentStore (bucket_opts opts (bucket_of who)) (claimLegacyFor opts who b)"
      and "p' = (claimLegacyFor opts who b, omap_set (bucket_of who) s m)"
      using assms(3) by (auto simp: storeFor_def p Let_def)
    then show ?thesis using new page_ok_set [of valid b m s] assms(2) p by simp
  next
    case (Some s0)
    then have "s = s0" "p' = (b, m)" using assms(3) by (simp_all add: storeFor_def p)
    then show ?thesis using page_ok_get [of valid b m _ s0] assms(2) Some p by simp
  qed
qed

lemma readFor_valid:
  assumes "vcodes opts" "page_ok valid p" "readFor opts who p = (p', v)"
  shows "valid v \<and> page_ok valid p'"
proof -
  obtain q s where 1: "storeFor opts who p = (q, s)" by (cases "storeFor opts who p")
  with assms(3) have "p' = q" "v = cache s" by (simp_all add: readFor_def)
  with storeFor_valid [OF assms(1,2) 1] show ?thesis by simp
qed

lemma update_valid:
  assumes "vcodes opts" "page_ok valid p" "valid (f (snd (readFor opts who p)))" "update opts who f p = (p', ok)"
  shows "page_ok valid p'"
proof -
  obtain b1 m1 s where 1: "storeFor opts who p = ((b1, m1), s)" by (metis surj_pair)
  obtain b2 s2 r where 2: "commit (bucket_opts opts (bucket_of who)) (f (cache s)) (b1, s) = ((b2, s2), r)"
    by (metis surj_pair)
  have p': "p' = (b2, omap_set (bucket_of who) s2 m1)" using assms(4) by (simp add: update_def 1 2)
  have "valid (cache s2)" using commit_cache [OF 2] assms(3) by (simp add: readFor_def 1)
  with storeFor_valid [OF assms(1,2) 1] show ?thesis using page_ok_set [of valid b1 m1 s2] by (simp add: p')
qed

text \<open>A successful update is what a page that loads afterwards reads.\<close>

lemma update_survives:
  assumes "vcodes opts" "window (fst p)" "valid (f (snd (readFor opts who p)))" "update opts who f p = (p', True)"
  shows "serialize (snd (readFor opts who (reload p'))) = serialize (f (snd (readFor opts who p)))"
proof -
  obtain b m where p: "p = (b, m)" by (cases p)
  obtain b1 m1 s where 1: "storeFor opts who (b, m) = ((b1, m1), s)" by (metis surj_pair)
  obtain b2 s2 r where 2: "commit (bucket_opts opts (bucket_of who)) (f (cache s)) (b1, s) = ((b2, s2), r)"
    by (metis surj_pair)
  have p': "fst p' = b2" and ok: r using assms(4) by (auto simp: update_def p 1 2)
  have w: "window b1" using storeFor_frame [OF 1] assms(2) p by simp
  let ?o = "bucket_opts opts (bucket_of who)"
  have f: "f (snd (readFor opts who p)) = f (cache s)" by (simp add: readFor_def p 1)
  have "serialize (loadFromStorage ?o b2) = serialize (f (cache s))"
    by (rule load_after_commit [of ?o _ b1 s _ s2]) (use assms(1,3) f w 2 ok in simp_all)
  moreover have "item b2 (bucket_key opts (bucket_of who)) = Some (Json (serialize (f (cache s))))"
    using commit_stores [OF 2] ok w assms(1) by simp
  then have "claimLegacyFor opts who b2 = b2" by (rule claim_held)
  ultimately show ?thesis
    unfolding f by (simp add: readFor_def storeFor_def reload_def p' Let_def createPersistentStore_def)
qed

end

section \<open>stringSetStore.ts\<close>

text \<open>A JavaScript set is the list of its elements in insertion order.\<close>

record set_opts =
  oprefix :: ustring
  isValid :: "ustring \<Rightarrow> bool"
  omax :: "nat option"
  oclaimLegacy :: bool

fun str_of :: "json \<Rightarrow> ustring option" where
  "str_of (JStr s) = Some s"
| "str_of _ = None"

fun elements :: "json \<Rightarrow> json list option" where
  "elements (JArr xs) = Some xs"
| "elements _ = None"

definition new_set :: "'a list \<Rightarrow> 'a list" where
  "new_set xs = fold (\<lambda>x s. if x \<in> set s then s else s @ [x]) xs []"

definition capped :: "nat option \<Rightarrow> 'a list \<Rightarrow> 'a list" where
  "capped cap xs = (case cap of None \<Rightarrow> xs | Some n \<Rightarrow> take n xs)"

definition set_parse :: "(ustring \<Rightarrow> bool) \<Rightarrow> nat option \<Rightarrow> stored option \<Rightarrow> ustring list option" where
  "set_parse ok cap raw = map_option (\<lambda>parsed.
     let kept = (case elements parsed of
                   Some xs \<Rightarrow> filter ok (List.map_filter str_of xs)
                 | None \<Rightarrow> [])
     in new_set (capped cap kept)) (parse_or (JArr []) raw)"

definition set_serialize :: "ustring list \<Rightarrow> json" where
  "set_serialize s = JArr (map JStr (js_sort unit_cmp s))"

definition string_set_store :: "set_opts \<Rightarrow> ustring list scoped_opts" where
  "string_set_store o' = \<lparr>prefix = oprefix o', vempty = [], vparse = set_parse (isValid o') (omax o'),
     vserialize = set_serialize, claimLegacy = oclaimLegacy o'\<rparr>"

definition set_add :: "'a \<Rightarrow> 'a list \<Rightarrow> 'a list" where
  "set_add v s = (if v \<in> set s then s else s @ [v])"

definition fits :: "nat option \<Rightarrow> nat \<Rightarrow> bool" where
  "fits cap n = (case cap of None \<Rightarrow> True | Some c \<Rightarrow> n \<le> c)"

definition full :: "nat option \<Rightarrow> nat \<Rightarrow> bool" where
  "full cap n = (case cap of None \<Rightarrow> False | Some c \<Rightarrow> c \<le> n)"

definition add :: "set_opts \<Rightarrow> ustring option \<Rightarrow> ustring \<Rightarrow> ustring list page \<Rightarrow> ustring list page \<times> bool" where
  "add o' who v p =
     (if \<not> isValid o' v then (p, False)
      else let (p, current) = readFor (string_set_store o') who p
           in if v \<in> set current then (p, True)
              else if full (omax o') (length current) then (p, False)
              else update (string_set_store o') who (set_add v) p)"

definition remove :: "set_opts \<Rightarrow> ustring option \<Rightarrow> ustring \<Rightarrow> ustring list page \<Rightarrow> ustring list page \<times> bool" where
  "remove o' who v p =
     (let (p, current) = readFor (string_set_store o') who p
      in if v \<notin> set current then (p, True)
         else update (string_set_store o') who (filter (\<lambda>x. x \<noteq> v)) p)"

definition toggle :: "set_opts \<Rightarrow> ustring option \<Rightarrow> ustring \<Rightarrow> ustring list page \<Rightarrow> ustring list page \<times> bool" where
  "toggle o' who v p =
     (let (p, current) = readFor (string_set_store o') who p
      in if v \<in> set current then remove o' who v p else add o' who v p)"

definition set_valid :: "(ustring \<Rightarrow> bool) \<Rightarrow> nat option \<Rightarrow> ustring list \<Rightarrow> bool" where
  "set_valid ok cap s \<longleftrightarrow> distinct s \<and> list_all ok s \<and> fits cap (length s)"

lemma new_set_aux:
  "distinct s \<Longrightarrow> distinct (fold (\<lambda>x s. if x \<in> set s then s else s @ [x]) xs s) \<and>
   set (fold (\<lambda>x s. if x \<in> set s then s else s @ [x]) xs s) = set s \<union> set xs \<and>
   length (fold (\<lambda>x s. if x \<in> set s then s else s @ [x]) xs s) \<le> length s + length xs"
proof (induction xs arbitrary: s)
  case (Cons x xs)
  show ?case
  proof (cases "x \<in> set s")
    case True
    with Cons.IH [OF Cons.prems] show ?thesis by auto
  next
    case False
    with Cons.IH [of "s @ [x]"] Cons.prems show ?thesis by auto
  qed
qed simp

lemma new_set_facts: "distinct (new_set xs)" "set (new_set xs) = set xs" "length (new_set xs) \<le> length xs"
  using new_set_aux [of "[]" xs] by (simp_all add: new_set_def)

lemma fold_new_set_distinct:
  "distinct (s @ xs) \<Longrightarrow> fold (\<lambda>x s. if x \<in> set s then s else s @ [x]) xs s = s @ xs"
  by (induction xs arbitrary: s) auto

lemma new_set_distinct: "distinct xs \<Longrightarrow> new_set xs = xs"
  using fold_new_set_distinct [of "[]" xs] by (simp add: new_set_def)

lemma capped_facts: "fits cap (length (capped cap xs))" "set (capped cap xs) \<subseteq> set xs"
  by (auto simp: fits_def capped_def dest: in_set_takeD split: option.splits)

lemma full_fits: "full cap n \<longleftrightarrow> \<not> fits cap (Suc n)"
  by (auto simp: full_def fits_def split: option.splits)

lemma fits_le: "fits cap n \<Longrightarrow> m \<le> n \<Longrightarrow> fits cap m"
  by (auto simp: fits_def split: option.splits)

lemma capped_id: "fits cap (length xs) \<Longrightarrow> capped cap xs = xs"
  by (auto simp: fits_def capped_def split: option.splits)

lemma map_filter_str [simp]: "List.map_filter str_of (map JStr xs) = xs"
  by (induction xs) (simp_all add: List.map_filter_def)

lemma distinct_js_sort [simp]: "distinct (js_sort cmp xs) = distinct xs"
  by (metis distinct_count_atmost_1 mset_js_sort set_js_sort)

lemma set_parse_serialize:
  assumes "set_valid ok cap s"
  shows "set_parse ok cap (Some (Json (set_serialize s))) = Some (js_sort unit_cmp s)"
proof -
  have "filter ok (js_sort unit_cmp s) = js_sort unit_cmp s"
    using assms by (auto simp: set_valid_def list_all_iff filter_id_conv)
  then show ?thesis
    using assms by (simp add: set_parse_def set_serialize_def set_valid_def capped_id new_set_distinct)
qed

interpretation string_set: codec "set_parse ok cap" set_serialize "set_valid ok cap" "[]" for ok cap
proof
  fix raw s
  assume "set_parse ok cap raw = Some s"
  then obtain xs where s: "s = new_set (capped cap (filter ok xs))"
    by (auto simp: set_parse_def Let_def split: option.splits intro: that [of "[]"])
  show "set_valid ok cap s"
    using capped_facts [of cap "filter ok xs"] new_set_facts [of "capped cap (filter ok xs)"]
    by (auto simp: set_valid_def s list_all_iff intro: fits_le)
next
  fix s
  assume "set_valid ok cap s"
  then show "\<exists>w. set_parse ok cap (Some (Json (set_serialize s))) = Some w \<and> set_serialize w = set_serialize s"
    by (simp add: set_parse_serialize) (simp add: set_serialize_def unit_order.sort_idem)
next
  show "set_valid ok cap []" by (simp add: set_valid_def fits_def split: option.splits)
qed

lemma string_set_store_simps [simp]:
  "vparse (string_set_store o') = set_parse (isValid o') (omax o')" "vserialize (string_set_store o') = set_serialize"
  "vempty (string_set_store o') = []" "prefix (string_set_store o') = oprefix o'"
  "claimLegacy (string_set_store o') = oclaimLegacy o'"
  by (simp_all add: string_set_store_def)

lemma set_serialize_set: "set_serialize s = set_serialize t \<Longrightarrow> set s = set t"
proof -
  assume "set_serialize s = set_serialize t"
  then have "map JStr (js_sort unit_cmp s) = map JStr (js_sort unit_cmp t)" by (simp add: set_serialize_def)
  then have "js_sort unit_cmp s = js_sort unit_cmp t" by (simp add: inj_map_eq_map inj_def)
  then show ?thesis by (metis set_js_sort)
qed

lemma readFor_again: "readFor opts who p = (p', v) \<Longrightarrow> readFor opts who p' = (p', v)"
  by (auto simp: readFor_def storeFor_def Let_def split: prod.splits option.splits)

lemma readFor_window: "readFor opts who p = (p', v) \<Longrightarrow> window (fst p') = window (fst p)"
proof -
  assume r: "readFor opts who p = (p', v)"
  obtain b m b1 m1 s where "p = (b, m)" "storeFor opts who (b, m) = ((b1, m1), s)" by (metis surj_pair)
  with r storeFor_frame [of opts who b m] show ?thesis by (auto simp: readFor_def)
qed

abbreviation "set_page o' \<equiv> page_ok (set_valid (isValid o') (omax o'))"

lemma set_update_facts:
  assumes "set_page o' p" "readFor (string_set_store o') who p = (p1, s)"
    and "set_valid (isValid o') (omax o') (f s)" "update (string_set_store o') who f p1 = (p', ok)"
  shows "set_page o' p'" and "snd (readFor (string_set_store o') who p') = f s"
    and "window (fst p') = window (fst p)"
    and "window (fst p) \<Longrightarrow> ok \<Longrightarrow> set (snd (readFor (string_set_store o') who (reload p'))) = set (f s)"
proof -
  let ?S = "string_set_store o'"
  have again: "snd (readFor ?S who p1) = s" using readFor_again [OF assms(2)] by simp
  have w: "window (fst p1) = window (fst p)" by (rule readFor_window [OF assms(2)])
  have v1: "set_page o' p1" using string_set.readFor_valid [OF _ assms(1,2)] by simp
  show "set_page o' p'" by (rule string_set.update_valid [OF _ v1 _ assms(4)]) (simp_all add: again assms(3))
  show "snd (readFor ?S who p') = f s" using update_shows(1) [OF assms(4)] again by simp
  show "window (fst p') = window (fst p)" using update_shows(2) [OF assms(4)] w by simp
  assume "window (fst p)" ok
  then have "set_serialize (snd (readFor ?S who (reload p'))) = set_serialize (f s)"
    using string_set.update_survives [of ?S "isValid o'" "omax o'" p1 f who p'] assms(3,4) again w by simp
  then show "set (snd (readFor ?S who (reload p'))) = set (f s)" by (rule set_serialize_set)
qed

lemma set_valid_add:
  "set_valid ok cap s \<Longrightarrow> ok v \<Longrightarrow> \<not> full cap (length s) \<Longrightarrow> set_valid ok cap (set_add v s)"
  by (auto simp: set_valid_def set_add_def full_fits)

lemma set_valid_filter: "set_valid ok cap s \<Longrightarrow> set_valid ok cap (filter P s)"
  by (auto simp: set_valid_def list_all_iff intro: fits_le)

lemma set_readFor_valid:
  "set_page o' p \<Longrightarrow> readFor (string_set_store o') who p = (p1, s) \<Longrightarrow>
   set_valid (isValid o') (omax o') s \<and> set_page o' p1"
  by (rule string_set.readFor_valid) simp_all

text \<open>
  The actions of a set: what they leave in the set, what they answer and what survives a reload.
\<close>

lemma add_new:
  assumes "set_page o' p" "readFor (string_set_store o') who p = (p1, s)"
    and "isValid o' v" "v \<notin> set s" "\<not> full (omax o') (length s)" "add o' who v p = (p', ok)"
  shows "set_page o' p'" and "snd (readFor (string_set_store o') who p') = s @ [v]"
    and "window (fst p) \<Longrightarrow> ok \<Longrightarrow> set (snd (readFor (string_set_store o') who (reload p'))) = insert v (set s)"
proof -
  have u: "update (string_set_store o') who (set_add v) p1 = (p', ok)"
    using assms(2-6) by (simp add: add_def)
  have val: "set_valid (isValid o') (omax o') (set_add v s)"
    by (rule set_valid_add) (use set_readFor_valid [OF assms(1,2)] assms(3,5) in simp_all)
  note facts = set_update_facts [OF assms(1,2) val u]
  show "set_page o' p'" by (rule facts(1))
  show "snd (readFor (string_set_store o') who p') = s @ [v]" using facts(2) assms(4) by (simp add: set_add_def)
  show "window (fst p) \<Longrightarrow> ok \<Longrightarrow> set (snd (readFor (string_set_store o') who (reload p'))) = insert v (set s)"
    using facts(4) assms(4) by (simp add: set_add_def)
qed

lemma remove_present:
  assumes "set_page o' p" "readFor (string_set_store o') who p = (p1, s)"
    and "v \<in> set s" "remove o' who v p = (p', ok)"
  shows "set_page o' p'" and "snd (readFor (string_set_store o') who p') = filter (\<lambda>x. x \<noteq> v) s"
    and "window (fst p) \<Longrightarrow> ok \<Longrightarrow> set (snd (readFor (string_set_store o') who (reload p'))) = set s - {v}"
proof -
  have u: "update (string_set_store o') who (filter (\<lambda>x. x \<noteq> v)) p1 = (p', ok)"
    using assms(2-4) by (simp add: remove_def)
  have val: "set_valid (isValid o') (omax o') (filter (\<lambda>x. x \<noteq> v) s)"
    by (rule set_valid_filter) (use set_readFor_valid [OF assms(1,2)] in simp)
  note facts = set_update_facts [OF assms(1,2) val u]
  show "set_page o' p'" by (rule facts(1))
  show "snd (readFor (string_set_store o') who p') = filter (\<lambda>x. x \<noteq> v) s" by (rule facts(2))
  show "window (fst p) \<Longrightarrow> ok \<Longrightarrow> set (snd (readFor (string_set_store o') who (reload p'))) = set s - {v}"
    using facts(4) by (simp add: set_diff_eq)
qed

text \<open>
  C18: an account's view of its own store does not depend on what the other accounts of the device do, except for
  the one device-global value from before accounts had buckets.  Any sequence of updates made under other accounts or
  signed out leaves what an account reads unchanged if the account has an open bucket or a stored item, or if
  there is no device-global value to claim.  Otherwise another account may claim that value first, and then the
  account reads what a bucket without an item reads; it never reads anything else.
\<close>

theorem accounts_isolated:
  assumes "\<forall>(who, f) \<in> set ops. bucket_of who \<noteq> w"
  shows "(held opts w p \<or> \<not> claimLegacy opts \<or> item (fst p) (prefix opts) = None \<longrightarrow>
            snd (readFor opts (Some w) (updates opts ops p)) = snd (readFor opts (Some w) p)) \<and>
         snd (readFor opts (Some w) (updates opts ops p)) \<in> {snd (readFor opts (Some w) p), unstored opts (fst p)}"
proof -
  obtain b m b' m' where p: "p = (b, m)" "updates opts ops p = (b', m')" by (metis surj_pair)
  with updates_other [OF assms, of opts p] have l: "map_of m' w = map_of m w"
    "item b' (bucket_key opts w) = item b (bucket_key opts w)" "window b' = window b" "blocked b' = blocked b"
    "refuses b' = refuses b" "item b' (prefix opts) = item b (prefix opts) \<or> item b' (prefix opts) = None"
    by (simp_all add: left_alone_def)
  show ?thesis using readFor_others [OF l] unfolding p(2) unfolding p(1) by simp
qed

definition demo_browser :: browser where
  "demo_browser = \<lparr>window = True, blocked = False, refuses = (\<lambda>_ _. False), disk = []\<rparr>"

definition demo_set :: set_opts where
  "demo_set = \<lparr>oprefix = [112], isValid = (\<lambda>v. v \<noteq> []), omax = Some 2, oclaimLegacy = True\<rparr>"

definition demo_page :: "ustring list page" where
  "demo_page = (demo_browser, [([119], \<lparr>cache = [[98]], listeners = 0, attached = False\<rparr>)])"

theorem accounts_isolated_witness:
  "snd (readFor (string_set_store demo_set) (Some [119])
     (updates (string_set_store demo_set) [(None, set_add [97]), (Some [120], set_add [99])] demo_page)) = [[98]]"
proof -
  have held: "held (string_set_store demo_set) [119] demo_page"
    by (simp add: held_def demo_page_def)
  have others: "\<forall>(who, f) \<in> set [(None, set_add [97]), (Some [120], set_add [99])]. bucket_of who \<noteq> [119]"
    by (simp add: bucket_of_def ANON_def ascii_def)
  have "snd (readFor (string_set_store demo_set) (Some [119]) demo_page) = [[98]]"
    by (simp add: readFor_def storeFor_def demo_page_def)
  with accounts_isolated [OF others, of "string_set_store demo_set" demo_page] held show ?thesis by simp
qed

section \<open>bookmarkStore.ts, muteStore.ts, blockStore.ts, hiddenStore.ts\<close>

definition udigits :: "ustring \<Rightarrow> bool" where
  "udigits v \<longleftrightarrow> v \<noteq> [] \<and> list_all (\<lambda>c. 48 \<le> c \<and> c \<le> 57) v"

definition MAX_BOOKMARKS :: nat where "MAX_BOOKMARKS = 500"
definition MAX_HIDDEN :: nat where "MAX_HIDDEN = 1000"

definition bookmark_opts :: set_opts where
  "bookmark_opts = \<lparr>oprefix = ascii ''cg-bookmarks'', isValid = udigits, omax = Some MAX_BOOKMARKS, oclaimLegacy = True\<rparr>"

definition mute_opts :: set_opts where
  "mute_opts = \<lparr>oprefix = ascii ''cg-muted'', isValid = (\<lambda>v. 0 < length v), omax = None, oclaimLegacy = True\<rparr>"

definition block_opts :: set_opts where
  "block_opts = \<lparr>oprefix = ascii ''cg-blocked'', isValid = (\<lambda>v. 0 < length v), omax = None, oclaimLegacy = True\<rparr>"

definition hidden_opts :: set_opts where
  "hidden_opts = \<lparr>oprefix = ascii ''cg-hidden'', isValid = udigits, omax = Some MAX_HIDDEN, oclaimLegacy = True\<rparr>"

record 'k set_actions =
  act_add :: "'k \<Rightarrow> ustring list page \<Rightarrow> ustring list page \<times> bool"
  act_remove :: "'k \<Rightarrow> ustring list page \<Rightarrow> ustring list page \<times> bool"
  act_toggle :: "'k \<Rightarrow> ustring list page \<Rightarrow> ustring list page \<times> bool"

definition actionsFor :: "set_opts \<Rightarrow> ustring option \<Rightarrow> ustring set_actions" where
  "actionsFor o' who = \<lparr>act_add = add o' who, act_remove = remove o' who, act_toggle = toggle o' who\<rparr>"

definition id_text :: "int \<Rightarrow> ustring" where
  "id_text i = ascii (show_int i)"

definition bookmarkActionsFor :: "ustring option \<Rightarrow> int set_actions" where
  "bookmarkActionsFor who = (let a = actionsFor bookmark_opts who in
     \<lparr>act_add = (\<lambda>i. act_add a (id_text i)), act_remove = (\<lambda>i. act_remove a (id_text i)),
      act_toggle = (\<lambda>i. act_toggle a (id_text i))\<rparr>)"

definition hiddenActionsFor :: "ustring option \<Rightarrow> int set_actions" where
  "hiddenActionsFor who = (let a = actionsFor hidden_opts who in
     \<lparr>act_add = (\<lambda>i. act_add a (id_text i)), act_remove = (\<lambda>i. act_remove a (id_text i)),
      act_toggle = (\<lambda>i. act_toggle a (id_text i))\<rparr>)"

definition muteActionsFor :: "ustring option \<Rightarrow> ustring set_actions" where
  "muteActionsFor who = actionsFor mute_opts who"

definition blockActionsFor :: "ustring option \<Rightarrow> ustring set_actions" where
  "blockActionsFor who = actionsFor block_opts who"

text \<open>\<open>BigInt(s)\<close>: defined on a text of digits; other texts that it would accept are not distinguished from those
  on which it throws.\<close>

definition big_int :: "ustring \<Rightarrow> int option" where
  "big_int s = (if udigits s then Some (foldl (\<lambda>a c. 10 * a + (int c - 48)) 0 s) else None)"

definition useBookmarked :: "int option \<Rightarrow> ustring list \<Rightarrow> bool" where
  "useBookmarked i snap = (case i of None \<Rightarrow> False | Some n \<Rightarrow> id_text n \<in> set snap)"

definition useBookmarkList :: "ustring list \<Rightarrow> int list option" where
  "useBookmarkList snap = those (map big_int snap)"

definition useHidden :: "int option \<Rightarrow> ustring list \<Rightarrow> bool" where
  "useHidden i snap = (case i of None \<Rightarrow> False | Some n \<Rightarrow> id_text n \<in> set snap)"

definition useHiddenList :: "ustring list \<Rightarrow> int list option" where
  "useHiddenList snap = those (map big_int snap)"

definition useMuted :: "ustring option \<Rightarrow> ustring list \<Rightarrow> bool" where
  "useMuted a snap = (case a of None \<Rightarrow> False | Some x \<Rightarrow> x \<in> set snap)"

definition useMutedList :: "ustring list \<Rightarrow> ustring list" where
  "useMutedList snap = snap"

definition useBlocked :: "ustring option \<Rightarrow> ustring list \<Rightarrow> bool" where
  "useBlocked a snap = (case a of None \<Rightarrow> False | Some x \<Rightarrow> x \<in> set snap)"

definition useBlockedList :: "ustring list \<Rightarrow> ustring list" where
  "useBlockedList snap = snap"

definition unit_digit :: "nat \<Rightarrow> bool" where
  "unit_digit c \<longleftrightarrow> 48 \<le> c \<and> c \<le> 57"

lemma udigits_ascii: "udigits (ascii s) = is_digits s"
proof -
  have "is_digit = unit_digit \<circ> of_char" "(\<lambda>c. 48 \<le> c \<and> c \<le> 57) = unit_digit"
    by (simp_all add: fun_eq_iff is_digit_def unit_digit_def)
  then show ?thesis by (simp add: udigits_def is_digits_def ascii_def list.pred_map)
qed

lemma id_text_digits: "udigits (id_text i) \<longleftrightarrow> 0 \<le> i"
  by (simp add: id_text_def udigits_ascii)

lemma foldl_ascii:
  "list_all is_digit s \<Longrightarrow> foldl (\<lambda>a c. 10 * a + (int c - 48)) (int a) (map of_char s) =
     int (foldl (\<lambda>a c. 10 * a + (of_char c - 48)) a s)"
proof (induction s arbitrary: a)
  case (Cons c s)
  have "48 \<le> (of_char c :: nat)" using Cons.prems by (simp add: is_digit_def)
  then have "10 * int a + (int (of_char c) - 48) = int (10 * a + (of_char c - 48))" by simp
  then show ?case using Cons.IH [of "10 * a + (of_char c - 48)"] Cons.prems by (simp del: of_nat_add of_nat_mult)
qed simp

lemma big_int_text: "0 \<le> i \<Longrightarrow> big_int (id_text i) = Some i"
proof -
  assume i: "0 \<le> i"
  then have "list_all is_digit (show_int i)" using show_int_digits [of i] by (simp add: is_digits_def)
  from foldl_ascii [OF this, of 0] have "foldl (\<lambda>a c. 10 * a + (int c - 48)) 0 (id_text i) = i"
    using parse_show_int [OF i] by (simp add: id_text_def ascii_def parse_nat_def)
  then show ?thesis using i id_text_digits [of i] by (simp add: big_int_def)
qed

lemma those_map_Some: "list_all P xs \<Longrightarrow> (\<And>x. P x \<Longrightarrow> f x \<noteq> None) \<Longrightarrow> those (map f xs) \<noteq> None"
  by (induction xs) (auto split: option.splits)

lemma add_refused:
  assumes "readFor (string_set_store o') who p = (p1, s)" "add o' who v p = (p', ok)"
    and "\<not> isValid o' v \<or> v \<in> set s \<or> full (omax o') (length s)"
  shows "snd (readFor (string_set_store o') who p') = s \<and> (ok \<longleftrightarrow> isValid o' v \<and> v \<in> set s)"
  using assms readFor_again [OF assms(1)] by (auto simp: add_def split: if_splits)

text \<open>
  C19: bookmarks.  Whatever the stored text is, hand-edited or corrupt included, the bookmarks page can list
  it: every element is a post id that \<open>BigInt\<close> reads, there are at most \<open>MAX_BOOKMARKS\<close>, and no id twice.
  Adding an id that is not there to a set that has room puts it there, and when that action reports success a page
  loaded afterwards shows the same bookmarks and the new one.  Adding an id that is shown already reports success and
  changes nothing, and adding one that is negative or for which there is no room reports failure and changes
  nothing.
\<close>

theorem bookmark_saved:
  assumes "set_page bookmark_opts p" "readFor (string_set_store bookmark_opts) who p = (p1, s)"
    and "act_add (bookmarkActionsFor who) i p = (p', ok)"
  shows "useBookmarkList s \<noteq> None \<and> length s \<le> MAX_BOOKMARKS \<and> distinct s \<and>
    (if i < 0 \<or> useBookmarked (Some i) s \<or> MAX_BOOKMARKS \<le> length s
     then snd (readFor (string_set_store bookmark_opts) who p') = s \<and> (ok \<longleftrightarrow> 0 \<le> i \<and> useBookmarked (Some i) s)
     else useBookmarked (Some i) (snd (readFor (string_set_store bookmark_opts) who p')) \<and>
       (window (fst p) \<longrightarrow> ok \<longrightarrow>
         set (snd (readFor (string_set_store bookmark_opts) who (reload p'))) = insert (id_text i) (set s)))"
proof -
  have o: "isValid bookmark_opts = udigits" "omax bookmark_opts = Some MAX_BOOKMARKS"
    by (simp_all add: bookmark_opts_def)
  have v: "set_valid udigits (Some MAX_BOOKMARKS) s" using set_readFor_valid [OF assms(1,2)] o by simp
  then have wf: "useBookmarkList s \<noteq> None" "length s \<le> MAX_BOOKMARKS" "distinct s"
    using those_map_Some [of udigits s big_int] by (simp_all add: set_valid_def fits_def useBookmarkList_def big_int_def)
  have a: "add bookmark_opts who (id_text i) p = (p', ok)"
    using assms(3) by (simp add: bookmarkActionsFor_def actionsFor_def)
  have valid: "isValid bookmark_opts (id_text i) \<longleftrightarrow> 0 \<le> i" using id_text_digits o by simp
  have full: "full (omax bookmark_opts) (length s) \<longleftrightarrow> MAX_BOOKMARKS \<le> length s" by (simp add: o full_def)
  have here: "useBookmarked (Some i) t \<longleftrightarrow> id_text i \<in> set t" for t by (simp add: useBookmarked_def)
  show ?thesis
  proof (cases "i < 0 \<or> useBookmarked (Some i) s \<or> MAX_BOOKMARKS \<le> length s")
    case True
    with add_refused [OF assms(2) a] wf show ?thesis by (simp add: valid full here not_le)
  next
    case False
    then have new: "isValid bookmark_opts (id_text i)" "id_text i \<notin> set s" "\<not> full (omax bookmark_opts) (length s)"
      by (simp_all add: valid full here)
    from False add_new(2,3) [OF assms(1,2) new a] wf show ?thesis by (simp add: here)
  qed
qed

theorem bookmark_saved_witness:
  "let p' = fst (act_add (bookmarkActionsFor None) 7 (demo_browser, [])) in
   useBookmarked (Some 7) (snd (readFor (string_set_store bookmark_opts) None p')) \<and>
   set (snd (readFor (string_set_store bookmark_opts) None (reload p'))) = {id_text 7}"
proof -
  let ?p = "(demo_browser, []) :: ustring list page"
  let ?q = "(demo_browser, [(ANON, \<lparr>cache = [], listeners = 0, attached = False\<rparr>)])"
  have ok: "set_page bookmark_opts ?p" using page_ok_reload [of _ ?p] by (simp add: reload_def)
  have r: "readFor (string_set_store bookmark_opts) None ?p = (?q, [])"
    by (simp add: readFor_def storeFor_def createPersistentStore_def loadFromStorage_def getItem_def demo_browser_def
        claimLegacyFor_def set_parse_def bucket_of_def List.map_filter_def capped_def new_set_def Let_def split: option.splits)
  have "isValid bookmark_opts (id_text 7)" by (simp add: bookmark_opts_def id_text_digits)
  moreover have "\<not> full (omax bookmark_opts) 0" by (simp add: bookmark_opts_def full_def MAX_BOOKMARKS_def)
  ultimately have "add bookmark_opts None (id_text 7) ?p = update (string_set_store bookmark_opts) None (set_add (id_text 7)) ?q"
    by (simp add: add_def r)
  moreover have "snd (update (string_set_store bookmark_opts) None (set_add (id_text 7)) ?q)"
    by (simp add: update_def storeFor_def bucket_of_def commit_def setItem_def demo_browser_def)
  ultimately have a: "act_add (bookmarkActionsFor None) 7 ?p = (fst (act_add (bookmarkActionsFor None) 7 ?p), True)"
    by (simp add: bookmarkActionsFor_def actionsFor_def prod_eq_iff)
  show ?thesis
    using bookmark_saved [OF ok r a] by (simp add: useBookmarked_def MAX_BOOKMARKS_def demo_browser_def Let_def)
qed

text \<open>
  C17: the tabs of a device agree on every set.  Starting from no tab, after any interleaving of opening tabs,
  commits, deliveries of storage events, mounting and unmounting of subscribers and changes of the quota, a
  tab that has a subscriber, has handled the events sent to it and whose last commit reached storage shows
  exactly the stored set.
\<close>

theorem tabs_agree:
  assumes "rtranclp (device_step (bucket_opts (string_set_store o') w) (set_valid (isValid o') (omax o'))) (b, []) (b', ts)"
    and "window b" and "t \<in> set ts" "0 < listeners (tlive t)" "inbox t = 0" "\<not> unsaved t"
  shows "set (cache (tlive t)) = set (loadFromStorage (bucket_opts (string_set_store o') w) b')"
proof -
  let ?o = "bucket_opts (string_set_store o') w"
  have "window (fst (b', ts)) \<and> list_all (in_step ?o (fst (b', ts))) (snd (b', ts))"
    by (rule string_set.device_run_keeps [OF assms(1)]) (simp_all add: assms(2) bucket_opts_def)
  then have "in_step ?o b' t" using assms(3) by (simp add: list_all_iff)
  with assms(4-6) have "set_serialize (cache (tlive t)) = set_serialize (loadFromStorage ?o b')"
    by (simp add: in_step_def)
  then show ?thesis by (rule set_serialize_set)
qed

theorem tabs_agree_witness:
  "let o' = bucket_opts (string_set_store demo_set) [119];
       t0 = \<lparr>tlive = subscribe o' demo_browser (createPersistentStore o' demo_browser), inbox = 0, unsaved = False\<rparr>;
       (b', ts) = tab_commit o' 0 [[97]] (demo_browser, [t0])
   in set (cache (tlive (ts ! 0))) = set (loadFromStorage o' b')"
proof -
  let ?o = "bucket_opts (string_set_store demo_set) [119]"
  let ?c = "createPersistentStore ?o demo_browser"
  let ?t = "\<lparr>tlive = subscribe ?o demo_browser ?c, inbox = 0, unsaved = False\<rparr>"
  let ?step = "device_step ?o (set_valid (isValid demo_set) (omax demo_set))"
  obtain b' ts where d: "tab_commit ?o 0 [[97]] (demo_browser, [?t]) = (b', ts)" by (cases "tab_commit ?o 0 [[97]] (demo_browser, [?t])")
  have 1: "?step (demo_browser, []) (demo_browser, [\<lparr>tlive = ?c, inbox = 0, unsaved = False\<rparr>])"
    using device_step.open_tab [of ?o _ demo_browser "[]"] by simp
  have 2: "?step (demo_browser, [\<lparr>tlive = ?c, inbox = 0, unsaved = False\<rparr>]) (demo_browser, [?t])"
    using device_step.subscribe_tab [of 0 "[\<lparr>tlive = ?c, inbox = 0, unsaved = False\<rparr>]" ?o _ demo_browser] by simp
  have "set_valid (isValid demo_set) (omax demo_set) [[97]]"
    by (simp add: set_valid_def demo_set_def fits_def)
  then have 3: "?step (demo_browser, [?t]) (b', ts)"
    using device_step.commit_tab [of 0 "[?t]" _ "[[97]]" ?o demo_browser] d by simp
  have run: "rtranclp ?step (demo_browser, []) (b', ts)" using rtranclp.rtrancl_into_rtrancl [OF rtranclp.rtrancl_into_rtrancl [OF r_into_rtranclp [of ?step, OF 1] 2] 3] .
  have b: "window demo_browser" "\<not> blocked demo_browser" "\<And>k v. \<not> refuses demo_browser k v" by (simp_all add: demo_browser_def)
  have t: "ts ! 0 \<in> set ts \<and> 0 < listeners (tlive (ts ! 0)) \<and> inbox (ts ! 0) = 0 \<and> \<not> unsaved (ts ! 0)"
  proof -
    have "ts = [?t\<lparr>tlive := (tlive ?t)\<lparr>cache := [[97]]\<rparr>, unsaved := False\<rparr>]"
      using d b by (simp add: tab_commit_def commit_def setItem_def Let_def notify_others_def split: if_splits)
    then show ?thesis by (simp add: subscribe_def Let_def)
  qed
  show ?thesis using tabs_agree [OF run b(1), of "ts ! 0"] t d by (simp add: Let_def)
qed

text \<open>
  A refused write is forgotten by the next attempt: after an \<open>add\<close> that answered false because storage threw,
  the same \<open>add\<close> answers true, with nothing written.
\<close>

theorem unsaved_add_then_reports_saved:
  assumes "readFor (string_set_store o') who p = (p1, s)" "isValid o' v" "v \<notin> set s"
    and "\<not> full (omax o') (length s)" "add o' who v p = (p', False)"
  shows "add o' who v p' = (p', True) \<and> disk (fst p') = disk (fst p1)"
proof -
  let ?S = "string_set_store o'"
  have u: "update ?S who (set_add v) p1 = (p', False)" using assms by (simp add: add_def)
  obtain b1 m1 where p1: "p1 = (b1, m1)" by (cases p1)
  have "storeFor ?S who p1 = (p1, snd (storeFor ?S who p1))"
    using readFor_again [OF assms(1)] by (simp add: readFor_def split: prod.splits)
  then obtain s1 where s1: "storeFor ?S who (b1, m1) = ((b1, m1), s1)" by (metis p1)
  obtain b2 s2 r where 2: "commit (bucket_opts ?S (bucket_of who)) (set_add v (cache s1)) (b1, s1) = ((b2, s2), r)"
    by (metis surj_pair)
  have "p' = (b2, omap_set (bucket_of who) s2 m1)" "\<not> r" using u by (auto simp: update_def p1 s1 2)
  then have p': "p' = (b1, omap_set (bucket_of who) s2 m1)" using commit_failed [of "bucket_opts ?S (bucket_of who)" "set_add v (cache s1)" b1 s1 b2 s2] 2 by simp
  have "readFor ?S who p' = (p', cache s2)" by (simp add: readFor_def storeFor_def p')
  moreover have "v \<in> set (cache s2)" using commit_cache [OF 2] by (auto simp: set_add_def)
  ultimately show ?thesis using assms(2) p' p1 by (simp add: add_def)
qed

end
