(* ===== verification/Device_Lists.thy ===== *)
theory Device_Lists
  imports Device_Sets
begin

text \<open>
  The private lists of accounts, \<open>app/src/lib/localListStore.ts\<close>: what is read from storage, what is
  written, and the six actions.  The id of a new list (\<open>newListId\<close>, random) is an argument of \<open>create_list\<close>.
\<close>

definition MAX_LOCAL_LISTS :: nat where "MAX_LOCAL_LISTS = 8"
definition MAX_LIST_MEMBERS :: nat where "MAX_LIST_MEMBERS = 64"
definition MAX_LIST_NAME_BYTES :: nat where "MAX_LIST_NAME_BYTES = 48"

record LocalList =
  lid :: ustring
  lname :: ustring
  members :: "ustring list"
  publishedSlot :: "int option"

definition isValidListName :: "ustring \<Rightarrow> bool" where
  "isValidListName name = (let trimmed = utrim name
     in 0 < length trimmed \<and> utf8Bytes trimmed \<le> MAX_LIST_NAME_BYTES)"

text \<open>Field access of a parsed value: an array has none of the fields used here.\<close>

fun field :: "json \<Rightarrow> string \<Rightarrow> json option" where
  "field (JObj fs) k = map_of fs (ascii k)"
| "field _ k = None"

fun num_of :: "json \<Rightarrow> rat option" where
  "num_of (JNum r) = Some r"
| "num_of _ = None"

definition isInteger :: "rat \<Rightarrow> bool" where
  "isInteger r \<longleftrightarrow> snd (quotient_of r) = 1"

definition sort_units :: "ustring list \<Rightarrow> ustring list" where
  "sort_units xs = js_sort unit_cmp xs"

fun member_loop :: "ss58_lib \<Rightarrow> json list \<Rightarrow> ustring list \<Rightarrow> ustring list" where
  "member_loop lib [] acc = acc"
| "member_loop lib (m # ms) acc =
     (case str_of m of None \<Rightarrow> member_loop lib ms acc
      | Some s \<Rightarrow>
          (case normalizeSs58 lib (Some s) of
             None \<Rightarrow> member_loop lib ms acc
           | Some addr58 \<Rightarrow>
               if addr58 \<in> set acc then member_loop lib ms acc
               else if MAX_LIST_MEMBERS \<le> length (acc @ [addr58]) then acc @ [addr58]
               else member_loop lib ms (acc @ [addr58])))"

definition coerceSlot :: "json option \<Rightarrow> int option" where
  "coerceSlot v = (case Option.bind v num_of of
     Some r \<Rightarrow> if isInteger r \<and> 0 \<le> r \<and> r < of_nat MAX_LOCAL_LISTS then Some \<lfloor>r\<rfloor> else None
   | None \<Rightarrow> None)"

definition coerceList :: "ss58_lib \<Rightarrow> json \<Rightarrow> LocalList option" where
  "coerceList lib raw =
     (case Option.bind (field raw ''id'') str_of of None \<Rightarrow> None | Some i \<Rightarrow>
        if i = [] then None
        else case Option.bind (field raw ''name'') str_of of None \<Rightarrow> None | Some n \<Rightarrow>
          if \<not> isValidListName n then None
          else case Option.bind (field raw ''members'') elements of None \<Rightarrow> None | Some ms \<Rightarrow>
            Some \<lparr>lid = i, lname = n, members = sort_units (member_loop lib ms []),
                  publishedSlot = coerceSlot (field raw ''publishedSlot'')\<rparr>)"

fun list_loop :: "ss58_lib \<Rightarrow> json list \<Rightarrow> LocalList list \<Rightarrow> LocalList list" where
  "list_loop lib [] out = out"
| "list_loop lib (e # es) out =
     (let out = (case coerceList lib e of Some l \<Rightarrow> out @ [l] | None \<Rightarrow> out)
      in if MAX_LOCAL_LISTS \<le> length out then out else list_loop lib es out)"

definition lists_parse :: "ss58_lib \<Rightarrow> stored option \<Rightarrow> LocalList list option" where
  "lists_parse lib raw = map_option (\<lambda>parsed.
     case elements parsed of None \<Rightarrow> [] | Some es \<Rightarrow> list_loop lib es []) (parse_or (JArr []) raw)"

definition list_json :: "LocalList \<Rightarrow> json" where
  "list_json l = JObj ([(ascii ''id'', JStr (lid l)), (ascii ''name'', JStr (lname l)),
       (ascii ''members'', JArr (map JStr (members l)))] @
     (case publishedSlot l of Some n \<Rightarrow> [(ascii ''publishedSlot'', JNum (of_int n))] | None \<Rightarrow> []))"

definition lists_serialize :: "LocalList list \<Rightarrow> json" where
  "lists_serialize ls = JArr (map list_json ls)"

definition list_store :: "ss58_lib \<Rightarrow> LocalList list scoped_opts" where
  "list_store lib = \<lparr>prefix = ascii ''cg-lists'', vempty = [], vparse = lists_parse lib,
     vserialize = lists_serialize, claimLegacy = False\<rparr>"

definition withMember :: "LocalList \<Rightarrow> ustring \<Rightarrow> LocalList" where
  "withMember l addr =
     (if addr \<in> set (members l) \<or> MAX_LIST_MEMBERS \<le> length (members l) then l
      else l\<lparr>members := sort_units (members l @ [addr])\<rparr>)"

definition map_list :: "ustring \<Rightarrow> (LocalList \<Rightarrow> LocalList) \<Rightarrow> LocalList list \<Rightarrow> LocalList list" where
  "map_list i fn ls = map (\<lambda>l. if lid l = i then fn l else l) ls"

definition mapList ::
  "ss58_lib \<Rightarrow> ustring option \<Rightarrow> ustring \<Rightarrow> (LocalList \<Rightarrow> LocalList) \<Rightarrow> LocalList list page \<Rightarrow> LocalList list page \<times> bool" where
  "mapList lib who i fn p = update (list_store lib) who (map_list i fn) p"

definition create_list ::
  "ss58_lib \<Rightarrow> ustring option \<Rightarrow> ustring \<Rightarrow> ustring \<Rightarrow> LocalList list page \<Rightarrow> LocalList list page \<times> ustring option" where
  "create_list lib who fresh name p =
     (if \<not> isValidListName name then (p, None)
      else let (p, ls) = readFor (list_store lib) who p
           in if MAX_LOCAL_LISTS \<le> length ls then (p, None)
              else let (p, ok) = update (list_store lib) who
                     (\<lambda>ls. ls @ [\<lparr>lid = fresh, lname = utrim name, members = [], publishedSlot = None\<rparr>]) p
                   in (p, if ok then Some fresh else None))"

definition rename ::
  "ss58_lib \<Rightarrow> ustring option \<Rightarrow> ustring \<Rightarrow> ustring \<Rightarrow> LocalList list page \<Rightarrow> LocalList list page \<times> bool" where
  "rename lib who i name p =
     (if \<not> isValidListName name then (p, False) else mapList lib who i (\<lambda>l. l\<lparr>lname := utrim name\<rparr>) p)"

definition remove_list :: "ss58_lib \<Rightarrow> ustring option \<Rightarrow> ustring \<Rightarrow> LocalList list page \<Rightarrow> LocalList list page \<times> bool" where
  "remove_list lib who i p = update (list_store lib) who (filter (\<lambda>l. lid l \<noteq> i)) p"

definition without_member :: "ustring \<Rightarrow> LocalList \<Rightarrow> LocalList" where
  "without_member a l = l\<lparr>members := filter (\<lambda>m. m \<noteq> a) (members l)\<rparr>"

definition addMember ::
  "ss58_lib \<Rightarrow> ustring option \<Rightarrow> ustring \<Rightarrow> ustring \<Rightarrow> LocalList list page \<Rightarrow> LocalList list page \<times> bool" where
  "addMember lib who i address p =
     (case normalizeSs58 lib (Some address) of
        None \<Rightarrow> (p, False)
      | Some addr58 \<Rightarrow> mapList lib who i (\<lambda>l. withMember l addr58) p)"

definition removeMember ::
  "ss58_lib \<Rightarrow> ustring option \<Rightarrow> ustring \<Rightarrow> ustring \<Rightarrow> LocalList list page \<Rightarrow> LocalList list page \<times> bool" where
  "removeMember lib who i address p =
     (case normalizeSs58 lib (Some address) of
        None \<Rightarrow> (p, False)
      | Some addr58 \<Rightarrow> mapList lib who i (without_member addr58) p)"

definition toggleMember ::
  "ss58_lib \<Rightarrow> ustring option \<Rightarrow> ustring \<Rightarrow> ustring \<Rightarrow> LocalList list page \<Rightarrow> LocalList list page \<times> bool" where
  "toggleMember lib who i address p =
     (case normalizeSs58 lib (Some address) of
        None \<Rightarrow> (p, False)
      | Some addr58 \<Rightarrow> mapList lib who i
          (\<lambda>l. if addr58 \<in> set (members l) then without_member addr58 l else withMember l addr58) p)"

definition useLocalList :: "LocalList list \<Rightarrow> ustring option \<Rightarrow> LocalList option" where
  "useLocalList ls i = (case i of None \<Rightarrow> None | Some x \<Rightarrow> find (\<lambda>l. lid l = x) ls)"

section \<open>Well-formed lists\<close>

definition list_ok :: "ss58_lib \<Rightarrow> LocalList \<Rightarrow> bool" where
  "list_ok lib l \<longleftrightarrow> lid l \<noteq> [] \<and> isValidListName (lname l) \<and> distinct (members l) \<and>
     sort_units (members l) = members l \<and> length (members l) \<le> MAX_LIST_MEMBERS \<and>
     list_all (\<lambda>m. normalizeSs58 lib (Some m) = Some m) (members l) \<and>
     (case publishedSlot l of None \<Rightarrow> True | Some n \<Rightarrow> 0 \<le> n \<and> n < int MAX_LOCAL_LISTS)"

definition lists_valid :: "ss58_lib \<Rightarrow> LocalList list \<Rightarrow> bool" where
  "lists_valid lib ls \<longleftrightarrow> length ls \<le> MAX_LOCAL_LISTS \<and> list_all (list_ok lib) ls"

lemma lists_valid_Nil [simp]: "lists_valid lib []"
  by (simp add: lists_valid_def)

lemma sort_units_facts [simp]:
  "sort_units (sort_units xs) = sort_units xs" "set (sort_units xs) = set xs"
  "length (sort_units xs) = length xs" "distinct (sort_units xs) = distinct xs"
  by (simp_all add: sort_units_def unit_order.sort_idem)

abbreviation members_ok :: "ss58_lib \<Rightarrow> ustring list \<Rightarrow> bool" where
  "members_ok lib ms \<equiv> distinct ms \<and> length ms \<le> MAX_LIST_MEMBERS \<and>
     list_all (\<lambda>m. normalizeSs58 lib (Some m) = Some m) ms"

lemma member_loop_ok:
  assumes "ss58_laws lib"
  shows "members_ok lib acc \<Longrightarrow> length acc < MAX_LIST_MEMBERS \<Longrightarrow> members_ok lib (member_loop lib ms acc)"
proof (induction ms arbitrary: acc)
  case (Cons m ms)
  show ?case
  proof (cases "Option.bind (str_of m) (\<lambda>s. normalizeSs58 lib (Some s))")
    case None
    then have "member_loop lib (m # ms) acc = member_loop lib ms acc" by (auto split: option.splits)
    with Cons show ?thesis by simp
  next
    case (Some a)
    then obtain s where s: "str_of m = Some s" "normalizeSs58 lib (Some s) = Some a"
      by (auto simp: Option.bind_eq_Some_conv)
    have c: "normalizeSs58 lib (Some a) = Some a" by (rule normalizeSs58_canonical(2) [OF assms s(2)])
    show ?thesis
    proof (cases "a \<in> set acc")
      case True
      with Cons s show ?thesis by simp
    next
      case False
      then have "members_ok lib (acc @ [a])" using Cons.prems c by simp
      with Cons.IH [of "acc @ [a]"] False s show ?thesis by simp
    qed
  qed
qed simp

lemma coerceList_ok: "ss58_laws lib \<Longrightarrow> coerceList lib e = Some l \<Longrightarrow> list_ok lib l"
proof -
  assume laws: "ss58_laws lib" and c: "coerceList lib e = Some l"
  then obtain ms where l: "members l = sort_units (member_loop lib ms [])" "lid l \<noteq> []" "isValidListName (lname l)"
      "publishedSlot l = coerceSlot (field e ''publishedSlot'')"
    by (auto simp: coerceList_def split: option.splits if_splits)
  have "0 \<le> n \<and> n < int MAX_LOCAL_LISTS" if "coerceSlot v = Some n" for v n
    using that by (auto simp: coerceSlot_def floor_less_iff split: option.splits if_splits)
  moreover have "members_ok lib (member_loop lib ms [])"
    by (rule member_loop_ok [OF laws]) (simp_all add: MAX_LIST_MEMBERS_def)
  ultimately show ?thesis using l by (auto simp: list_ok_def list_all_iff split: option.splits)
qed

lemma list_loop_ok:
  "ss58_laws lib \<Longrightarrow> lists_valid lib out \<Longrightarrow> length out < MAX_LOCAL_LISTS \<Longrightarrow> lists_valid lib (list_loop lib es out)"
proof (induction lib es out rule: list_loop.induct)
  case (2 lib e es out)
  define out' where "out' = (case coerceList lib e of Some l \<Rightarrow> out @ [l] | None \<Rightarrow> out)"
  have "lists_valid lib out'"
    using 2(2-4) coerceList_ok [OF 2(2)] by (auto simp: out'_def lists_valid_def split: option.splits)
  then show ?case using 2(1) [of out'] 2(2) by (simp add: out'_def [symmetric])
qed simp

lemma member_loop_reads_back:
  "members_ok lib (acc @ xs) \<Longrightarrow> length acc < MAX_LIST_MEMBERS \<Longrightarrow> member_loop lib (map JStr xs) acc = acc @ xs"
proof (induction xs arbitrary: acc)
  case (Cons x xs)
  have x: "normalizeSs58 lib (Some x) = Some x" "x \<notin> set acc" using Cons.prems by simp_all
  show ?case
  proof (cases "MAX_LIST_MEMBERS \<le> length (acc @ [x])")
    case True
    moreover have "length (acc @ [x]) + length xs \<le> MAX_LIST_MEMBERS" using Cons.prems by simp
    ultimately have "length xs = 0" by linarith
    then have "xs = []" by simp
    with True x show ?thesis by simp
  next
    case False
    have "members_ok lib ((acc @ [x]) @ xs)" using Cons.prems by simp
    from Cons.IH [OF this] False x show ?thesis by simp
  qed
qed simp

lemma isInteger_of_int [simp]: "isInteger (of_int n)"
  by (simp add: isInteger_def)

lemma coerceList_reads_back: "list_ok lib l \<Longrightarrow> coerceList lib (list_json l) = Some l"
proof -
  assume ok: "list_ok lib l"
  have k: "ascii ''name'' \<noteq> ascii ''id''" "ascii ''members'' \<noteq> ascii ''id''" "ascii ''members'' \<noteq> ascii ''name''"
    "ascii ''publishedSlot'' \<noteq> ascii ''id''" "ascii ''publishedSlot'' \<noteq> ascii ''name''"
    "ascii ''publishedSlot'' \<noteq> ascii ''members''"
    by (simp_all add: ascii_def)
  have m: "member_loop lib (map JStr (members l)) [] = members l"
    using member_loop_reads_back [of "[]" "members l" lib] ok by (simp add: list_ok_def MAX_LIST_MEMBERS_def)
  have "coerceSlot (field (list_json l) ''publishedSlot'') = publishedSlot l"
    using ok k by (auto simp: coerceSlot_def list_json_def list_ok_def split: option.splits)
  then show ?thesis
    using ok k m by (simp add: coerceList_def list_ok_def list_json_def)
qed

lemma list_loop_reads_back:
  "list_all (list_ok lib) ls \<Longrightarrow> length (out @ ls) \<le> MAX_LOCAL_LISTS \<Longrightarrow> length out < MAX_LOCAL_LISTS \<Longrightarrow>
   list_loop lib (map list_json ls) out = out @ ls"
proof (induction ls arbitrary: out)
  case (Cons l ls)
  then show ?case using Cons.IH [of "out @ [l]"] by (cases ls) (auto simp: coerceList_reads_back Let_def)
qed simp

lemma lists_read_back: "lists_valid lib ls \<Longrightarrow> lists_parse lib (Some (Json (lists_serialize ls))) = Some ls"
  using list_loop_reads_back [of lib ls "[]"]
  by (simp add: lists_valid_def lists_parse_def lists_serialize_def MAX_LOCAL_LISTS_def)

text \<open>For an address codec that keeps its laws, the store's own codec keeps the contract of the stores.\<close>

lemma lists_codec:
  assumes "ss58_laws lib"
  shows "codec (lists_parse lib) lists_serialize (lists_valid lib) []"
proof
  fix raw ls
  assume "lists_parse lib raw = Some ls"
  then consider "ls = []" | es where "ls = list_loop lib es []"
    by (auto simp: lists_parse_def split: option.splits)
  then show "lists_valid lib ls"
  proof cases
    case 2
    then show ?thesis using list_loop_ok [OF assms lists_valid_Nil, of es] by (simp add: MAX_LOCAL_LISTS_def)
  qed simp
next
  fix ls
  assume "lists_valid lib ls"
  then show "\<exists>w. lists_parse lib (Some (Json (lists_serialize ls))) = Some w \<and> lists_serialize w = lists_serialize ls"
    using lists_read_back by blast
next
  show "lists_valid lib []" by simp
qed

lemma lists_serialize_inject:
  "lists_valid lib a \<Longrightarrow> lists_valid lib b \<Longrightarrow> lists_serialize a = lists_serialize b \<Longrightarrow> a = b"
proof -
  assume a: "lists_valid lib a" and b: "lists_valid lib b" and eq: "lists_serialize a = lists_serialize b"
  show "a = b" using trans [OF lists_read_back [OF a, unfolded eq, symmetric] lists_read_back [OF b]] by simp
qed

lemma list_store_simps [simp]:
  "vparse (list_store lib) = lists_parse lib" "vserialize (list_store lib) = lists_serialize" "vempty (list_store lib) = []"
  by (simp_all add: list_store_def)

section \<open>The actions\<close>

datatype list_op =
  Create ustring ustring | Rename ustring ustring | Remove ustring
| AddMember ustring ustring | RemoveMember ustring ustring | ToggleMember ustring ustring

fun list_step :: "ss58_lib \<Rightarrow> ustring option \<Rightarrow> list_op \<Rightarrow> LocalList list page \<Rightarrow> LocalList list page \<times> bool" where
  "list_step lib who (Create fresh name) p = (let (p', r) = create_list lib who fresh name p in (p', r \<noteq> None))"
| "list_step lib who (Rename i name) p = rename lib who i name p"
| "list_step lib who (Remove i) p = remove_list lib who i p"
| "list_step lib who (AddMember i a) p = addMember lib who i a p"
| "list_step lib who (RemoveMember i a) p = removeMember lib who i a p"
| "list_step lib who (ToggleMember i a) p = toggleMember lib who i a p"

definition named :: "list_op \<Rightarrow> bool" where
  "named op = (case op of Create fresh _ \<Rightarrow> fresh \<noteq> [] | _ \<Rightarrow> True)"

lemma utrim_idem: "utrim (utrim s) = utrim s"
  unfolding utrim_def
  using dropWhile_rev_dropWhile [of "dropWhile white s" white] hd_dropWhile_not [of white s]
  by (metis dropWhile_idem rev_rev_ident)

lemma valid_name_trim [simp]: "isValidListName (utrim n) = isValidListName n"
  by (simp add: isValidListName_def utrim_idem)

lemma sorted_filter_units: "sort_units xs = xs \<Longrightarrow> sort_units (filter P xs) = filter P xs"
proof -
  assume "sort_units xs = xs"
  then have "sorted_wrt (\<lambda>x y. unit_cmp x y \<le> 0) xs"
    using unit_order.sorted_sort [of xs] by (simp add: sort_units_def)
  then have "sorted_wrt (\<lambda>x y. unit_cmp x y \<le> 0) (filter P xs)" by (rule sorted_wrt_filter)
  then show ?thesis unfolding sort_units_def by (rule unit_order.sort_id)
qed

lemma list_ok_without: "list_ok lib l \<Longrightarrow> list_ok lib (without_member a l)"
  using le_trans [OF length_filter_le [of "\<lambda>m. m \<noteq> a" "members l"], of MAX_LIST_MEMBERS]
  by (auto simp: list_ok_def without_member_def sorted_filter_units list_all_iff)

lemma list_ok_with:
  "list_ok lib l \<Longrightarrow> normalizeSs58 lib (Some a) = Some a \<Longrightarrow> list_ok lib (withMember l a)"
  by (auto simp: list_ok_def withMember_def list_all_iff)

lemma lists_valid_map:
  "lists_valid lib ls \<Longrightarrow> (\<And>l. list_ok lib l \<Longrightarrow> list_ok lib (fn l)) \<Longrightarrow> lists_valid lib (map_list i fn ls)"
  by (auto simp: lists_valid_def map_list_def list_all_iff)

text \<open>Every action leaves the page alone or makes one valid update.\<close>

definition one_update :: "ss58_lib \<Rightarrow> ustring option \<Rightarrow> LocalList list page \<Rightarrow> LocalList list page \<times> bool \<Rightarrow> bool" where
  "one_update lib who p r \<longleftrightarrow> (page_ok (lists_valid lib) (fst r) \<and> \<not> snd r) \<or>
     (\<exists>p1 f. p1 \<in> {p, fst (readFor (list_store lib) who p)} \<and> update (list_store lib) who f p1 = r \<and>
       lists_valid lib (f (snd (readFor (list_store lib) who p1))))"

lemma one_update_refused: "page_ok (lists_valid lib) p \<Longrightarrow> one_update lib who p' (p, False)"
  by (simp add: one_update_def)

lemma one_updateI:
  "lists_valid lib (f (snd (readFor (list_store lib) who p))) \<Longrightarrow> one_update lib who p (update (list_store lib) who f p)"
  unfolding one_update_def by (rule disjI2, rule exI [of _ p], rule exI [of _ f]) simp

lemma one_update_read:
  assumes "readFor (list_store lib) who p = (q, ls)" "lists_valid lib (f ls)"
  shows "one_update lib who p (update (list_store lib) who f q)"
  unfolding one_update_def
  by (rule disjI2, rule exI [of _ q], rule exI [of _ f]) (simp add: assms readFor_again [OF assms(1)])

lemma mapList_update:
  assumes "lists_valid lib (snd (readFor (list_store lib) who p))" "\<And>l. list_ok lib l \<Longrightarrow> list_ok lib (fn l)"
  shows "one_update lib who p (mapList lib who i fn p)"
  unfolding mapList_def by (rule one_updateI) (rule lists_valid_map [OF assms])

lemma create_update:
  assumes r: "readFor (list_store lib) who p = (q, ls)" and v: "lists_valid lib ls" "page_ok (lists_valid lib) q"
    and p: "page_ok (lists_valid lib) p" and "fresh \<noteq> []"
  shows "one_update lib who p (list_step lib who (Create fresh name) p)"
proof (cases "isValidListName name \<and> length ls < MAX_LOCAL_LISTS")
  case True
  let ?f = "\<lambda>ls. ls @ [\<lparr>lid = fresh, lname = utrim name, members = [], publishedSlot = None\<rparr>]"
  have "lists_valid lib (?f ls)"
    using True v(1) assms(5) by (simp add: lists_valid_def list_ok_def sort_units_def)
  then have u: "one_update lib who p (update (list_store lib) who ?f q)" by (rule one_update_read [OF r])
  have "create_list lib who fresh name p = (let (p, ok) = update (list_store lib) who ?f q in (p, if ok then Some fresh else None))"
    using True by (simp add: create_list_def r)
  then have "list_step lib who (Create fresh name) p = update (list_store lib) who ?f q"
    by (simp split: prod.splits)
  with u show ?thesis by simp
next
  case False
  then have "list_step lib who (Create fresh name) p \<in> {(p, False), (q, False)}"
    by (auto simp: create_list_def r)
  then show ?thesis using one_update_refused [OF p, of who p] one_update_refused [OF v(2), of who p] by (metis insertE singletonD)
qed

lemma list_step_update:
  assumes laws: "ss58_laws lib" and p: "page_ok (lists_valid lib) p" and "named op"
  shows "one_update lib who p (list_step lib who op p)"
proof -
  obtain q ls where r: "readFor (list_store lib) who p = (q, ls)" by (cases "readFor (list_store lib) who p")
  have v: "lists_valid lib ls" "page_ok (lists_valid lib) q"
    using codec.readFor_valid [OF lists_codec [OF laws] _ p r] by simp_all
  then have v': "lists_valid lib (snd (readFor (list_store lib) who p))" by (simp add: r)
  note upd = mapList_update [OF v'] and no = one_update_refused [OF p]
  have canon: "normalizeSs58 lib (Some b) = Some b" if "normalizeSs58 lib (Some a) = Some b" for a b
    by (rule normalizeSs58_canonical(2) [OF laws that])
  show ?thesis
  proof (cases op)
    case (Create fresh name)
    then show ?thesis using create_update [OF r v p, of fresh name] assms(3) by (simp add: named_def)
  next
    case (Remove i)
    have "length (filter (\<lambda>l. lid l \<noteq> i) ls) \<le> MAX_LOCAL_LISTS"
      using v(1) le_trans [OF length_filter_le] by (auto simp: lists_valid_def)
    then have "lists_valid lib (filter (\<lambda>l. lid l \<noteq> i) (snd (readFor (list_store lib) who p)))"
      using v(1) unfolding r by (auto simp: lists_valid_def list_all_iff)
    then show ?thesis unfolding Remove list_step.simps remove_list_def by (rule one_updateI)
  next
    case (Rename i name)
    have "isValidListName name \<Longrightarrow> list_ok lib l \<Longrightarrow> list_ok lib (l\<lparr>lname := utrim name\<rparr>)" for l
      by (simp add: list_ok_def)
    then show ?thesis using upd no by (simp add: Rename rename_def)
  next
    case (AddMember i a)
    show ?thesis
    proof (cases "normalizeSs58 lib (Some a)")
      case (Some b)
      show ?thesis using upd [OF list_ok_with [OF _ canon [OF Some]]] by (simp add: AddMember addMember_def Some)
    qed (simp add: AddMember addMember_def no)
  next
    case (RemoveMember i a)
    then show ?thesis using upd [OF list_ok_without] no by (simp add: removeMember_def split: option.splits)
  next
    case (ToggleMember i a)
    show ?thesis
    proof (cases "normalizeSs58 lib (Some a)")
      case (Some b)
      have "list_ok lib l \<Longrightarrow> list_ok lib (if b \<in> set (members l) then without_member b l else withMember l b)" for l
        using list_ok_without list_ok_with [OF _ canon [OF Some]] by simp
      then show ?thesis using upd by (simp add: ToggleMember toggleMember_def Some)
    qed (simp add: ToggleMember toggleMember_def no)
  qed
qed

text \<open>
  C20: the private lists are always well formed.  Whatever storage holds, every list a page reads has a
  valid name, at most \<open>MAX_LIST_MEMBERS\<close> members, each a canonical address, sorted and without duplicates, and
  there are at most \<open>MAX_LOCAL_LISTS\<close> lists; every action keeps that.  An action that reports success is what
  a page loaded afterwards reads, in the same order and with every field.
\<close>

theorem lists_wellformed_and_kept:
  assumes laws: "ss58_laws lib" and p: "page_ok (lists_valid lib) p" and "named op"
    and step: "list_step lib who op p = (p', ok)"
  shows "lists_valid lib (snd (readFor (list_store lib) who p')) \<and> page_ok (lists_valid lib) p' \<and>
    (window (fst p) \<longrightarrow> ok \<longrightarrow>
      snd (readFor (list_store lib) who (reload p')) = snd (readFor (list_store lib) who p'))"
proof -
  let ?S = "list_store lib"
  have codes: "vparse ?S = lists_parse lib \<and> vserialize ?S = lists_serialize \<and> vempty ?S = []" by simp
  note C = lists_codec [OF laws]
  note read_ok = codec.readFor_valid [OF C codes, OF _ surjective_pairing]
  have q: "page_ok (lists_valid lib) (fst (readFor ?S who p))" using read_ok [OF p, of who] by simp
  consider "page_ok (lists_valid lib) p'" "\<not> ok"
    | p1 f where "p1 = p \<or> p1 = fst (readFor ?S who p)" "update ?S who f p1 = (p', ok)"
        "lists_valid lib (f (snd (readFor ?S who p1)))"
    using list_step_update [OF laws p assms(3), of who] unfolding step one_update_def by auto
  then show ?thesis
  proof cases
    case 1
    then show ?thesis using read_ok [of p' who] by simp
  next
    case 2
    have p1: "page_ok (lists_valid lib) p1" "window (fst p1) = window (fst p)"
      using 2(1) p q readFor_window [OF surjective_pairing, of ?S who p] by auto
    have p': "page_ok (lists_valid lib) p'" by (rule codec.update_valid [OF C codes p1(1) 2(3,2)])
    have eq: "snd (readFor ?S who p') = f (snd (readFor ?S who p1))" by (rule update_shows(1) [OF 2(2)])
    have "snd (readFor ?S who (reload p')) = snd (readFor ?S who p')" if "window (fst p)" ok
    proof (rule lists_serialize_inject [of lib])
      show "lists_valid lib (snd (readFor ?S who (reload p')))" using read_ok [of "reload p'" who] by simp
      show "lists_valid lib (snd (readFor ?S who p'))" using 2(3) eq by simp
      show "lists_serialize (snd (readFor ?S who (reload p'))) = lists_serialize (snd (readFor ?S who p'))"
        unfolding eq using codec.update_survives [OF C codes, of p1 f who p'] 2(2,3) that p1(2) by simp
    qed
    with p' 2(3) eq show ?thesis by simp
  qed
qed

definition demo_list :: LocalList where
  "demo_list = \<lparr>lid = [108], lname = [97], members = [], publishedSlot = Some 3\<rparr>"

definition demo_lists :: "LocalList list page" where
  "demo_lists = (demo_browser, [(ANON, \<lparr>cache = [demo_list], listeners = 0, attached = False\<rparr>)])"

theorem lists_wellformed_and_kept_witness:
  "let p' = fst (list_step demo_lib None (AddMember [108] demo_address) demo_lists)
   in snd (readFor (list_store demo_lib) None (reload p')) = [demo_list\<lparr>members := [demo_address]\<rparr>]"
proof -
  let ?op = "AddMember [108] demo_address"
  have "isValidListName [97]"
    by (simp add: isValidListName_def utrim_def white_def utf8Bytes_simps utf8_char_def MAX_LIST_NAME_BYTES_def)
  then have "list_ok demo_lib demo_list"
    by (simp add: list_ok_def demo_list_def sort_units_def MAX_LOCAL_LISTS_def)
  then have p: "page_ok (lists_valid demo_lib) demo_lists"
    by (simp add: page_ok_def demo_lists_def ran_def lists_valid_def MAX_LOCAL_LISTS_def)
  have step: "list_step demo_lib None ?op demo_lists = (fst (list_step demo_lib None ?op demo_lists), True)"
    and shown: "snd (readFor (list_store demo_lib) None (fst (list_step demo_lib None ?op demo_lists))) =
      [demo_list\<lparr>members := [demo_address]\<rparr>]"
    by (simp_all add: addMember_def demo_address_normal mapList_def update_def storeFor_def demo_lists_def bucket_of_def
        commit_def setItem_def demo_browser_def readFor_def map_list_def demo_list_def withMember_def sort_units_def
        MAX_LIST_MEMBERS_def)
  have "window (fst demo_lists)" by (simp add: demo_lists_def demo_browser_def)
  then show ?thesis
    using lists_wellformed_and_kept [OF demo_lib_laws p _ step] shown by (simp add: named_def Let_def)
qed

text \<open>A member added to a full list is dropped, and the action reports success.\<close>

theorem full_list_add_reports_success:
  assumes "readFor (list_store lib) who p = (p1, ls)" "window (fst p)" "\<not> blocked (fst p)" "\<forall>k v. \<not> refuses (fst p) k v"
    and "normalizeSs58 lib (Some a) = Some b"
    and "\<forall>l \<in> set ls. lid l = i \<longrightarrow> b \<notin> set (members l) \<and> length (members l) = MAX_LIST_MEMBERS"
  shows "snd (addMember lib who i a p) \<and> snd (readFor (list_store lib) who (fst (addMember lib who i a p))) = ls"
proof -
  obtain b0 m0 b1 m1 s where s: "p = (b0, m0)" "storeFor (list_store lib) who (b0, m0) = ((b1, m1), s)" "cache s = ls"
    using assms(1) by (cases p, cases p1) (auto simp: readFor_def split: prod.splits)
  have br: "window b1" "\<not> blocked b1" "\<And>k v. \<not> refuses b1 k v"
    using storeFor_frame [OF s(2)] assms(2-4) s(1) by auto
  have "map_list i (\<lambda>l. withMember l b) ls = ls"
    using assms(6) by (auto simp: map_list_def withMember_def intro!: map_idI)
  then show ?thesis
    using br s by (simp add: addMember_def assms(5) mapList_def update_def commit_def setItem_def readFor_def)
      (simp add: storeFor_def)
qed

end
