(* ===== verification/Device_Records.thy ===== *)
theory Device_Records
  imports Device_Lists
begin

text \<open>
  Device-local records: the recent searches of an account (\<open>app/src/lib/recentSearchStore.ts\<close>), the locks
  that wait for their credit (\<open>pendingLockStore.ts\<close>) with the hook that writes them
  (\<open>hooks/usePendingLockSync.ts\<close>), and the poll ticks of a session (\<open>pollCastStore.ts\<close>).  \<open>Date.now()\<close> and the
  Unicode lower-casing of \<open>toLowerCase\<close> are arguments.
\<close>

section \<open>recentSearchStore.ts\<close>

definition MAX_RECENT :: nat where "MAX_RECENT = 8"
definition MAX_TERM_LEN :: nat where "MAX_TERM_LEN = 256"

definition units :: "ustring \<Rightarrow> nat" where
  "units s = length (utf16 s)"

definition term_ok :: "ustring \<Rightarrow> bool" where
  "term_ok x \<longleftrightarrow> 0 < units x \<and> units x \<le> MAX_TERM_LEN"

definition recent_parse :: "stored option \<Rightarrow> ustring list option" where
  "recent_parse raw = map_option (\<lambda>parsed.
     case elements parsed of None \<Rightarrow> []
     | Some xs \<Rightarrow> take MAX_RECENT (filter term_ok (List.map_filter str_of xs))) (parse_or (JArr []) raw)"

definition recent_serialize :: "ustring list \<Rightarrow> json" where
  "recent_serialize v = JArr (map JStr v)"

definition recent_store :: "ustring list scoped_opts" where
  "recent_store = \<lparr>prefix = ascii ''cg-recent-searches'', vempty = [], vparse = recent_parse,
     vserialize = recent_serialize, claimLegacy = True\<rparr>"

definition pushed :: "(ustring \<Rightarrow> ustring) \<Rightarrow> ustring \<Rightarrow> ustring list \<Rightarrow> ustring list" where
  "pushed toLowerCase t ts = take MAX_RECENT (t # filter (\<lambda>x. toLowerCase x \<noteq> toLowerCase t) ts)"

definition push_search ::
  "(ustring \<Rightarrow> ustring) \<Rightarrow> ustring option \<Rightarrow> ustring \<Rightarrow> ustring list page \<Rightarrow> ustring list page" where
  "push_search toLowerCase who text p =
     (let t = utrim text
      in if units t = 0 \<or> MAX_TERM_LEN < units t then p
         else let (p, ts) = readFor recent_store who p
              in if pushed toLowerCase t ts = ts then p
                 else fst (update recent_store who (\<lambda>_. pushed toLowerCase t ts) p))"

definition remove_search ::
  "(ustring \<Rightarrow> ustring) \<Rightarrow> ustring option \<Rightarrow> ustring \<Rightarrow> ustring list page \<Rightarrow> ustring list page" where
  "remove_search toLowerCase who text p =
     (let (p, ts) = readFor recent_store who p;
          rest = filter (\<lambda>x. toLowerCase x \<noteq> toLowerCase text) ts
      in if length rest = length ts then p else fst (update recent_store who (\<lambda>_. rest) p))"

definition clear_searches :: "ustring option \<Rightarrow> ustring list page \<Rightarrow> ustring list page" where
  "clear_searches who p =
     (let (p, ts) = readFor recent_store who p
      in if ts = [] then p else fst (update recent_store who (\<lambda>_. []) p))"

definition recent_valid :: "ustring list \<Rightarrow> bool" where
  "recent_valid ts \<longleftrightarrow> length ts \<le> MAX_RECENT \<and> list_all term_ok ts"

lemma recent_read_back: "recent_valid ts \<Longrightarrow> recent_parse (Some (Json (recent_serialize ts))) = Some ts"
  by (simp add: recent_parse_def recent_serialize_def recent_valid_def list_all_iff filter_id_conv)

interpretation recent: codec recent_parse recent_serialize recent_valid "[]"
proof
  fix raw ts
  assume "recent_parse raw = Some ts"
  then show "recent_valid ts"
    by (auto simp: recent_parse_def recent_valid_def list_all_iff dest!: in_set_takeD split: option.splits)
next
  fix ts
  assume "recent_valid ts"
  then show "\<exists>w. recent_parse (Some (Json (recent_serialize ts))) = Some w \<and> recent_serialize w = recent_serialize ts"
    using recent_read_back by blast
qed (simp add: recent_valid_def)

lemma recent_store_simps [simp]:
  "vparse recent_store = recent_parse" "vserialize recent_store = recent_serialize" "vempty recent_store = []"
  by (simp_all add: recent_store_def)

lemma pushed_valid: "recent_valid ts \<Longrightarrow> term_ok t \<Longrightarrow> recent_valid (pushed low t ts)"
  by (auto simp: recent_valid_def pushed_def list_all_iff dest!: in_set_takeD)

text \<open>No two recent searches differ in case only, once the list was so.\<close>

lemma pushed_distinct: "distinct (map low ts) \<Longrightarrow> distinct (map low (pushed low t ts))"
proof -
  assume d: "distinct (map low ts)"
  have "distinct (map low (t # filter (\<lambda>x. low x \<noteq> low t) ts))" using d by (auto simp: distinct_map_filter)
  then show ?thesis unfolding pushed_def take_map [symmetric] by (rule distinct_take)
qed

lemma push_search_facts:
  assumes p: "page_ok recent_valid p" and t: "term_ok (utrim text)"
  shows "page_ok recent_valid (push_search low who text p)"
    and "\<exists>rest. snd (readFor recent_store who (push_search low who text p)) = utrim text # rest"
proof -
  obtain q ts where r: "readFor recent_store who p = (q, ts)" by (cases "readFor recent_store who p")
  have v: "recent_valid ts" "page_ok recent_valid q" using recent.readFor_valid [OF _ p r] by simp_all
  have hd: "\<exists>rest. pushed low (utrim text) ts = utrim text # rest" by (simp add: pushed_def MAX_RECENT_def)
  have guard: "units (utrim text) \<noteq> 0" "units (utrim text) \<le> MAX_TERM_LEN" using t by (simp_all add: term_ok_def)
  let ?u = "update recent_store who (\<lambda>_. pushed low (utrim text) ts) q"
  have e: "push_search low who text p = (if pushed low (utrim text) ts = ts then q else fst ?u)"
    using guard by (simp add: push_search_def r)
  have u: "page_ok recent_valid (fst ?u)"
    by (rule recent.update_valid [of recent_store q "\<lambda>_. pushed low (utrim text) ts" who _ "snd ?u"])
      (simp_all add: v pushed_valid [OF v(1) t])
  then show "page_ok recent_valid (push_search low who text p)" using v(2) by (simp add: e)
  show "\<exists>rest. snd (readFor recent_store who (push_search low who text p)) = utrim text # rest"
    using hd readFor_again [OF r] update_shows(1) [of recent_store who "\<lambda>_. pushed low (utrim text) ts" q "fst ?u" "snd ?u"]
    by (auto simp: e)
qed

section \<open>pendingLockStore.ts\<close>

record PendingLock =
  txHash :: ustring
  submittedAtMs :: rat
  lockSlot :: "int option"
  recovered :: bool

type_synonym PendingLockMap = "(ustring, PendingLock) omap"

definition CONFIRM_TIMEOUT_MS :: rat where "CONFIRM_TIMEOUT_MS = 5 * 60 * 1000"

definition shouldClearPendingLock :: "PendingLock option \<Rightarrow> int option \<Rightarrow> int option \<Rightarrow> rat \<Rightarrow> bool" where
  "shouldClearPendingLock rec allowedStake frontier nowMs =
     (case rec of None \<Rightarrow> False | Some r \<Rightarrow>
        case allowedStake of None \<Rightarrow> False | Some w \<Rightarrow>
          if w \<le> 0 then False
          else if recovered r then True
          else case lockSlot r of
                 Some n \<Rightarrow> (case frontier of None \<Rightarrow> False | Some f \<Rightarrow> n \<le> f)
               | None \<Rightarrow> CONFIRM_TIMEOUT_MS < nowMs - submittedAtMs r)"

definition pendingLockCreditIndeterminate :: "PendingLock option \<Rightarrow> int option \<Rightarrow> int option \<Rightarrow> bool" where
  "pendingLockCreditIndeterminate rec allowedStake frontier =
     (case rec of None \<Rightarrow> False | Some r \<Rightarrow>
        if lockSlot r = None then False
        else (case allowedStake of None \<Rightarrow> False | Some w \<Rightarrow> 0 < w) \<and> frontier = None)"

definition isSafeInteger :: "rat \<Rightarrow> bool" where
  "isSafeInteger r \<longleftrightarrow> isInteger r \<and> \<bar>r\<bar> \<le> 2 ^ 53 - 1"

definition parse_lock :: "json \<Rightarrow> PendingLock option" where
  "parse_lock v =
     (case Option.bind (field v ''txHash'') str_of of None \<Rightarrow> None | Some h \<Rightarrow>
        case Option.bind (field v ''submittedAtMs'') num_of of None \<Rightarrow> None | Some t \<Rightarrow>
          Some \<lparr>txHash = h, submittedAtMs = t,
            lockSlot = (case Option.bind (field v ''lockSlot'') num_of of
                          Some n \<Rightarrow> if isSafeInteger n \<and> 0 \<le> n then Some \<lfloor>n\<rfloor> else None
                        | None \<Rightarrow> None),
            recovered = (field v ''recovered'' = Some (JBool True))\<rparr>)"

fun object_entries :: "json \<Rightarrow> (ustring \<times> json) list" where
  "object_entries (JObj fs) = fs"
| "object_entries _ = []"

definition parse_locks :: "stored option \<Rightarrow> PendingLockMap option" where
  "parse_locks raw = map_option (\<lambda>parsed.
     fold (\<lambda>(ss58, v) out. case parse_lock v of None \<Rightarrow> out | Some r \<Rightarrow> omap_set ss58 r out)
       (object_entries parsed) []) (parse_or (JObj []) raw)"

definition lock_json :: "PendingLock \<Rightarrow> json" where
  "lock_json r = JObj ([(ascii ''txHash'', JStr (txHash r)), (ascii ''submittedAtMs'', JNum (submittedAtMs r)),
       (ascii ''lockSlot'', (case lockSlot r of None \<Rightarrow> JNull | Some n \<Rightarrow> JNum (of_int n)))] @
     (if recovered r then [(ascii ''recovered'', JBool True)] else []))"

definition serialize_locks :: "PendingLockMap \<Rightarrow> json" where
  "serialize_locks m = JObj (map (\<lambda>(k, r). (k, lock_json r)) m)"

definition lock_store :: "PendingLockMap store_opts" where
  "lock_store = \<lparr>skey = ascii ''cg-pending-locks'', sempty = [], sparse = parse_locks, sserialize = serialize_locks,
     scrossTab = True\<rparr>"

type_synonym locks = "browser \<times> PendingLockMap live"

definition record_lock :: "rat \<Rightarrow> ustring \<Rightarrow> ustring \<Rightarrow> locks \<Rightarrow> locks" where
  "record_lock now ss58 tx st =
     (let m = cache (snd st)
      in case map_of m ss58 of
           Some existing \<Rightarrow> if txHash existing = tx then st
             else fst (commit lock_store (omap_set ss58 \<lparr>txHash = tx, submittedAtMs = now, lockSlot = None, recovered = False\<rparr> m) st)
         | None \<Rightarrow> fst (commit lock_store (omap_set ss58 \<lparr>txHash = tx, submittedAtMs = now, lockSlot = None, recovered = False\<rparr> m) st))"

definition setLockSlot :: "ustring \<Rightarrow> ustring \<Rightarrow> int \<Rightarrow> locks \<Rightarrow> locks" where
  "setLockSlot ss58 tx slot st =
     (let m = cache (snd st)
      in case map_of m ss58 of
           None \<Rightarrow> st
         | Some existing \<Rightarrow> if txHash existing \<noteq> tx \<or> lockSlot existing = Some slot then st
             else fst (commit lock_store (omap_set ss58 (existing\<lparr>lockSlot := Some slot\<rparr>) m) st))"

definition recover_lock :: "rat \<Rightarrow> ustring \<Rightarrow> ustring \<Rightarrow> locks \<Rightarrow> locks" where
  "recover_lock now ss58 tx st =
     (let m = cache (snd st)
      in case map_of m ss58 of
           Some _ \<Rightarrow> st
         | None \<Rightarrow> fst (commit lock_store (omap_set ss58 \<lparr>txHash = tx, submittedAtMs = now, lockSlot = None, recovered = True\<rparr> m) st))"

definition clear_lock :: "ustring \<Rightarrow> locks \<Rightarrow> locks" where
  "clear_lock ss58 st =
     (let m = cache (snd st)
      in case map_of m ss58 of None \<Rightarrow> st | Some _ \<Rightarrow> fst (commit lock_store (omap_del ss58 m) st))"

definition usePendingLock :: "PendingLockMap \<Rightarrow> ustring option \<Rightarrow> PendingLock option" where
  "usePendingLock snap ss58 = (case ss58 of None \<Rightarrow> None | Some a \<Rightarrow> if a = [] then None else map_of snap a)"

definition locks_valid :: "PendingLockMap \<Rightarrow> bool" where
  "locks_valid m \<longleftrightarrow> omap_ok m \<and>
     (\<forall>(k, r) \<in> set m. case lockSlot r of None \<Rightarrow> True | Some n \<Rightarrow> 0 \<le> n \<and> n \<le> 2 ^ 53 - 1)"

lemma parse_lock_reads_back:
  assumes "case lockSlot r of None \<Rightarrow> True | Some n \<Rightarrow> 0 \<le> n \<and> n \<le> 2 ^ 53 - 1"
  shows "parse_lock (lock_json r) = Some r"
proof -
  have k: "ascii ''submittedAtMs'' \<noteq> ascii ''txHash''" "ascii ''lockSlot'' \<noteq> ascii ''txHash''"
    "ascii ''lockSlot'' \<noteq> ascii ''submittedAtMs''" "ascii ''recovered'' \<noteq> ascii ''txHash''"
    "ascii ''recovered'' \<noteq> ascii ''submittedAtMs''" "ascii ''recovered'' \<noteq> ascii ''lockSlot''"
    by (simp_all add: ascii_def)
  have "isSafeInteger (rat_of_int n)" if "0 \<le> n" "n \<le> 2 ^ 53 - 1" for n
  proof -
    have "rat_of_int n \<le> rat_of_int (2 ^ 53 - 1)" using that(2) by (simp only: of_int_le_iff)
    with that(1) show ?thesis by (simp add: isSafeInteger_def)
  qed
  then show ?thesis
    using assms k by (cases r) (auto simp: parse_lock_def lock_json_def split: option.splits)
qed

abbreviation slot_ok :: "PendingLock \<Rightarrow> bool" where
  "slot_ok r \<equiv> (case lockSlot r of None \<Rightarrow> True | Some n \<Rightarrow> 0 \<le> n \<and> n \<le> 2 ^ 53 - 1)"

lemma safe_floor:
  assumes "isSafeInteger x" "0 \<le> x"
  shows "0 \<le> \<lfloor>x\<rfloor> \<and> \<lfloor>x\<rfloor> \<le> 2 ^ 53 - 1"
proof
  have "x \<le> of_int (2 ^ 53 - 1)" using assms by (simp add: isSafeInteger_def)
  from floor_mono [OF this] show "\<lfloor>x\<rfloor> \<le> 2 ^ 53 - 1" by (simp only: floor_of_int)
  show "0 \<le> \<lfloor>x\<rfloor>" using assms(2) by simp
qed

lemma parse_lock_slot: "parse_lock v = Some r \<Longrightarrow> slot_ok r"
  using safe_floor by (auto simp: parse_lock_def simp del: floor_less_iff le_floor_iff split: option.splits if_splits)

definition add_parsed :: "ustring \<times> json \<Rightarrow> PendingLockMap \<Rightarrow> PendingLockMap" where
  "add_parsed = (\<lambda>(ss58, v) out. case parse_lock v of None \<Rightarrow> out | Some r \<Rightarrow> omap_set ss58 r out)"

lemma set_omap_set_sub: "set (omap_set k v m) \<subseteq> insert (k, v) (set m)"
  by (induction m) (auto split: if_splits)

lemma locks_valid_add: "locks_valid m \<Longrightarrow> slot_ok r \<Longrightarrow> locks_valid (omap_set k r m)"
  using set_omap_set_sub [of k r m] unfolding locks_valid_def by fastforce

lemma add_parsed_valid: "locks_valid m \<Longrightarrow> locks_valid (fold add_parsed es m)"
proof (induction es arbitrary: m)
  case (Cons e es)
  have "locks_valid (add_parsed e m)"
    using Cons.prems locks_valid_add parse_lock_slot by (auto simp: add_parsed_def split: prod.splits option.splits)
  then show ?case using Cons.IH by simp
qed simp

lemma omap_set_new: "k \<notin> fst ` set m \<Longrightarrow> omap_set k v m = m @ [(k, v)]"
  by (induction m) auto

lemma fold_parsed_reads_back:
  "omap_ok (out @ m) \<Longrightarrow> \<forall>(k, r) \<in> set m. slot_ok r \<Longrightarrow>
   fold add_parsed (map (\<lambda>(k, r). (k, lock_json r)) m) out = out @ m"
proof (induction m arbitrary: out)
  case (Cons e m)
  obtain k r where e: "e = (k, r)" by (cases e)
  have "k \<notin> fst ` set out" using Cons.prems(1) by (auto simp: e omap_ok_def)
  then have "add_parsed (k, lock_json r) out = out @ [e]"
    using Cons.prems(2) by (simp add: e add_parsed_def parse_lock_reads_back omap_set_new)
  moreover have "omap_ok ((out @ [e]) @ m)" using Cons.prems(1) by simp
  ultimately show ?case using Cons.IH [of "out @ [e]"] Cons.prems(2) by (simp add: e)
qed simp

lemma parse_locks_fold: "parse_locks raw = map_option (\<lambda>parsed. fold add_parsed (object_entries parsed) []) (parse_or (JObj []) raw)"
  by (simp add: parse_locks_def add_parsed_def)

lemma locks_read_back: "locks_valid m \<Longrightarrow> parse_locks (Some (Json (serialize_locks m))) = Some m"
  using fold_parsed_reads_back [of "[]" m] by (simp add: parse_locks_fold serialize_locks_def locks_valid_def)

interpretation lock_codec: codec parse_locks serialize_locks locks_valid "[]"
proof
  show nil: "locks_valid []" by (simp add: locks_valid_def)
  fix raw m
  assume "parse_locks raw = Some m"
  then obtain es where "m = fold add_parsed es []" by (auto simp: parse_locks_fold)
  then show "locks_valid m" using add_parsed_valid [OF nil] by simp
next
  fix m
  assume "locks_valid m"
  then show "\<exists>w. parse_locks (Some (Json (serialize_locks m))) = Some w \<and> serialize_locks w = serialize_locks m"
    using locks_read_back by blast
qed

section \<open>usePendingLockSync.ts\<close>

datatype vault_action = VLock | VExit | VExitLegacy

record sync_refs =
  handled :: "ustring option"
  slotResolved :: "ustring option"

text \<open>
  One run of the effect.  The result says whether the chain is asked for the lock's slot (\<open>estimateLockSlot\<close>);
  \<open>slot_answer\<close> is the continuation of that read.
\<close>

definition lock_effect ::
  "rat \<Rightarrow> ustring option \<Rightarrow> bool \<Rightarrow> ustring option \<Rightarrow> vault_action option \<Rightarrow> bool \<Rightarrow> sync_refs \<times> locks \<Rightarrow> (sync_refs \<times> locks) \<times> bool" where
  "lock_effect now ss58 submitted vtx lastAction api = (\<lambda>(refs, st).
     case (ss58, vtx) of
       (Some a, Some tx) \<Rightarrow>
         if a = [] \<or> \<not> submitted \<or> tx = [] then ((refs, st), False)
         else let first = (handled refs \<noteq> Some tx);
                  refs = refs\<lparr>handled := Some tx\<rparr>
              in if lastAction = Some VLock then
                   ((refs, if first then record_lock now a tx st else st), api \<and> slotResolved refs \<noteq> Some tx)
                 else if lastAction = Some VExit \<and> first then ((refs, clear_lock a st), False)
                 else ((refs, st), False)
     | _ \<Rightarrow> ((refs, st), False))"

definition slot_answer :: "ustring \<Rightarrow> ustring \<Rightarrow> int option \<Rightarrow> sync_refs \<times> locks \<Rightarrow> sync_refs \<times> locks" where
  "slot_answer a tx slot = (\<lambda>(refs, st). case slot of
     None \<Rightarrow> (refs, st)
   | Some n \<Rightarrow> (refs\<lparr>slotResolved := Some tx\<rparr>, setLockSlot a tx n st))"

abbreviation shown_lock :: "locks \<Rightarrow> ustring \<Rightarrow> PendingLock option" where
  "shown_lock st a \<equiv> map_of (cache (snd st)) a"

lemma commit_shows: "cache (snd (fst (commit opts v st))) = v"
  by (cases st) (auto simp: commit_def Let_def split: option.splits)

lemma record_lock_shows:
  "shown_lock (record_lock now a tx st) c =
     (if c = a \<and> \<not> (\<exists>r. shown_lock st a = Some r \<and> txHash r = tx)
      then Some \<lparr>txHash = tx, submittedAtMs = now, lockSlot = None, recovered = False\<rparr> else shown_lock st c)"
  by (auto simp: record_lock_def Let_def commit_shows split: option.splits)

lemma setLockSlot_shows:
  "shown_lock (setLockSlot a tx n st) c =
     (case shown_lock st c of
        Some r \<Rightarrow> Some (if c = a \<and> txHash r = tx then r\<lparr>lockSlot := Some n\<rparr> else r)
      | None \<Rightarrow> None)"
  by (auto simp: setLockSlot_def Let_def commit_shows split: option.splits)

lemma recover_lock_shows:
  "shown_lock (recover_lock now a tx st) c =
     (if c = a \<and> shown_lock st a = None
      then Some \<lparr>txHash = tx, submittedAtMs = now, lockSlot = None, recovered = True\<rparr> else shown_lock st c)"
  by (auto simp: recover_lock_def Let_def commit_shows split: option.splits)

lemma clear_lock_shows: "shown_lock (clear_lock a st) c = (if c = a then None else shown_lock st c)"
  by (auto simp: clear_lock_def Let_def commit_shows split: option.splits)

section \<open>pollCastStore.ts\<close>

type_synonym ticks = "(ustring, nat) omap"

definition notePollCast :: "int \<Rightarrow> ticks \<Rightarrow> ticks" where
  "notePollCast hostId ticks = omap_set (id_text hostId) (coalesce (map_of ticks (id_text hostId)) 0 + 1) ticks"

definition usePollCastTick :: "int option \<Rightarrow> ticks \<Rightarrow> nat" where
  "usePollCastTick hostId ticks = (case hostId of None \<Rightarrow> 0 | Some h \<Rightarrow> coalesce (map_of ticks (id_text h)) 0)"

lemma id_text_inject [simp]: "id_text i = id_text j \<longleftrightarrow> i = j"
proof -
  have "inj (of_char :: char \<Rightarrow> nat)" by (simp add: inj_def)
  then show ?thesis by (simp add: id_text_def ascii_def inj_map_eq_map)
qed

text \<open>A settled cast changes the tick of its own poll and of no other.\<close>

lemma notePollCast_tick:
  "usePollCastTick (Some h) (notePollCast k ticks) = usePollCastTick (Some h) ticks + (if h = k then 1 else 0)"
  by (simp add: usePollCastTick_def notePollCast_def)

end
