(* ===== verification/Observer.thy ===== *)
theory Observer
  imports Unicode
begin

text \<open>
  The Cardano observer as the app sees it: the reads of \<open>app/src/lib/chain/observer.ts\<close> (the stability window,
  the slot clock, the estimate of a lock's slot, the classification of the observer's health and of its scan
  coverage), the shared watch of \<open>hooks/useObserverHealth.ts\<close>, and the part of
  \<open>pallets/cardano-observer/src/lib.rs\<close> those reads come from: the stall alarm of \<open>on_initialize\<close> and the
  stamps of an applied \<open>observe\<close>.
\<close>

section \<open>The stability window and the slot clock\<close>

record ObserverConfig =
  shelleyStartUnix :: int
  shelleyStartSlot :: int
  stabilitySlots :: int
  stakeEpochLookback :: int

text \<open>\<open>Math.round\<close> of a non-negative quotient.\<close>

definition round_div :: "int \<Rightarrow> int \<Rightarrow> int" where
  "round_div a b = (2 * a + b) div (2 * b)"

definition plural :: "int \<Rightarrow> string" where
  "plural n = (if n = 1 then '''' else ''s'')"

definition describeStabilityWindow :: "int \<Rightarrow> string" where
  "describeStabilityWindow sec =
     (if sec \<le> 0 then ''a moment''
      else if sec < 90 then ''about '' @ show_int sec @ '' seconds''
      else if round_div sec 60 < 60 then
        ''about '' @ show_int (round_div sec 60) @ '' minute'' @ plural (round_div sec 60)
      else if round_div sec 3600 < 48 then
        ''about '' @ show_int (round_div sec 3600) @ '' hour'' @ plural (round_div sec 3600)
      else ''about '' @ show_int (round_div sec 86400) @ '' day'' @ plural (round_div sec 86400))"

definition slotToUnixSec :: "int \<Rightarrow> ObserverConfig \<Rightarrow> int" where
  "slotToUnixSec slot cfg = shelleyStartUnix cfg + (slot - shelleyStartSlot cfg)"

text \<open>The two reads of \<open>estimateLockSlot\<close>: the configuration and the frontier; a read that throws is \<^const>\<open>None\<close>.\<close>

definition estimateLockSlot :: "ObserverConfig option \<Rightarrow> int option option \<Rightarrow> int option" where
  "estimateLockSlot cfg frontier =
     (case (cfg, frontier) of
        (Some c, Some (Some slot)) \<Rightarrow>
          (let s = slot + stabilitySlots c in if 0 < s then Some s else None)
      | _ \<Rightarrow> None)"

text \<open>
  \<open>readObserverConfig\<close>: one in-flight or settled read per connection.  The entry is
  a promise that is pending, or settled with the configuration.  A rejection removes the entry.
\<close>

datatype 'v cached = Pending | Settled 'v

definition readObserverConfig :: "ObserverConfig cached option \<Rightarrow> ObserverConfig cached option \<times> bool" where
  "readObserverConfig hit = (case hit of Some e \<Rightarrow> (Some e, False) | None \<Rightarrow> (Some Pending, True))"

definition config_settles :: "ObserverConfig option \<Rightarrow> ObserverConfig cached option \<Rightarrow> ObserverConfig cached option" where
  "config_settles answer c = (case answer of Some cfg \<Rightarrow> map_option (\<lambda>_. Settled cfg) c | None \<Rightarrow> None)"

definition useStabilityWindow :: "ObserverConfig option \<Rightarrow> string option" where
  "useStabilityWindow answer = map_option (\<lambda>cfg. describeStabilityWindow (stabilitySlots cfg)) answer"

text \<open>A configuration that was read is never read again on the connection; a failed read is.\<close>

lemma config_read_once:
  "config_settles (Some cfg) (fst (readObserverConfig None)) = Some (Settled cfg)"
  "readObserverConfig (Some (Settled cfg)) = (Some (Settled cfg), False)"
  "snd (readObserverConfig (config_settles None (fst (readObserverConfig None))))"
  by (simp_all add: readObserverConfig_def config_settles_def)

section \<open>Health\<close>

datatype ObserverHealth = Ok | Unknown | Never_started | Stalled int

record ObserverLiveness =
  latched :: "bool option"
  lastAppliedAt :: "int option"
  bestBlock :: "int option"
  stallAfter :: "int option"
  everObserved :: "bool option"

definition classifyObserverHealth :: "ObserverLiveness \<Rightarrow> ObserverHealth" where
  "classifyObserverHealth live =
     (case (everObserved live, bestBlock live, stallAfter live) of
        (Some ever, Some best, Some limit) \<Rightarrow>
          if ever = False then Never_started
          else if latched live = Some True then
            Stalled (case lastAppliedAt live of None \<Rightarrow> limit | Some l \<Rightarrow> max limit (best - l))
          else (case lastAppliedAt live of
                  None \<Rightarrow> Unknown
                | Some l \<Rightarrow> if best - l > limit then Stalled (best - l) else Ok)
      | _ \<Rightarrow> Unknown)"

datatype ScanCoverage = Coverage_unknown | Never_swept | Swept int

definition classifyScanCoverage :: "int option \<Rightarrow> int option \<Rightarrow> ScanCoverage" where
  "classifyScanCoverage lastSweepAt best =
     (case (lastSweepAt, best) of
        (Some s, Some b) \<Rightarrow> if s = 0 then Never_swept else Swept (max 0 (b - s))
      | _ \<Rightarrow> Coverage_unknown)"

definition deriveEverObserved :: "bool option \<Rightarrow> int option \<Rightarrow> bool option" where
  "deriveEverObserved hasReference lastApplied =
     (if hasReference = Some True then Some True
      else if (case lastApplied of Some l \<Rightarrow> 0 < l | None \<Rightarrow> False) then Some True
      else if hasReference = None \<or> lastApplied = None then None
      else Some False)"

section \<open>The shared watch\<close>

record RawWatched =
  wlatched :: "bool option"
  wlastAppliedAt :: "int option"
  weverObserved :: "bool option"
  hasReference :: "bool option"

definition UNRESOLVED :: RawWatched where
  "UNRESOLVED = \<lparr>wlatched = None, wlastAppliedAt = None, weverObserved = None, hasReference = None\<rparr>"

type_synonym watched = "bool option \<times> int option \<times> bool option"

definition watched_of :: "RawWatched \<Rightarrow> watched" where
  "watched_of r = (wlatched r, wlastAppliedAt r, weverObserved r)"

text \<open>The watch of a connection: the snapshot and, for each listener, the value it was last called with.\<close>

record SharedWatch =
  snapshot :: RawWatched
  wlisteners :: "(nat, watched) omap"

datatype watch_event = Latch "bool option" | Applied "int option" | Reference "bool option"

text \<open>
  The three subscriptions.  A read error of the alarm is taken for \<open>false\<close>; of the clock and of the
  reference for "not known".  \<open>Reference (Some r)\<close> is an emission, \<open>r\<close> saying whether there is a reference.
\<close>

definition merge_event :: "watch_event \<Rightarrow> RawWatched \<Rightarrow> RawWatched" where
  "merge_event ev r = (case ev of
     Latch v \<Rightarrow> r\<lparr>wlatched := Some (coalesce v False)\<rparr>
   | Applied v \<Rightarrow> r\<lparr>wlastAppliedAt := v\<rparr>
   | Reference v \<Rightarrow> r\<lparr>hasReference := v\<rparr>)"

definition patch_watch :: "watch_event \<Rightarrow> SharedWatch \<Rightarrow> SharedWatch" where
  "patch_watch ev w =
     (let m = merge_event ev (snapshot w);
          m = m\<lparr>weverObserved := deriveEverObserved (hasReference m) (wlastAppliedAt m)\<rparr>
      in if watched_of m = watched_of (snapshot w) then w
         else w\<lparr>snapshot := m, wlisteners := map (\<lambda>(l, _). (l, watched_of m)) (wlisteners w)\<rparr>)"

definition subscribeWatched :: "nat \<Rightarrow> SharedWatch option \<Rightarrow> SharedWatch option" where
  "subscribeWatched l entry =
     (let w = coalesce entry \<lparr>snapshot = UNRESOLVED, wlisteners = []\<rparr>
      in Some (w\<lparr>wlisteners := omap_set l (watched_of (snapshot w)) (wlisteners w)\<rparr>))"

definition unsubscribeWatched :: "nat \<Rightarrow> SharedWatch option \<Rightarrow> SharedWatch option" where
  "unsubscribeWatched l entry = (case entry of None \<Rightarrow> None | Some w \<Rightarrow>
     (let w = w\<lparr>wlisteners := omap_del l (wlisteners w)\<rparr>
      in if wlisteners w = [] then None else Some w))"

definition useObserverHealth :: "watched \<Rightarrow> int option \<Rightarrow> int option \<Rightarrow> ObserverHealth" where
  "useObserverHealth w best limit = (case w of (la, ap, ev) \<Rightarrow>
     classifyObserverHealth \<lparr>latched = la, lastAppliedAt = ap, bestBlock = best, stallAfter = limit, everObserved = ev\<rparr>)"

text \<open>\<open>readStallAfter\<close>: as for the configuration.\<close>

definition readStallAfter :: "int cached option \<Rightarrow> int cached option \<times> bool" where
  "readStallAfter hit = (case hit of Some e \<Rightarrow> (Some e, False) | None \<Rightarrow> (Some Pending, True))"

text \<open>The separate watch of the sweep clock.  An error of the read is "not known".\<close>

record SweepWatch =
  sweep_snapshot :: "int option"
  sweep_listeners :: "(nat, int option) omap"

definition patch_sweep :: "int option \<Rightarrow> SweepWatch \<Rightarrow> SweepWatch" where
  "patch_sweep v w =
     (if v = sweep_snapshot w then w
      else w\<lparr>sweep_snapshot := v, sweep_listeners := map (\<lambda>(l, _). (l, v)) (sweep_listeners w)\<rparr>)"

definition subscribeLastSweepAt :: "nat \<Rightarrow> SweepWatch option \<Rightarrow> SweepWatch option" where
  "subscribeLastSweepAt l entry =
     (let w = coalesce entry \<lparr>sweep_snapshot = None, sweep_listeners = []\<rparr>
      in Some (w\<lparr>sweep_listeners := omap_set l (sweep_snapshot w) (sweep_listeners w)\<rparr>))"

definition unsubscribeLastSweepAt :: "nat \<Rightarrow> SweepWatch option \<Rightarrow> SweepWatch option" where
  "unsubscribeLastSweepAt l entry = (case entry of None \<Rightarrow> None | Some w \<Rightarrow>
     (let w = w\<lparr>sweep_listeners := omap_del l (sweep_listeners w)\<rparr>
      in if sweep_listeners w = [] then None else Some w))"

definition useScanCoverage :: "int option \<Rightarrow> int option \<Rightarrow> ScanCoverage" where
  "useScanCoverage lastSweepAt best = classifyScanCoverage lastSweepAt best"

text \<open>Every listener of a watch was last called with its present snapshot.\<close>

definition in_touch :: "SharedWatch option \<Rightarrow> bool" where
  "in_touch entry = (case entry of None \<Rightarrow> True | Some w \<Rightarrow>
     wlisteners w \<noteq> [] \<and> list_all (\<lambda>(l, v). v = watched_of (snapshot w)) (wlisteners w))"

lemma told_set: "list_all (\<lambda>(l, v). v = x) m \<Longrightarrow> list_all (\<lambda>(l, v). v = x) (omap_set l x m) \<and> omap_set l x m \<noteq> []"
  by (induction m) (auto split: if_splits)

lemma in_touch_subscribe: "in_touch entry \<Longrightarrow> in_touch (subscribeWatched l entry)"
proof (cases entry)
  case (Some w)
  assume "in_touch entry"
  then show ?thesis
    using told_set [of "watched_of (snapshot w)" "wlisteners w" l] Some by (simp add: in_touch_def subscribeWatched_def Let_def)
qed (simp add: in_touch_def subscribeWatched_def)

definition sweep_in_touch :: "SweepWatch option \<Rightarrow> bool" where
  "sweep_in_touch entry = (case entry of None \<Rightarrow> True | Some w \<Rightarrow>
     sweep_listeners w \<noteq> [] \<and> list_all (\<lambda>(l, v). v = sweep_snapshot w) (sweep_listeners w))"

lemma sweep_in_touch_ops:
  "sweep_in_touch entry \<Longrightarrow> sweep_in_touch (subscribeLastSweepAt l entry)"
  "sweep_in_touch entry \<Longrightarrow> sweep_in_touch (unsubscribeLastSweepAt l entry)"
  "sweep_in_touch (Some w) \<Longrightarrow> sweep_in_touch (Some (patch_sweep v w))"
proof -
  show "sweep_in_touch entry \<Longrightarrow> sweep_in_touch (subscribeLastSweepAt l entry)"
  proof (cases entry)
    case (Some w)
    assume "sweep_in_touch entry"
    then show ?thesis
      using told_set [of "sweep_snapshot w" "sweep_listeners w" l] Some
      by (simp add: sweep_in_touch_def subscribeLastSweepAt_def Let_def)
  qed (simp add: sweep_in_touch_def subscribeLastSweepAt_def)
  show "sweep_in_touch entry \<Longrightarrow> sweep_in_touch (unsubscribeLastSweepAt l entry)"
    by (cases entry) (auto simp: sweep_in_touch_def unsubscribeLastSweepAt_def Let_def omap_del_def list_all_iff)
  show "sweep_in_touch (Some w) \<Longrightarrow> sweep_in_touch (Some (patch_sweep v w))"
    by (auto simp: sweep_in_touch_def patch_sweep_def list_all_iff)
qed

lemma in_touch_unsubscribe: "in_touch entry \<Longrightarrow> in_touch (unsubscribeWatched l entry)"
  by (cases entry) (auto simp: in_touch_def unsubscribeWatched_def Let_def omap_del_def list_all_iff)

lemma in_touch_patch: "in_touch (Some w) \<Longrightarrow> in_touch (Some (patch_watch ev w))"
  by (auto simp: in_touch_def patch_watch_def Let_def list_all_iff)

section \<open>The pallet's alarm\<close>

text \<open>
  The storage the alarm uses.  \<open>LastReference\<close> is \<open>Some\<close> from the first observation that carried its whole change
  set; \<open>PendingChanges\<close> is what the last one deferred.
\<close>

record alarm =
  LastAppliedAt :: nat
  StalledFlag :: bool
  LastReference :: "nat option"
  PendingChanges :: nat

definition genesis_alarm :: alarm where
  "genesis_alarm = \<lparr>LastAppliedAt = 0, StalledFlag = False, LastReference = None, PendingChanges = 0\<rparr>"

definition alarm_on_initialize :: "nat \<Rightarrow> nat \<Rightarrow> alarm \<Rightarrow> alarm" where
  "alarm_on_initialize limit now st =
     (if LastAppliedAt st = 0 then st\<lparr>LastAppliedAt := now\<rparr>
      else if now - LastAppliedAt st \<le> limit then st
      else if StalledFlag st then st
      else if LastReference st = None \<and> PendingChanges st = 0 then st
      else st\<lparr>StalledFlag := True\<rparr>)"

text \<open>
  An applied observation: the backlog with the frontier, which advances only when nothing is deferred, then the clock of the
  alarm.  The scan rotation between the two touches neither.
\<close>

definition observe_frontier :: "nat \<Rightarrow> nat \<Rightarrow> alarm \<Rightarrow> alarm" where
  "observe_frontier slot pending st =
     (let st = st\<lparr>PendingChanges := pending\<rparr>
      in if pending = 0 then st\<lparr>LastReference := Some slot\<rparr> else st)"

definition observe_clock :: "nat \<Rightarrow> alarm \<Rightarrow> alarm" where
  "observe_clock now st =
     (let st = (if StalledFlag st then st\<lparr>StalledFlag := False\<rparr> else st)
      in st\<lparr>LastAppliedAt := now\<rparr>)"

definition observe_applied :: "nat \<Rightarrow> nat \<Rightarrow> nat \<Rightarrow> alarm \<Rightarrow> alarm" where
  "observe_applied now slot pending st = observe_clock now (observe_frontier slot pending st)"

text \<open>A block: \<open>on_initialize\<close>, then possibly an observation.\<close>

definition run_block :: "nat \<Rightarrow> (nat \<times> nat) option \<Rightarrow> nat \<times> alarm \<Rightarrow> nat \<times> alarm" where
  "run_block limit obs = (\<lambda>(n, st).
     let st = alarm_on_initialize limit (Suc n) st
     in (Suc n, case obs of None \<Rightarrow> st | Some (slot, pending) \<Rightarrow> observe_applied (Suc n) slot pending st))"

definition run_blocks :: "nat \<Rightarrow> (nat \<times> nat) option list \<Rightarrow> nat \<times> alarm" where
  "run_blocks limit obs = fold (run_block limit) obs (0, genesis_alarm)"

text \<open>What the hook shows once its four reads of that state have arrived.\<close>

definition shown_health :: "nat \<Rightarrow> nat \<times> alarm \<Rightarrow> ObserverHealth" where
  "shown_health limit = (\<lambda>(n, st).
     let has = (LastReference st \<noteq> None); ap = int (LastAppliedAt st)
     in useObserverHealth (Some (StalledFlag st), Some ap, deriveEverObserved (Some has) (Some ap))
          (Some (int n)) (Some (int limit)))"

definition alarm_inv :: "nat \<Rightarrow> bool \<Rightarrow> nat \<times> alarm \<Rightarrow> bool" where
  "alarm_inv limit observed = (\<lambda>(n, st).
     LastAppliedAt st \<le> n \<and> (0 < n \<longrightarrow> 0 < LastAppliedAt st) \<and>
     (LastReference st \<noteq> None \<or> 0 < PendingChanges st \<longleftrightarrow> observed) \<and>
     (StalledFlag st \<longleftrightarrow> observed \<and> n - LastAppliedAt st > limit) \<and>
     (\<not> observed \<and> 0 < n \<longrightarrow> LastAppliedAt st = 1))"

lemma alarm_inv_block:
  assumes "alarm_inv limit observed (n, st)"
  shows "alarm_inv limit (observed \<or> obs \<noteq> None) (run_block limit obs (n, st))"
proof (cases obs)
  case None
  with assms show ?thesis
    by (auto simp: alarm_inv_def run_block_def alarm_on_initialize_def)
next
  case (Some o')
  obtain slot pending where o': "o' = (slot, pending)" by (cases o')
  with Some show ?thesis
    by (auto simp: alarm_inv_def run_block_def observe_applied_def observe_frontier_def observe_clock_def Let_def)
qed

lemma alarm_inv_fold:
  "alarm_inv limit observed s \<Longrightarrow> alarm_inv limit (observed \<or> list_ex (\<lambda>x. x \<noteq> None) obs) (fold (run_block limit) obs s)"
proof (induction obs arbitrary: s observed)
  case (Cons x obs)
  then show ?case using Cons.IH [OF alarm_inv_block [of limit observed "fst s" "snd s" x]] by (simp add: disj_ac)
qed simp

lemma run_blocks_inv: "alarm_inv limit (list_ex (\<lambda>x. x \<noteq> None) obs) (run_blocks limit obs)"
  using alarm_inv_fold [of limit False "(0, genesis_alarm)" obs]
  by (simp add: run_blocks_def alarm_inv_def genesis_alarm_def)

lemma run_blocks_height: "fst (run_blocks limit obs) = length obs"
proof -
  have "fst (fold (run_block limit) obs s) = fst s + length obs" for s
    by (induction obs arbitrary: s) (simp_all add: run_block_def Let_def split: prod.splits)
  then show ?thesis by (simp add: run_blocks_def)
qed

text \<open>
  C22: the health the app shows agrees with the pallet's alarm.  On a chain that has applied an observation,
  whatever blocks followed, the app reports the observer stalled exactly when the pallet's latch is set, with
  the number of blocks since the last applied observation, and otherwise reports it healthy.
\<close>

theorem health_matches_latch:
  assumes "list_ex (\<lambda>x. x \<noteq> None) obs" and "run_blocks limit obs = (n, st)"
  shows "shown_health limit (n, st) =
    (if StalledFlag st then Stalled (int (n - LastAppliedAt st)) else Ok)"
proof -
  have inv: "alarm_inv limit True (n, st)" using run_blocks_inv [of limit obs] assms by simp
  have "n = length obs" using run_blocks_height [of limit obs] assms(2) by simp
  moreover have "obs \<noteq> []" using assms(1) by auto
  ultimately have n: "0 < n" by simp
  have le: "LastAppliedAt st \<le> n" "0 < LastAppliedAt st" "StalledFlag st \<longleftrightarrow> n - LastAppliedAt st > limit"
    using inv n by (auto simp: alarm_inv_def)
  obtain g where g: "n = LastAppliedAt st + g" using le(1) le_Suc_ex by blast
  have "StalledFlag st \<longleftrightarrow> limit < g" using le(3) g by simp
  then show ?thesis
    using le(2) unfolding g
    by (auto simp: shown_health_def useObserverHealth_def classifyObserverHealth_def deriveEverObserved_def Let_def)
qed

theorem health_matches_latch_witness:
  "shown_health 2 (run_blocks 2 [None, Some (7, 1), None, None, None]) = Stalled 3"
proof -
  have ex: "list_ex (\<lambda>x. x \<noteq> None) [None, Some (7 :: nat, 1 :: nat), None, None, None]" by simp
  have st: "run_blocks 2 [None, Some (7, 1), None, None, None] =
      (5, \<lparr>LastAppliedAt = 2, StalledFlag = True, LastReference = None, PendingChanges = 1\<rparr>)"
    by (simp add: run_blocks_def run_block_def alarm_on_initialize_def observe_applied_def observe_frontier_def observe_clock_def genesis_alarm_def Let_def)
  show ?thesis using health_matches_latch [OF ex st] st by simp
qed

text \<open>
  C23: on a chain that never applied an observation the alarm never latches, and yet once the clock anchored by the
  first block is older than the limit the app reports the observer as stalled and never as "not started".
\<close>

theorem never_observed_shown_stalled:
  assumes "\<not> list_ex (\<lambda>x. x \<noteq> None) obs" and "limit + 1 < length obs" and "run_blocks limit obs = (n, st)"
  shows "\<not> StalledFlag st \<and> shown_health limit (n, st) = Stalled (int (length obs) - 1)"
proof -
  have inv: "alarm_inv limit False (n, st)" using run_blocks_inv [of limit obs] assms by simp
  have n: "n = length obs" using run_blocks_height [of limit obs] assms(3) by simp
  then have st: "\<not> StalledFlag st" "LastAppliedAt st = 1" "LastReference st = None"
    using inv assms(2) by (auto simp: alarm_inv_def)
  then show ?thesis
    using n assms(2) by (simp add: shown_health_def useObserverHealth_def classifyObserverHealth_def deriveEverObserved_def Let_def)
qed

theorem never_observed_shown_stalled_witness:
  "shown_health 2 (run_blocks 2 [None, None, None, None]) = Stalled 3"
proof -
  have no: "\<not> list_ex (\<lambda>x. x \<noteq> None) [None :: (nat \<times> nat) option, None, None, None]" by simp
  obtain n st where r: "run_blocks 2 [None, None, None, None] = (n, st)" by (cases "run_blocks 2 [None, None, None, None]")
  show ?thesis using never_observed_shown_stalled [OF no _ r] by (simp add: r)
qed

text \<open>A reference read that arrives before the clock is dropped from the snapshot.\<close>

lemma early_reference_dropped:
  "hasReference (snapshot (patch_watch (Reference (Some False)) \<lparr>snapshot = UNRESOLVED, wlisteners = ls\<rparr>)) = None"
  by (simp add: patch_watch_def merge_event_def UNRESOLVED_def watched_of_def deriveEverObserved_def)

end
