(* ===== verification/Pending_Lock.thy ===== *)
theory Pending_Lock
  imports Device_Records Observer
begin

text \<open>
  The wait between a lock and its credit: the status \<open>hooks/usePendingCapacity.ts\<close> derives from the stored
  record and the chain, its rule for dropping the record, and the record rebuilt by
  \<open>hooks/usePendingLockRecover.ts\<close> on a device that did not submit the lock.
\<close>

definition OVERDUE_GRACE_MS :: rat where "OVERDUE_GRACE_MS = 3 * 60 * 1000"

text \<open>The progress is \<^const>\<open>None\<close> where the source computes \<open>NaN\<close>.\<close>

datatype PendingCapacityStatus =
  PNone | Confirming bool | Crediting rat rat "rat option" bool | Overdue ustring

definition clamp01 :: "rat \<Rightarrow> rat" where
  "clamp01 x = min 1 (max 0 x)"

text \<open>\<open>1 - etaMs / (stability * 1000)\<close>, where a window of zero divides by zero.\<close>

definition clock_progress :: "int \<Rightarrow> rat \<Rightarrow> rat option" where
  "clock_progress stability etaMs =
     (if stability = 0 then (if etaMs = 0 then None else Some (if 0 < etaMs then 0 else 1))
      else Some (clamp01 (1 - etaMs / (of_int stability * 1000))))"

definition progress_of :: "int option \<Rightarrow> int \<Rightarrow> int \<Rightarrow> rat \<Rightarrow> rat option" where
  "progress_of frontier slot stability etaMs =
     (case frontier of
        Some f \<Rightarrow> if 0 < stability then Some (clamp01 (of_int (f - slot + stability) / of_int stability))
                  else clock_progress stability etaMs
      | None \<Rightarrow> clock_progress stability etaMs)"

definition usePendingCapacity ::
  "PendingLock option \<Rightarrow> int option \<Rightarrow> int option \<Rightarrow> bool \<Rightarrow> ObserverConfig option \<Rightarrow> rat \<Rightarrow> PendingCapacityStatus" where
  "usePendingCapacity rec allowedStake frontier enforcing cfg now =
     (case rec of None \<Rightarrow> PNone | Some r \<Rightarrow>
        if shouldClearPendingLock rec allowedStake frontier now then PNone
        else let cantTell = pendingLockCreditIndeterminate rec allowedStake frontier
             in case (lockSlot r, cfg) of
                  (Some slot, Some c) \<Rightarrow>
                    (let stability = stabilitySlots c;
                         unlockAtMs = of_int (slotToUnixSec (slot + stability) c) * 1000;
                         etaMs = unlockAtMs - now
                     in if etaMs < - OVERDUE_GRACE_MS \<and> enforcing \<and> \<not> cantTell then Overdue (txHash r)
                        else Crediting unlockAtMs etaMs (progress_of frontier slot stability etaMs) (\<not> enforcing))
                | _ \<Rightarrow>
                    (if \<not> recovered r \<and> now - submittedAtMs r > CONFIRM_TIMEOUT_MS \<and> \<not> cantTell
                     then Overdue (txHash r) else Confirming (recovered r)))"

text \<open>The effect that drops a credited record.\<close>

definition clear_credited :: "ustring option \<Rightarrow> int option \<Rightarrow> int option \<Rightarrow> rat \<Rightarrow> locks \<Rightarrow> locks" where
  "clear_credited ss58 allowedStake frontier now st =
     (case ss58 of None \<Rightarrow> st | Some a \<Rightarrow>
        if a = [] then st
        else if shouldClearPendingLock (usePendingLock (cache (snd st)) ss58) allowedStake frontier now then clear_lock a st
        else st)"

record vault_view =
  lockedKnown :: bool
  locked :: "int option"
  lockedTxHash :: "ustring option"

definition usePendingLockRecover :: "rat \<Rightarrow> vault_view \<Rightarrow> ustring option \<Rightarrow> int option \<Rightarrow> locks \<Rightarrow> locks" where
  "usePendingLockRecover now vault ss58 postingPower st =
     (case (ss58, postingPower, locked vault, lockedTxHash vault) of
        (Some a, Some w, Some l, Some tx) \<Rightarrow>
          if a = [] \<or> 0 < w \<or> \<not> lockedKnown vault \<or> l \<le> 0 \<or> tx = [] then st
          else recover_lock now a tx st
      | _ \<Rightarrow> st)"

section \<open>A lock is kept until it is credited\<close>

text \<open>
  What can happen after the lock \<open>tx\<close> of account \<open>a\<close> is submitted: the effect of the sync hook runs again
  (with the chain reachable or not), a slot read is answered, the record is offered for recovery, another
  account locks or clears, and the capacity hook applies its clear rule to whatever it reads.
\<close>

datatype lock_event =
  Rerun rat bool
| Answer "int option"
| Offer rat vault_view "int option"
| Other_lock ustring rat ustring
| Other_clear ustring
| Sweep "int option" "int option" rat

fun lock_event_step :: "ustring \<Rightarrow> ustring \<Rightarrow> lock_event \<Rightarrow> sync_refs \<times> locks \<Rightarrow> sync_refs \<times> locks" where
  "lock_event_step a tx (Rerun now api) s = fst (lock_effect now (Some a) True (Some tx) (Some VLock) api s)"
| "lock_event_step a tx (Answer slot) s = slot_answer a tx slot s"
| "lock_event_step a tx (Offer now vault pw) s = (fst s, usePendingLockRecover now vault (Some a) pw (snd s))"
| "lock_event_step a tx (Other_lock c now tx') s = (fst s, if c = a then snd s else record_lock now c tx' (snd s))"
| "lock_event_step a tx (Other_clear c) s = (fst s, if c = a then snd s else clear_lock c (snd s))"
| "lock_event_step a tx (Sweep stake frontier now) s = (fst s, clear_credited (Some a) stake frontier now (snd s))"

text \<open>
  Events before the observer has read the lock's slot \<open>n\<close>: every frontier seen is below \<open>n\<close>, every answer to the slot
  read is \<open>n\<close>, and until one has arrived (\<open>known\<close>) no sweep comes after the confirm timeout.
\<close>

fun uncredited :: "int \<Rightarrow> rat \<Rightarrow> bool \<Rightarrow> lock_event list \<Rightarrow> bool" where
  "uncredited n t0 known [] = True"
| "uncredited n t0 known (Answer (Some m) # evs) = (m = n \<and> uncredited n t0 True evs)"
| "uncredited n t0 known (Sweep stake frontier now # evs) =
     ((case frontier of Some f \<Rightarrow> f < n | None \<Rightarrow> True) \<and> (known \<or> now - t0 \<le> CONFIRM_TIMEOUT_MS) \<and>
      uncredited n t0 known evs)"
| "uncredited n t0 known (ev # evs) = uncredited n t0 known evs"

definition lock_kept :: "ustring \<Rightarrow> ustring \<Rightarrow> rat \<Rightarrow> int \<Rightarrow> bool \<Rightarrow> sync_refs \<times> locks \<Rightarrow> bool" where
  "lock_kept a tx t0 n known s \<longleftrightarrow> handled (fst s) = Some tx \<and>
     (\<exists>r. shown_lock (snd s) a = Some r \<and> txHash r = tx \<and> submittedAtMs r = t0 \<and> \<not> recovered r \<and>
        (lockSlot r = Some n \<or> \<not> known \<and> lockSlot r = None))"

lemma lock_kept_sweep:
  assumes "lock_kept a tx t0 n known s" "uncredited n t0 known (Sweep stake frontier now # evs)" "a \<noteq> []"
  shows "lock_event_step a tx (Sweep stake frontier now) s = s"
proof -
  have "\<not> shouldClearPendingLock (usePendingLock (cache (snd (snd s))) (Some a)) stake frontier now"
    using assms
    by (auto simp: lock_kept_def usePendingLock_def shouldClearPendingLock_def split: option.splits)
  then show ?thesis by (simp add: clear_credited_def assms(3))
qed

lemma lock_kept_answer: "lock_kept a tx t0 n known s \<Longrightarrow> lock_kept a tx t0 n True (slot_answer a tx (Some n) s)"
  by (cases s) (auto simp: slot_answer_def lock_kept_def setLockSlot_shows)

lemma lock_kept_other:
  assumes k: "lock_kept a tx t0 n known s" and a: "a \<noteq> []" "tx \<noteq> []"
  shows "lock_kept a tx t0 n known (lock_event_step a tx (Rerun now api) s)"
    "lock_kept a tx t0 n known (lock_event_step a tx (Answer None) s)"
    "lock_kept a tx t0 n known (lock_event_step a tx (Offer now vault pw) s)"
    "lock_kept a tx t0 n known (lock_event_step a tx (Other_lock c now tx') s)"
    "lock_kept a tx t0 n known (lock_event_step a tx (Other_clear c) s)"
proof -
  have "handled (fst s) = Some tx" using k by (simp add: lock_kept_def)
  with k a show "lock_kept a tx t0 n known (lock_event_step a tx (Rerun now api) s)"
    by (cases s) (simp add: lock_effect_def lock_kept_def)
  show "lock_kept a tx t0 n known (lock_event_step a tx (Answer None) s)"
    using k by (cases s) (simp add: slot_answer_def lock_kept_def)
  show "lock_kept a tx t0 n known (lock_event_step a tx (Offer now vault pw) s)"
    using k by (auto simp: lock_kept_def usePendingLockRecover_def recover_lock_shows split: option.splits)
qed (use k in \<open>auto simp: lock_kept_def record_lock_shows clear_lock_shows\<close>)

lemma lock_kept_run:
  "lock_kept a tx t0 n known s \<Longrightarrow> uncredited n t0 known evs \<Longrightarrow> a \<noteq> [] \<Longrightarrow> tx \<noteq> [] \<Longrightarrow>
   \<exists>known'. lock_kept a tx t0 n known' (fold (lock_event_step a tx) evs s)"
proof (induction n t0 known evs arbitrary: s rule: uncredited.induct)
  case (1 n t0 known)
  then show ?case by auto
next
  case (2 n t0 known m evs)
  then show ?case using lock_kept_answer [of a tx t0 n known s] by simp
next
  case (3 n t0 known stake frontier now evs)
  then show ?case using lock_kept_sweep [OF 3(2,3,4)] by (simp del: lock_event_step.simps)
qed (simp_all del: lock_event_step.simps add: lock_kept_other)

text \<open>
  C21: a fresh lock is never lost to the weight of an earlier one.  After a lock is submitted, whatever the
  sync hook, the recovery hook, other accounts and the clear rule do, the record of the lock stays, with the
  transaction and the clock of its submission, as long as every frontier read is below its slot and, while no slot
  read has been answered, the confirm timeout has not passed; no weight, however large, drops it.  When a slot
  read is answered the record carries the slot, and from then on a positive weight drops it as soon as the
  frontier has reached the slot, at whatever time.
\<close>

theorem fresh_lock_survives_old_weight:
  assumes "a \<noteq> []" "tx \<noteq> []" and "handled refs \<noteq> Some tx"
    and "\<forall>r. shown_lock st a = Some r \<longrightarrow> txHash r \<noteq> tx"
    and "uncredited n t0 False evs"
    and "s' = fold (lock_event_step a tx) evs (fst (lock_effect t0 (Some a) True (Some tx) (Some VLock) api (refs, st)))"
  shows "(\<exists>r. shown_lock (snd s') a = Some r \<and> txHash r = tx \<and> submittedAtMs r = t0 \<and> \<not> recovered r \<and>
      lockSlot r \<in> {None, Some n}) \<and>
    (\<exists>r. shown_lock (snd (slot_answer a tx (Some n) s')) a = Some r \<and> lockSlot r = Some n) \<and>
    (0 < w \<longrightarrow> n \<le> f \<longrightarrow> shown_lock (snd (lock_event_step a tx (Sweep (Some w) (Some f) now) (slot_answer a tx (Some n) s'))) a = None)"
proof -
  have "lock_kept a tx t0 n False (fst (lock_effect t0 (Some a) True (Some tx) (Some VLock) api (refs, st)))"
    using assms(1-4) by (auto simp: lock_kept_def lock_effect_def Let_def record_lock_shows)
  from lock_kept_run [OF this assms(5,1,2)] obtain known where k: "lock_kept a tx t0 n known s'" by (auto simp: assms(6))
  then obtain r where r: "shown_lock (snd (slot_answer a tx (Some n) s')) a = Some r" "lockSlot r = Some n" "\<not> recovered r"
    using lock_kept_answer [OF k] by (auto simp: lock_kept_def)
  have "shown_lock (snd (lock_event_step a tx (Sweep (Some w) (Some f) now) (slot_answer a tx (Some n) s'))) a = None"
    if "0 < w" "n \<le> f"
    using that r assms(1)
    by (simp add: clear_credited_def usePendingLock_def shouldClearPendingLock_def clear_lock_shows)
  with k r show ?thesis by (auto simp: lock_kept_def)
qed

theorem fresh_lock_survives_old_weight_witness:
  "let st = (demo_browser, createPersistentStore lock_store demo_browser);
       s = fst (lock_effect 1000 (Some [97]) True (Some [1]) (Some VLock) False (\<lparr>handled = None, slotResolved = None\<rparr>, st));
       s' = fold (lock_event_step [97] [1]) [Sweep (Some 500) (Some 41) 2000, Rerun 2500 True, Answer (Some 42),
              Sweep (Some 500) (Some 41) 900000000] s
   in \<exists>r. shown_lock (snd s') [97] = Some r \<and> txHash r = [1]"
proof -
  let ?st = "(demo_browser, createPersistentStore lock_store demo_browser)"
  let ?refs = "\<lparr>handled = None, slotResolved = None\<rparr>"
  let ?evs = "[Sweep (Some 500) (Some 41) 2000, Rerun 2500 True, Answer (Some 42), Sweep (Some 500) (Some 41) 900000000]"
  let ?s = "fst (lock_effect 1000 (Some [97]) True (Some [1]) (Some VLock) False (?refs, ?st))"
  have no: "\<forall>r. shown_lock ?st [97] = Some r \<longrightarrow> txHash r \<noteq> [1]"
    by (simp add: createPersistentStore_def loadFromStorage_def demo_browser_def getItem_def lock_store_def parse_locks_def)
  have early: "uncredited 42 1000 False ?evs" by (simp add: CONFIRM_TIMEOUT_MS_def)
  have "handled ?refs \<noteq> Some [1]" by simp
  from fresh_lock_survives_old_weight [OF _ _ this no early refl] show ?thesis unfolding Let_def by blast
qed

text \<open>
  The status says "overdue" about a submitted lock only where the reads rule its credit out: the weight is not
  positive, or the observer's frontier is known to be short of the lock's slot.
\<close>

lemma overdue_established:
  assumes "usePendingCapacity (Some r) stake frontier enforcing cfg now = Overdue h"
  shows "h = txHash r \<and>
    ((case stake of Some w \<Rightarrow> w \<le> 0 | None \<Rightarrow> True) \<or> (\<exists>f n. frontier = Some f \<and> lockSlot r = Some n \<and> f < n))"
  using assms
  by (auto simp: usePendingCapacity_def Let_def shouldClearPendingLock_def pendingLockCreditIndeterminate_def
      split: option.splits if_splits)

end
