(* ===== verification/Read_State.thy ===== *)
theory Read_State
  imports Device_Records
begin

text \<open>
  The read state of the notifications, \<open>app/src/lib/notificationReadState.ts\<close>: when this device first saw each
  item and up to when the viewer has read, with the eviction that keeps the record bounded.
\<close>

record ReadState =
  readThrough :: rat
  firstSeen :: "(ustring, rat) omap"

definition EMPTY_READ_STATE :: ReadState where
  "EMPTY_READ_STATE = \<lparr>readThrough = 0, firstSeen = []\<rparr>"

definition MAX_TRACKED :: nat where "MAX_TRACKED = 10000"

text \<open>\<open>Object.entries\<close> of a value of type object; the keys of an array are its indices.\<close>

fun entries :: "json \<Rightarrow> (ustring \<times> json) list" where
  "entries (JObj fs) = fs"
| "entries (JArr xs) = zip (map (\<lambda>i. ascii (show_nat i)) [0..<length xs]) xs"
| "entries _ = []"

definition add_seen :: "ustring \<times> json \<Rightarrow> (ustring, rat) omap \<Rightarrow> (ustring, rat) omap" where
  "add_seen = (\<lambda>(k, v) m. case num_of v of Some n \<Rightarrow> omap_set k n m | None \<Rightarrow> m)"

definition parseReadState :: "stored option \<Rightarrow> ReadState" where
  "parseReadState raw = (case parse_or JNull raw of
     None \<Rightarrow> EMPTY_READ_STATE
   | Some p \<Rightarrow>
       \<lparr>readThrough = coalesce (Option.bind (field p ''readThrough'') num_of) 0,
        firstSeen = (case field p ''firstSeen'' of None \<Rightarrow> [] | Some o' \<Rightarrow> fold add_seen (entries o') [])\<rparr>)"

definition serializeReadState :: "ReadState \<Rightarrow> json" where
  "serializeReadState s = JObj [(ascii ''readThrough'', JNum (readThrough s)),
     (ascii ''firstSeen'', JObj (map (\<lambda>(k, t). (k, JNum t)) (firstSeen s)))]"

fun stamp :: "rat \<Rightarrow> ustring list \<Rightarrow> (ustring, rat) omap \<Rightarrow> (ustring, rat) omap" where
  "stamp now [] m = m"
| "stamp now (i # ids) m = stamp now ids (if map_of m i = None then omap_set i now m else m)"

definition seen_at :: "(ustring, rat) omap \<Rightarrow> ustring \<Rightarrow> rat" where
  "seen_at m k = the (map_of m k)"

definition oldestFirst :: "(ustring, rat) omap \<Rightarrow> ustring \<Rightarrow> ustring \<Rightarrow> rat" where
  "oldestFirst m a b = seen_at m a - seen_at m b"

definition to_drop :: "rat \<Rightarrow> (ustring, rat) omap \<Rightarrow> nat \<Rightarrow> ustring list" where
  "to_drop through m over =
     (let unread = js_sort (oldestFirst m) (filter (\<lambda>k. seen_at m k > through) (map fst m));
          drop1 = take over unread
      in if length drop1 < over
         then drop1 @ take (over - length drop1)
                (js_sort (oldestFirst m) (filter (\<lambda>k. seen_at m k \<le> through) (map fst m)))
         else drop1)"

text \<open>\<^const>\<open>None\<close>: the same reference is returned, nothing was new.\<close>

definition withSeen :: "ReadState \<Rightarrow> ustring list \<Rightarrow> rat \<Rightarrow> ReadState option" where
  "withSeen s ids now =
     (if list_all (\<lambda>i. map_of (firstSeen s) i \<noteq> None) ids then None
      else let m = stamp now ids (firstSeen s);
               over = length m - MAX_TRACKED
           in Some (s\<lparr>firstSeen :=
                if 0 < over then fold omap_del (to_drop (readThrough s) m over) m else m\<rparr>))"

definition withAllRead :: "ReadState \<Rightarrow> rat \<Rightarrow> ReadState option" where
  "withAllRead s now = (if now \<le> readThrough s then None else Some (s\<lparr>readThrough := now\<rparr>))"

definition countUnread :: "ReadState \<Rightarrow> nat" where
  "countUnread s = length (filter (\<lambda>(_, t). readThrough s < t) (firstSeen s))"

definition isUnread :: "ReadState \<Rightarrow> ustring \<Rightarrow> bool" where
  "isUnread s k = (case map_of (firstSeen s) k of None \<Rightarrow> False | Some t \<Rightarrow> readThrough s < t)"

section \<open>The store of a viewer\<close>

definition read_opts :: "ustring \<Rightarrow> ReadState store_opts" where
  "read_opts who = \<lparr>skey = ascii ''cg-notif-read:'' @ who, sempty = EMPTY_READ_STATE, sparse = (\<lambda>raw. Some (parseReadState raw)),
     sserialize = serializeReadState, scrossTab = True\<rparr>"

type_synonym readers = "browser \<times> (ustring, ReadState live) omap"

definition reader_for :: "ustring \<Rightarrow> readers \<Rightarrow> readers \<times> ReadState live" where
  "reader_for who = (\<lambda>(b, m). case map_of m who of
     Some s \<Rightarrow> ((b, m), s)
   | None \<Rightarrow> let s = createPersistentStore (read_opts who) b in ((b, omap_set who s m), s))"

definition commit_reader :: "ustring \<Rightarrow> ReadState \<Rightarrow> readers \<times> ReadState live \<Rightarrow> readers" where
  "commit_reader who v = (\<lambda>((b, m), s). let ((b', s'), _) = commit (read_opts who) v (b, s) in (b', omap_set who s' m))"

definition recordSeen :: "ustring \<Rightarrow> ustring list \<Rightarrow> rat \<Rightarrow> readers \<Rightarrow> readers" where
  "recordSeen who ids now p =
     (if ids = [] then p
      else let (p, s) = reader_for who p
           in case withSeen (cache s) ids now of None \<Rightarrow> p | Some v \<Rightarrow> commit_reader who v (p, s))"

definition markAllRead :: "ustring \<Rightarrow> rat \<Rightarrow> readers \<Rightarrow> readers" where
  "markAllRead who now p =
     (let (p, s) = reader_for who p
      in case withAllRead (cache s) now of None \<Rightarrow> p | Some v \<Rightarrow> commit_reader who v (p, s))"

definition useNotificationReadState :: "ustring option \<Rightarrow> readers \<Rightarrow> readers \<times> ReadState" where
  "useNotificationReadState who p = (case who of None \<Rightarrow> (p, EMPTY_READ_STATE)
     | Some w \<Rightarrow> let (p, s) = reader_for w p in (p, cache s))"

definition read_valid :: "ReadState \<Rightarrow> bool" where
  "read_valid s \<longleftrightarrow> omap_ok (firstSeen s)"

lemma add_seen_ok: "omap_ok m \<Longrightarrow> omap_ok (fold add_seen es m)"
  by (induction es arbitrary: m) (auto simp: add_seen_def split: option.splits prod.splits)

lemma add_seen_reads_back:
  "omap_ok (out @ m) \<Longrightarrow> fold add_seen (map (\<lambda>(k, t). (k, JNum t)) m) out = out @ m"
proof (induction m arbitrary: out)
  case (Cons e m)
  obtain k t where e: "e = (k, t)" by (cases e)
  have "k \<notin> fst ` set out" using Cons.prems by (auto simp: e omap_ok_def)
  then have "add_seen (k, JNum t) out = out @ [e]" by (simp add: e add_seen_def omap_set_new)
  with Cons.IH [of "out @ [e]"] Cons.prems show ?case by (simp add: e)
qed simp

lemma read_state_reads_back:
  "read_valid s \<Longrightarrow> parseReadState (Some (Json (serializeReadState s))) = s"
proof -
  assume v: "read_valid s"
  have k: "ascii ''firstSeen'' \<noteq> ascii ''readThrough''" by (simp add: ascii_def)
  have "fold add_seen (map (\<lambda>(k, t). (k, JNum t)) (firstSeen s)) [] = firstSeen s"
    using add_seen_reads_back [of "[]"] v by (simp add: read_valid_def)
  with k show ?thesis by (simp add: parseReadState_def serializeReadState_def)
qed

interpretation read_codec: codec "\<lambda>raw. Some (parseReadState raw)" serializeReadState read_valid EMPTY_READ_STATE
proof
  show "read_valid EMPTY_READ_STATE" by (simp add: read_valid_def EMPTY_READ_STATE_def)
  fix raw v
  assume "Some (parseReadState raw) = Some v"
  then show "read_valid v"
    by (auto simp: parseReadState_def read_valid_def EMPTY_READ_STATE_def add_seen_ok split: option.splits)
next
  fix v
  assume "read_valid v"
  then show "\<exists>w. Some (parseReadState (Some (Json (serializeReadState v)))) = Some w \<and> serializeReadState w = serializeReadState v"
    by (simp add: read_state_reads_back)
qed

section \<open>Eviction\<close>

lemma stamp_map:
  "map_of (stamp now ids m) k = (case map_of m k of Some t \<Rightarrow> Some t | None \<Rightarrow> if k \<in> set ids then Some now else None)"
  by (induction now ids m rule: stamp.induct) (auto split: option.splits)

lemma stamp_facts:
  assumes "omap_ok m"
  shows "omap_ok (stamp now ids m)" and "map_of m k = Some t \<Longrightarrow> map_of (stamp now ids m) k = Some t"
    and "map_of m k = None \<Longrightarrow> map_of (stamp now ids m) k = (if k \<in> set ids then Some now else None)"
proof -
  show "omap_ok (stamp now ids m)" using assms by (induction now ids m rule: stamp.induct) simp_all
qed (simp_all add: stamp_map)

lemma length_filter_new:
  assumes "omap_ok m" "now > through"
  shows "length (stamp now ids m) \<le> length m + length (filter (\<lambda>k. seen_at (stamp now ids m) k > through) (map fst (stamp now ids m)))"
proof -
  let ?m = "stamp now ids m"
  have ok: "omap_ok ?m" by (rule stamp_facts(1) [OF assms(1)])
  let ?new = "filter (\<lambda>k. map_of m k = None) (map fst ?m)"
  have "length (filter (\<lambda>k. map_of m k \<noteq> None) (map fst ?m)) \<le> length m"
  proof -
    have d: "distinct (filter (\<lambda>k. map_of m k \<noteq> None) (map fst ?m))" using ok by (simp add: omap_ok_def)
    have "set (filter (\<lambda>k. map_of m k \<noteq> None) (map fst ?m)) \<subseteq> fst ` set m"
      by (auto simp: map_of_eq_None_iff)
    from card_mono [OF _ this] distinct_card [OF d] have "length (filter (\<lambda>k. map_of m k \<noteq> None) (map fst ?m)) \<le> card (fst ` set m)"
      by simp
    also have "\<dots> \<le> length m" using card_length [of "map fst m"] by simp
    finally show ?thesis .
  qed
  moreover have "length ?new \<le> length (filter (\<lambda>k. seen_at ?m k > through) (map fst ?m))"
  proof -
    have "seen_at ?m k > through" if "k \<in> set (map fst ?m)" "map_of m k = None" for k
    proof -
      have "map_of ?m k \<noteq> None" using that(1) by (simp add: map_of_eq_None_iff)
      then have "map_of ?m k = Some now" using stamp_facts(3) [OF assms(1) that(2), of now ids] by (auto split: if_splits)
      then show ?thesis using assms(2) by (simp add: seen_at_def)
    qed
    then have "?new = filter (\<lambda>k. map_of m k = None) (filter (\<lambda>k. seen_at ?m k > through) (map fst ?m))"
      unfolding filter_filter by (intro filter_cong) auto
    then show ?thesis by (metis length_filter_le)
  qed
  moreover have "length (map fst ?m) = length (filter (\<lambda>k. map_of m k \<noteq> None) (map fst ?m)) + length ?new"
    using sum_length_filter_compl [of "\<lambda>k. map_of m k \<noteq> None" "map fst ?m"] by simp
  ultimately show ?thesis by simp
qed

lemma map_of_fold_del: "map_of (fold omap_del ks m) k = (if k \<in> set ks then None else map_of m k)"
  by (induction ks arbitrary: m) auto

lemma omap_ok_fold_del: "omap_ok m \<Longrightarrow> omap_ok (fold omap_del ks m)"
  by (induction ks arbitrary: m) auto

lemma length_del_present: "omap_ok m \<Longrightarrow> k \<in> fst ` set m \<Longrightarrow> length (omap_del k m) = length m - 1"
proof -
  assume ok: "omap_ok m" and k: "k \<in> fst ` set m"
  have "map fst (omap_del k m) = removeAll k (map fst m)"
    by (induction m) (auto simp: omap_del_def)
  also have "\<dots> = remove1 k (map fst m)" using ok by (simp add: omap_ok_def distinct_remove1_removeAll)
  finally have "length (map fst (omap_del k m)) = length (remove1 k (map fst m))" by simp
  then show ?thesis using k by (simp add: length_remove1)
qed

lemma length_fold_del:
  "omap_ok m \<Longrightarrow> distinct ks \<Longrightarrow> set ks \<subseteq> fst ` set m \<Longrightarrow> length (fold omap_del ks m) = length m - length ks"
proof (induction ks arbitrary: m)
  case (Cons k ks)
  have "set ks \<subseteq> fst ` set (omap_del k m)"
    using Cons.prems(2,3) by (force simp: omap_del_def)
  then show ?case using Cons length_del_present [of m k] by simp
qed simp

lemma unread_dropped_only:
  assumes "omap_ok m" "over \<le> length (filter (\<lambda>k. seen_at m k > through) (map fst m))"
  shows "set (to_drop through m over) \<subseteq> {k \<in> fst ` set m. seen_at m k > through}"
    and "distinct (to_drop through m over)" and "length (to_drop through m over) = over"
proof -
  let ?u = "filter (\<lambda>k. seen_at m k > through) (map fst m)"
  have d: "to_drop through m over = take over (js_sort (oldestFirst m) ?u)"
    using assms(2) by (simp add: to_drop_def Let_def)
  show "set (to_drop through m over) \<subseteq> {k \<in> fst ` set m. seen_at m k > through}"
    unfolding d by (auto dest!: in_set_takeD)
  show "distinct (to_drop through m over)" unfolding d using assms(1) by (simp add: omap_ok_def)
  show "length (to_drop through m over) = over" unfolding d using assms(2) by simp
qed

text \<open>What a stamp does to the record: bounded, and nothing that was read is forgotten or changed.\<close>

lemma withSeen_keeps:
  assumes ok: "omap_ok (firstSeen s)" and bound: "length (firstSeen s) \<le> MAX_TRACKED" and now: "readThrough s < now"
    and w: "withSeen s ids now = Some s'"
  shows "omap_ok (firstSeen s')" and "length (firstSeen s') \<le> MAX_TRACKED" and "readThrough s' = readThrough s"
    and "map_of (firstSeen s) k = Some t \<Longrightarrow> t \<le> readThrough s \<Longrightarrow> map_of (firstSeen s') k = Some t"
proof -
  define m where "m = stamp now ids (firstSeen s)"
  define over where "over = length m - MAX_TRACKED"
  define ks where "ks = to_drop (readThrough s) m over"
  have s': "s' = s\<lparr>firstSeen := if 0 < over then fold omap_del ks m else m\<rparr>"
    using w unfolding withSeen_def by (simp add: Let_def m_def over_def ks_def split: if_splits)
  have m: "omap_ok m" unfolding m_def by (rule stamp_facts(1) [OF ok])
  have "over \<le> length (filter (\<lambda>k. seen_at m k > readThrough s) (map fst m))"
    using length_filter_new [OF ok now, of ids] bound by (simp add: m_def over_def)
  note ks = unread_dropped_only [OF m this, folded ks_def]
  show "omap_ok (firstSeen s')" using m omap_ok_fold_del [OF m, of ks] by (simp add: s')
  show "readThrough s' = readThrough s" by (simp add: s')
  have "length (fold omap_del ks m) = length m - over"
    using length_fold_del [OF m ks(2)] ks(1,3) by auto
  then show "length (firstSeen s') \<le> MAX_TRACKED" by (simp add: s' over_def)
  show "map_of (firstSeen s') k = Some t" if "map_of (firstSeen s) k = Some t" "t \<le> readThrough s"
  proof -
    have k: "map_of m k = Some t" unfolding m_def by (rule stamp_facts(2) [OF ok that(1)])
    then have "k \<notin> set ks" using ks(1) that(2) by (auto simp: seen_at_def)
    with k show ?thesis by (simp add: s' map_of_fold_del)
  qed
qed

section \<open>A read item stays read\<close>

datatype read_event = See "ustring list" | Read

fun read_step :: "rat \<times> read_event \<Rightarrow> ReadState \<Rightarrow> ReadState" where
  "read_step (now, See ids) s = coalesce (withSeen s ids now) s"
| "read_step (now, Read) s = coalesce (withAllRead s now) s"

definition read_ok :: "ReadState \<Rightarrow> bool" where
  "read_ok s \<longleftrightarrow> omap_ok (firstSeen s) \<and> length (firstSeen s) \<le> MAX_TRACKED"

definition is_read :: "ReadState \<Rightarrow> ustring \<Rightarrow> bool" where
  "is_read s k \<longleftrightarrow> (\<exists>t. map_of (firstSeen s) k = Some t \<and> t \<le> readThrough s)"

lemma read_step_keeps:
  assumes "read_ok s" "readThrough s < now" "is_read s k"
  shows "read_ok (read_step (now, ev) s) \<and> is_read (read_step (now, ev) s) k \<and> readThrough (read_step (now, ev) s) \<le> now"
proof (cases ev)
  case (See ids)
  show ?thesis
  proof (cases "withSeen s ids now")
    case (Some s')
    have ok: "omap_ok (firstSeen s)" "length (firstSeen s) \<le> MAX_TRACKED" using assms(1) by (simp_all add: read_ok_def)
    note f = withSeen_keeps [OF ok assms(2) Some]
    obtain t where "map_of (firstSeen s) k = Some t" "t \<le> readThrough s" using assms(3) by (auto simp: is_read_def)
    with f(1-3) f(4) [of k t] assms(2) show ?thesis by (auto simp: See Some read_ok_def is_read_def)
  qed (use assms in \<open>simp add: See\<close>)
next
  case Read
  with assms show ?thesis by (auto simp: withAllRead_def read_ok_def is_read_def)
qed

text \<open>
  C24: a notification that was read never comes back as unread.  Over any sequence of folds that record what
  they saw and of "mark all read", each later than the one before and than the last read, an item that is read
  stays tracked and read, while the record stays within \<open>MAX_TRACKED\<close> entries whatever number of new items
  arrives.
\<close>

theorem read_item_stays_read:
  assumes "read_ok s" and "is_read s k" and "sorted_wrt (<) (readThrough s # map fst evs)"
  shows "is_read (fold read_step evs s) k \<and> \<not> isUnread (fold read_step evs s) k \<and>
    length (firstSeen (fold read_step evs s)) \<le> MAX_TRACKED"
proof -
  have "read_ok (fold read_step evs s) \<and> is_read (fold read_step evs s) k"
    using assms
  proof (induction evs arbitrary: s)
    case (Cons e evs)
    obtain now ev where e: "e = (now, ev)" by (cases e)
    have st: "read_ok (read_step e s)" "is_read (read_step e s) k" "readThrough (read_step e s) \<le> now"
      using read_step_keeps [OF Cons.prems(1) _ Cons.prems(2), of now ev] Cons.prems(3) by (simp_all add: e)
    have "sorted_wrt (<) (readThrough (read_step e s) # map fst evs)"
      using Cons.prems(3) st(3) by (auto simp: e)
    with Cons.IH [OF st(1,2)] show ?case by simp
  qed simp
  then show ?thesis by (auto simp: is_read_def isUnread_def read_ok_def)
qed

theorem read_item_stays_read_witness:
  "let s = \<lparr>readThrough = 5, firstSeen = [([1], 3), ([2], 9)]\<rparr>
   in \<not> isUnread (fold read_step [(10, See [[1], [3]]), (11, Read), (12, See [[1], [4]])] s) [1]"
proof -
  let ?s = "\<lparr>readThrough = 5, firstSeen = [([1], 3), ([2], 9)]\<rparr> :: ReadState"
  have "read_ok ?s" "is_read ?s [1]" by (simp_all add: read_ok_def is_read_def omap_ok_def MAX_TRACKED_def)
  from read_item_stays_read [OF this, of "[(10, See [[1], [3]]), (11, Read), (12, See [[1], [4]])]"]
  show ?thesis by simp
qed

end
