(* ===== verification/Chain_Errors.thy ===== *)
theory Chain_Errors
  imports Pallet_Microblog
begin

text \<open>
  Chain failures, \<open>app/src/lib/chain/errors.ts\<close>: the classification of a dispatch error and of a thrown value,
  and the one function that words them.  A decoded error value is a tagged value or an opaque one; what
  \<open>JSON.stringify\<close> makes of it is the argument \<open>stringify\<close>, \<^const>\<open>None\<close> when it throws or has no text.
  A thrown value that is neither an error object nor a text carries its JSON text and its \<open>String\<close> text.
\<close>

datatype chain_value = Tagged string chain_value | Opaque string

datatype thrown = ErrorObject string | ThrownText string | ThrownOther "string option" string

record raw_dispatch_error =
  de_type :: string
  de_value :: chain_value

datatype chain_error = RateLimit | Module string string | Raw string

definition MODULE_COPY :: "(string \<times> string) list" where
  "MODULE_COPY = [
     (''Microblog::TooLong'', ''That post is too long.''),
     (''Microblog::NotFound'', ''That post no longer exists.''),
     (''Microblog::NotAllowed'', ''You need a linked Cardano identity to do that.''),
     (''Microblog::NotVoted'', ''You haven'' @ [CHR 0x27] @ ''t voted on that.''),
     (''Microblog::SelfFollow'', ''You can'' @ [CHR 0x27] @ ''t follow yourself.''),
     (''Microblog::AlreadyFollowing'', ''You already follow them.''),
     (''Microblog::NotFollowing'', ''You don'' @ [CHR 0x27] @ ''t follow them.''),
     (''Microblog::NotEnoughOptions'', ''A poll needs at least two options.''),
     (''Microblog::TooManyOptions'', ''That poll has too many options.''),
     (''Microblog::OptionTooLong'', ''One of those poll options is too long.''),
     (''Microblog::PollNotFound'', ''That poll no longer exists.''),
     (''Microblog::InvalidOption'', ''That isn'' @ [CHR 0x27] @ ''t one of the poll'' @ [CHR 0x27] @ ''s options.''),
     (''Microblog::PollCloseRequired'', ''Polls need an end date.''),
     (''Microblog::PollDurationTooShort'', ''That poll would end too soon. Give it more time.''),
     (''Microblog::PollDurationTooLong'', ''That poll would run too long. Pick an earlier end date.''),
     (''Microblog::SelfAccountVote'', ''You can'' @ [CHR 0x27] @ ''t vote on your own account.''),
     (''Microblog::TargetNotAllowed'', ''That account doesn'' @ [CHR 0x27] @ ''t have a linked identity.''),
     (''Profile::NotAllowed'', ''You need a linked Cardano identity to edit your profile.''),
     (''Profile::NameTooLong'', ''That display name is too long.''),
     (''Profile::BioTooLong'', ''That bio is too long.''),
     (''Profile::AvatarTooLong'', ''That avatar URL is too long.''),
     (''Profile::BannerTooLong'', ''That banner URL is too long.''),
     (''Profile::LocationTooLong'', ''That location is too long.''),
     (''Profile::WebsiteTooLong'', ''That website URL is too long.''),
     (''Profile::NoProfile'', ''You don'' @ [CHR 0x27] @ ''t have a profile to clear.''),
     (''Profile::NotPinned'', ''You don'' @ [CHR 0x27] @ ''t have a pinned post.''),
     (''CognoGate::AccountAlreadyBound'', ''This account is already linked to a Cardano identity.''),
     (''CognoGate::PkhAlreadyBound'', ''That Cardano identity is already linked to another account.''),
     (''CognoGate::ProofInvalid'', ''That signature didn'' @ [CHR 0x27] @ ''t verify. Try signing again.''),
     (''CognoGate::WrongGenesis'', ''That signature was made for a different chain.''),
     (''CognoGate::IdentityTombstoned'', ''That Cardano identity has been revoked.''),
     (''CognoGate::NotPaymentBound'', ''Register your account first.''),
     (''CognoGate::AccountAlreadyStakeBound'', ''Your stake key is already linked.''),
     (''CognoGate::StakeCredAlreadyBound'', ''That stake key is already linked to another account.''),
     (''CognoGate::StakeCredTombstoned'', ''That stake key has been revoked.''),
     (''System::CallFiltered'', ''That action is paused right now. Try again later.'')
   ]"

definition safeJson :: "(chain_value \<Rightarrow> string option) \<Rightarrow> chain_value \<Rightarrow> string" where
  "safeJson stringify v = coalesce (stringify v) []"

definition TX_FAILED :: string where "TX_FAILED = ''Transaction failed.''"

definition classifyDispatchError :: "(chain_value \<Rightarrow> string option) \<Rightarrow> raw_dispatch_error option \<Rightarrow> chain_error" where
  "classifyDispatchError stringify err = (case err of
     None \<Rightarrow> Raw ''Transaction failed. Try again.''
   | Some e \<Rightarrow>
       let rest = (let detail = safeJson stringify (de_value e)
                   in Raw (if detail \<noteq> [] \<and> detail \<noteq> ''{}'' \<and> detail \<noteq> ''null''
                           then de_type e @ '': '' @ detail else de_type e))
       in if de_type e = ''Module''
          then (case de_value e of Tagged pallet (Tagged name _) \<Rightarrow> Module pallet name | _ \<Rightarrow> rest)
          else rest)"

text \<open>A test of a pattern of ASCII letters with the \<open>i\<close> flag.\<close>

definition lower_char :: "char \<Rightarrow> char" where
  "lower_char c = (if 65 \<le> (of_char c :: nat) \<and> (of_char c :: nat) \<le> 90 then char_of (of_char c + 32 :: nat) else c)"

definition includes_ci :: "string \<Rightarrow> string \<Rightarrow> bool" where
  "includes_ci pat s = sublist (map lower_char pat) (map lower_char s)"

definition classifyThrown :: "thrown \<Rightarrow> chain_error" where
  "classifyThrown err =
     (let msg = (case err of
          ErrorObject m \<Rightarrow> m
        | ThrownText t \<Rightarrow> t
        | ThrownOther j s \<Rightarrow> (if coalesce j [] \<noteq> [] then coalesce j [] else s))
      in if includes_ci ''ExhaustsResources'' msg then RateLimit
         else Raw (if msg \<noteq> [] then msg else TX_FAILED))"

fun errorCopy :: "chain_error \<Rightarrow> string" where
  "errorCopy RateLimit = ''Your posting power is still charging. Try again shortly.''"
| "errorCopy (Module pallet name) =
     coalesce (map_of MODULE_COPY (pallet @ ''::'' @ name)) (pallet @ '': '' @ name)"
| "errorCopy (Raw detail) = (if detail \<noteq> [] then detail else TX_FAILED)"

definition UNREACHABLE :: "string list" where
  "UNREACHABLE = [''disconnect'', ''websocket'', ''socket'', ''network'', ''connection'', ''closed'', ''abort'',
     ''timeout'', ''timedout'', ''time out'', ''timed out'', ''failed to fetch'', ''ECONNREFUSED'']"

definition readErrorCopy :: "thrown \<Rightarrow> string \<Rightarrow> string" where
  "readErrorCopy err fallback =
     (let msg = (case err of ErrorObject m \<Rightarrow> m | ThrownText t \<Rightarrow> t | ThrownOther _ _ \<Rightarrow> [])
      in if msg = [] then fallback
         else if list_ex (\<lambda>p. includes_ci p msg) UNREACHABLE
           then ''Can'' @ [CHR 0x27] @ ''t reach cogno. Check your connection and try again.''
         else errorCopy (classifyThrown err))"

section \<open>The errors of the microblog pallet\<close>

fun error_name :: "dispatch_error \<Rightarrow> string" where
  "error_name NotAllowed = ''NotAllowed''"
| "error_name TooLong = ''TooLong''"
| "error_name NotFound = ''NotFound''"
| "error_name NotVoted = ''NotVoted''"
| "error_name SelfAccountVote = ''SelfAccountVote''"
| "error_name TargetNotAllowed = ''TargetNotAllowed''"
| "error_name SelfFollow = ''SelfFollow''"
| "error_name AlreadyFollowing = ''AlreadyFollowing''"
| "error_name NotFollowing = ''NotFollowing''"
| "error_name PollCloseRequired = ''PollCloseRequired''"
| "error_name PollDurationTooShort = ''PollDurationTooShort''"
| "error_name PollDurationTooLong = ''PollDurationTooLong''"
| "error_name NotEnoughOptions = ''NotEnoughOptions''"
| "error_name OptionTooLong = ''OptionTooLong''"
| "error_name TooManyOptions = ''TooManyOptions''"
| "error_name GovActionRequiresChamber = ''GovActionRequiresChamber''"
| "error_name InvalidAnchor = ''InvalidAnchor''"
| "error_name PollNotFound = ''PollNotFound''"
| "error_name InvalidOption = ''InvalidOption''"
| "error_name PollClosed = ''PollClosed''"

text \<open>The error of the pallet as the client library decodes it.\<close>

definition decoded :: "dispatch_error \<Rightarrow> raw_dispatch_error" where
  "decoded e = \<lparr>de_type = ''Module'', de_value = Tagged ''Microblog'' (Tagged (error_name e) (Opaque []))\<rparr>"

lemma classify_decoded: "classifyDispatchError stringify (Some (decoded e)) = Module ''Microblog'' (error_name e)"
  by (simp add: classifyDispatchError_def decoded_def)

text \<open>Which rejections of the pallet's calls the table words; the others are shown as the raw pair of names.\<close>

lemma pallet_errors_worded:
  "map_of MODULE_COPY (''Microblog::'' @ error_name e) = None \<longleftrightarrow>
   e \<in> {PollClosed, GovActionRequiresChamber, InvalidAnchor}"
  by (cases e) (simp_all add: MODULE_COPY_def)

lemma closed_poll_shown_raw: "errorCopy (classifyDispatchError stringify (Some (decoded PollClosed))) = ''Microblog: PollClosed''"
  by (simp add: classify_decoded MODULE_COPY_def)

lemma errorCopy_nonempty: "errorCopy e \<noteq> []"
proof (cases e)
  case (Module pallet name)
  have "list_all (\<lambda>(k, v). v \<noteq> []) MODULE_COPY" by (simp add: MODULE_COPY_def)
  then have "map_of MODULE_COPY k = Some v \<Longrightarrow> v \<noteq> []" for k v
    using map_of_SomeD by (fastforce simp: list_all_iff)
  then show ?thesis by (cases "map_of MODULE_COPY (pallet @ ''::'' @ name)") (auto simp: Module)
qed (simp_all add: TX_FAILED_def)

end
