(* ===== verification/Writes.thy ===== *)
theory Writes
  imports Chain_Errors Unicode
begin

text \<open>
  The write path of the client: the nonces (\<open>app/src/lib/chain/nonce.ts\<close>), the phase stream of a submitted
  extrinsic (\<open>post.ts\<close>), the one extrinsic per user action (\<open>mutations.ts\<close>) and the adapter that reports its
  outcome (\<open>hooks/useMutation.ts\<close>).  The events of the client library's submission stream are inputs.  A
  promise that resolves later is a step of its own: the transition system \<open>write_step\<close> interleaves the writes
  of all accounts in any order.
\<close>

section \<open>nonce.ts\<close>

text \<open>The promise chain \<open>lock\<close> is the queue of the writes that wait for their turn.\<close>

record account_nonce =
  next_nonce :: "int option"
  inflight :: nat
  lock :: "nat list"

type_synonym accounts = "(string, account_nonce) omap"

definition fresh_account :: account_nonce where
  "fresh_account = \<lparr>next_nonce = None, inflight = 0, lock = []\<rparr>"

definition getState :: "accounts \<Rightarrow> string \<Rightarrow> account_nonce" where
  "getState accts ss58 = coalesce (map_of accts ss58) fresh_account"

definition enter_lock :: "string \<Rightarrow> nat \<Rightarrow> accounts \<Rightarrow> accounts" where
  "enter_lock ss58 w accts =
     (let s = getState accts ss58 in omap_set ss58 (s\<lparr>lock := lock s @ [w]\<rparr>) accts)"

text \<open>The critical section: \<open>acct\<close> is the nonce read at the best block, \<^const>\<open>None\<close> when the read failed.\<close>

definition takeNonce :: "string \<Rightarrow> int option \<Rightarrow> accounts \<Rightarrow> int \<times> accounts" where
  "takeNonce ss58 acct accts =
     (let s = getState accts ss58;
          chainNonce = coalesce acct 0;
          n = (case next_nonce s of Some k \<Rightarrow> max chainNonce k | None \<Rightarrow> chainNonce)
      in (n, omap_set ss58 (s\<lparr>next_nonce := Some (n + 1), inflight := Suc (inflight s), lock := tl (lock s)\<rparr>) accts))"

definition settleNonce :: "string \<Rightarrow> accounts \<Rightarrow> accounts" where
  "settleNonce ss58 accts = (case map_of accts ss58 of
     None \<Rightarrow> accts
   | Some s \<Rightarrow>
       let k = inflight s - 1
       in omap_set ss58 (s\<lparr>inflight := k, next_nonce := (if k = 0 then None else next_nonce s)\<rparr>) accts)"

section \<open>post.ts: the phase stream\<close>

datatype event_type = Signed | Broadcasted | TxBestBlocksState | EvFinalized

record chain_event =
  ce_pallet :: string
  ce_name :: string
  ce_id :: "int option"

record tx_watch_event =
  ev_type :: event_type
  ev_txHash :: "string option"
  ev_found :: bool
  ev_ok :: bool
  ev_block :: "int option"
  ev_events :: "chain_event list option"
  ev_dispatchError :: "raw_dispatch_error option"

datatype tx_phase = Signing | Broadcast | InBestBlock | Finalized | Invalid | Error

record tx_update =
  phase :: tx_phase
  blockNumber :: "int option"
  txHash :: "string option"
  postId :: "int option"
  uerror :: "chain_error option"
  finalized :: "bool option"

definition extractPostId :: "chain_event list option \<Rightarrow> string option \<Rightarrow> int option" where
  "extractPostId events eventName = (case (eventName, events) of
     (Some name, Some evs) \<Rightarrow>
       Option.bind (find (\<lambda>e. ce_pallet e = ''Microblog'' \<and> ce_name e = name \<and> ce_id e \<noteq> None) evs) ce_id
   | _ \<Rightarrow> None)"

definition bare_update :: "tx_phase \<Rightarrow> tx_update" where
  "bare_update ph = \<lparr>phase = ph, blockNumber = None, txHash = None, postId = None, uerror = None, finalized = None\<rparr>"

text \<open>What one event of the submission stream emits.\<close>

definition on_event :: "(chain_value \<Rightarrow> string option) \<Rightarrow> string option \<Rightarrow> int option \<Rightarrow> tx_watch_event \<Rightarrow> tx_update list" where
  "on_event stringify eventName fallbackId e =
     (let placed = (\<lambda>ph. (bare_update ph)\<lparr>blockNumber := ev_block e, txHash := ev_txHash e\<rparr>);
          pid = (case extractPostId (ev_events e) eventName of Some i \<Rightarrow> Some i | None \<Rightarrow> fallbackId);
          err = Some (classifyDispatchError stringify (ev_dispatchError e))
      in case ev_type e of
           Signed \<Rightarrow> [(bare_update Signing)\<lparr>txHash := ev_txHash e\<rparr>]
         | Broadcasted \<Rightarrow> [(bare_update Broadcast)\<lparr>txHash := ev_txHash e\<rparr>]
         | TxBestBlocksState \<Rightarrow>
             if \<not> ev_found e then []
             else if ev_ok e then [(placed InBestBlock)\<lparr>postId := pid\<rparr>]
             else [(placed Invalid)\<lparr>uerror := err\<rparr>]
         | EvFinalized \<Rightarrow>
             if ev_ok e then [(placed Finalized)\<lparr>postId := pid, finalized := Some True\<rparr>]
             else [(placed Error)\<lparr>uerror := err\<rparr>])"

text \<open>The stream's own error, or a throw while the extrinsic is built and signed: one update, then the end.\<close>

definition on_error :: "thrown \<Rightarrow> tx_update list" where
  "on_error err = [(bare_update Error)\<lparr>uerror := Some (classifyThrown err)\<rparr>]"

datatype stream_end = Completed | Failed thrown | Open

fun end_updates :: "stream_end \<Rightarrow> tx_update list" where
  "end_updates (Failed err) = on_error err"
| "end_updates _ = []"

definition watchTx ::
  "(chain_value \<Rightarrow> string option) \<Rightarrow> string option \<Rightarrow> int option \<Rightarrow> tx_watch_event list \<Rightarrow> stream_end \<Rightarrow> tx_update list" where
  "watchTx stringify eventName fallbackId evs fin = concat (map (on_event stringify eventName fallbackId) evs) @ end_updates fin"

definition releases :: "tx_phase \<Rightarrow> bool" where
  "releases ph \<longleftrightarrow> ph = InBestBlock \<or> ph = Invalid \<or> ph = Finalized \<or> ph = Error"

section \<open>post.ts: a write and its nonce\<close>

text \<open>The closure of one \<open>signSubmitWatch\<close>: its flags, the nonce it reserved, and whether its inner stream is on.\<close>

record tx_write =
  w_ss58 :: string
  reserved :: bool
  settled :: bool
  cancelled :: bool
  w_nonce :: int
  inner_on :: bool
  out :: "tx_update list"

record writing =
  accts :: accounts
  writes :: "tx_write list"

definition settle_slot :: "tx_write \<Rightarrow> accounts \<Rightarrow> tx_write \<times> accounts" where
  "settle_slot w a =
     (if settled w then (w, a)
      else (w\<lparr>settled := True\<rparr>, if reserved w then settleNonce (w_ss58 w) a else a))"

definition put :: "nat \<Rightarrow> tx_write \<times> accounts \<Rightarrow> writing \<Rightarrow> writing" where
  "put i wa st = st\<lparr>writes := (writes st)[i := fst wa], accts := snd wa\<rparr>"

text \<open>\<open>signSubmitWatch\<close> is subscribed to: it asks for a nonce and waits for its turn at the lock.\<close>

definition signSubmitWatch :: "string \<Rightarrow> writing \<Rightarrow> writing" where
  "signSubmitWatch ss58 st =
     st\<lparr>accts := enter_lock ss58 (length (writes st)) (accts st),
        writes := writes st @ [\<lparr>w_ss58 = ss58, reserved = False, settled = False, cancelled = False, w_nonce = 0,
                                inner_on = False, out = []\<rparr>]\<rparr>"

text \<open>\<open>takeNonce\<close> resolves for the write at the head of the lock.\<close>

definition on_nonce :: "nat \<Rightarrow> int option \<Rightarrow> writing \<Rightarrow> writing" where
  "on_nonce i acct st =
     (let w = writes st ! i; (n, a) = takeNonce (w_ss58 w) acct (accts st); w = w\<lparr>reserved := True, w_nonce := n\<rparr>
      in if cancelled w then put i (w, settleNonce (w_ss58 w) a) st
         else put i (w\<lparr>inner_on := True\<rparr>, a) st)"

text \<open>The phase stream of a write emits an update.\<close>

definition on_update :: "nat \<Rightarrow> tx_update \<Rightarrow> writing \<Rightarrow> writing" where
  "on_update i u st =
     (let w = (writes st ! i)\<lparr>out := out (writes st ! i) @ [u]\<rparr>
      in put i (if releases (phase u) then settle_slot w (accts st) else (w, accts st)) st)"

text \<open>The phase stream of a write ends.\<close>

definition on_complete :: "nat \<Rightarrow> writing \<Rightarrow> writing" where
  "on_complete i st = put i (settle_slot ((writes st ! i)\<lparr>inner_on := False\<rparr>) (accts st)) st"

text \<open>The subscriber leaves.\<close>

definition on_teardown :: "nat \<Rightarrow> writing \<Rightarrow> writing" where
  "on_teardown i st = put i (settle_slot ((writes st ! i)\<lparr>cancelled := True, inner_on := False\<rparr>) (accts st)) st"

definition waiting_first :: "nat \<Rightarrow> writing \<Rightarrow> bool" where
  "waiting_first i st \<longleftrightarrow> i < length (writes st) \<and>
     (case lock (getState (accts st) (w_ss58 (writes st ! i))) of j # _ \<Rightarrow> j = i | [] \<Rightarrow> False)"

inductive write_step :: "writing \<Rightarrow> writing \<Rightarrow> bool" where
  start: "write_step st (signSubmitWatch ss58 st)"
| nonce: "waiting_first i st \<Longrightarrow> write_step st (on_nonce i acct st)"
| emits: "i < length (writes st) \<Longrightarrow> inner_on (writes st ! i) \<Longrightarrow> write_step st (on_update i u st)"
| ends: "i < length (writes st) \<Longrightarrow> inner_on (writes st ! i) \<Longrightarrow> write_step st (on_complete i st)"
| leaves: "i < length (writes st) \<Longrightarrow> write_step st (on_teardown i st)"

definition no_writes :: writing where
  "no_writes = \<lparr>accts = [], writes = []\<rparr>"

inductive write_reachable :: "writing \<Rightarrow> bool" where
  reach_none: "write_reachable no_writes"
| reach_step: "write_reachable st \<Longrightarrow> write_step st st' \<Longrightarrow> write_reachable st'"

section \<open>useMutation.ts\<close>

text \<open>What \<open>run\<close> hands to its caller.\<close>

datatype callback = OnConfirm tx_update | OnError chain_error | OnCancel

record run_state =
  rsettled :: bool
  calls :: "callback list"
  resolved_promise :: bool
  entry_live :: bool

definition run_start :: run_state where
  "run_start = \<lparr>rsettled = False, calls = [], resolved_promise = False, entry_live = True\<rparr>"

definition settle_with :: "callback \<Rightarrow> run_state \<Rightarrow> run_state" where
  "settle_with cb r = (if rsettled r then r
     else r\<lparr>rsettled := True, calls := calls r @ [cb], resolved_promise := True\<rparr>)"

definition run_next :: "tx_update \<Rightarrow> run_state \<Rightarrow> run_state" where
  "run_next u r = (case phase u of
     InBestBlock \<Rightarrow> settle_with (OnConfirm u) r
   | Invalid \<Rightarrow> settle_with (OnError (coalesce (uerror u) (Raw TX_FAILED))) r
   | Error \<Rightarrow> settle_with (OnError (coalesce (uerror u) (Raw TX_FAILED))) r
   | _ \<Rightarrow> r)"

definition run_complete :: "run_state \<Rightarrow> run_state" where
  "run_complete r = r\<lparr>entry_live := False\<rparr>"

text \<open>The hook unmounts: the entries that are still live are cancelled.\<close>

definition run_unmount :: "run_state \<Rightarrow> run_state" where
  "run_unmount r = (if entry_live r then (settle_with OnCancel r)\<lparr>entry_live := False\<rparr> else r)"

datatype boot = BootPending | BootOk | BootRefused "string option"

text \<open>A run over the updates of a stream, which then completes or is still open.\<close>

definition mutation_run :: "boot \<Rightarrow> tx_update list \<Rightarrow> bool \<Rightarrow> run_state" where
  "mutation_run b us done' = (case b of
     BootRefused reason \<Rightarrow>
       \<lparr>rsettled = True, calls = [OnError (Raw (coalesce reason (''This app doesn'' @ [CHR 0x27] @ ''t match this network.'')))],
        resolved_promise = True, entry_live = False\<rparr>
   | _ \<Rightarrow> let r = fold run_next us run_start in if done' then run_complete r else r)"

section \<open>mutations.ts\<close>

datatype extrinsic = Microblog call | ClosePoll nat
  | SetProfile bytes bytes bytes bytes bytes bytes | ClearProfile | PinPost nat | UnpinPost

record submission =
  tx :: extrinsic
  event_name :: "string option"

definition watchSigned :: "extrinsic \<Rightarrow> string option \<Rightarrow> submission" where
  "watchSigned x name = \<lparr>tx = x, event_name = name\<rparr>"

definition submitPost :: "ustring \<Rightarrow> nat option \<Rightarrow> submission" where
  "submitPost txt parent = watchSigned (Microblog (PostMessage (fromText txt) parent)) (Some ''PostCreated'')"

definition submitReply :: "ustring \<Rightarrow> nat \<Rightarrow> submission" where
  "submitReply txt parentId = submitPost txt (Some parentId)"

definition submitQuote :: "ustring \<Rightarrow> nat \<Rightarrow> submission" where
  "submitQuote txt quotedId = watchSigned (Microblog (QuotePost (fromText txt) quotedId)) (Some ''PostCreated'')"

definition submitVote :: "nat \<Rightarrow> vote \<Rightarrow> submission" where
  "submitVote i dir = watchSigned (Microblog (Vote i dir)) None"

definition submitClearVote :: "nat \<Rightarrow> submission" where
  "submitClearVote i = watchSigned (Microblog (ClearVote i)) None"

definition submitFollow :: "ss58 \<Rightarrow> submission" where
  "submitFollow target = watchSigned (Microblog (Follow target)) None"

definition submitUnfollow :: "ss58 \<Rightarrow> submission" where
  "submitUnfollow target = watchSigned (Microblog (Unfollow target)) None"

definition submitVoteAccount :: "ss58 \<Rightarrow> vote \<Rightarrow> submission" where
  "submitVoteAccount target dir = watchSigned (Microblog (VoteAccount target dir)) None"

definition submitClearAccountVote :: "ss58 \<Rightarrow> submission" where
  "submitClearAccountVote target = watchSigned (Microblog (ClearAccountVote target)) None"

definition DEFAULT_POLL_CLOSE_DAYS :: int where "DEFAULT_POLL_CLOSE_DAYS = 1"
definition BLOCKS_PER_DAY :: int where "BLOCKS_PER_DAY = 86400 div 6"

text \<open>\<open>head\<close> is \<open>System.Number\<close>; the error is the exception the caller shows.\<close>

definition resolveCloseAt :: "config \<Rightarrow> int \<Rightarrow> int option \<Rightarrow> int option \<Rightarrow> string + int" where
  "resolveCloseAt T chain_head bestBlock closeInDays =
     (let days = (case closeInDays of Some d \<Rightarrow> if d = 0 then DEFAULT_POLL_CLOSE_DAYS else d | None \<Rightarrow> DEFAULT_POLL_CLOSE_DAYS);
          now = coalesce bestBlock chain_head
      in if now \<le> 0 then Inl (''Couldn'' @ [CHR 0x27] @ ''t read the chain height to set the poll deadline.'')
         else Inr (now + min (max (days * BLOCKS_PER_DAY) (int (MinPollDuration T) + 1)) (int (MaxPollDuration T))))"

definition submitCreatePoll ::
  "ustring \<Rightarrow> ustring list \<Rightarrow> nat option \<Rightarrow> poll_kind \<Rightarrow> gov_action option \<Rightarrow> submission" where
  "submitCreatePoll question options closeAt k act =
     watchSigned (Microblog (CreatePoll (fromText question) (map fromText options) closeAt k act)) (Some ''PostCreated'')"

definition submitPollVote :: "nat \<Rightarrow> nat \<Rightarrow> submission" where
  "submitPollVote hostId option = watchSigned (Microblog (CastPollVote hostId option)) None"

definition submitClosePoll :: "nat \<Rightarrow> submission" where
  "submitClosePoll hostId = watchSigned (ClosePoll hostId) None"

definition submitSetProfile :: "ustring \<Rightarrow> ustring \<Rightarrow> ustring \<Rightarrow> ustring \<Rightarrow> ustring \<Rightarrow> ustring \<Rightarrow> submission" where
  "submitSetProfile name bio avatar banner location website =
     watchSigned (SetProfile (fromText name) (fromText bio) (fromText avatar) (fromText banner) (fromText location)
       (fromText website)) None"

definition submitClearProfile :: submission where
  "submitClearProfile = watchSigned ClearProfile None"

definition submitPinPost :: "nat \<Rightarrow> submission" where
  "submitPinPost i = watchSigned (PinPost i) None"

definition submitUnpinPost :: submission where
  "submitUnpinPost = watchSigned UnpinPost None"

section \<open>Every slot is released once\<close>

text \<open>A write holds a slot of an account from the moment its nonce is reserved until it settles.\<close>

definition holds :: "string \<Rightarrow> tx_write \<Rightarrow> bool" where
  "holds a w \<longleftrightarrow> w_ss58 w = a \<and> reserved w \<and> \<not> settled w"

definition held :: "string \<Rightarrow> tx_write list \<Rightarrow> int list" where
  "held a ws = map w_nonce (filter (holds a) ws)"

lemma held_simps [simp]:
  "held a [] = []" "held a (w # ws) = (if holds a w then w_nonce w # held a ws else held a ws)"
  "held a (ws @ vs) = held a ws @ held a vs"
  by (simp_all add: held_def)

definition acct_inv :: "account_nonce \<Rightarrow> int list \<Rightarrow> bool" where
  "acct_inv s hs \<longleftrightarrow> inflight s = length hs \<and> (inflight s = 0 \<longleftrightarrow> next_nonce s = None) \<and>
     (\<forall>n \<in> set hs. \<forall>k. next_nonce s = Some k \<longrightarrow> n < k) \<and> distinct hs"

definition lock_inv :: "string \<Rightarrow> account_nonce \<Rightarrow> tx_write list \<Rightarrow> bool" where
  "lock_inv a s ws \<longleftrightarrow> distinct (lock s) \<and>
     (\<forall>i \<in> set (lock s). i < length ws \<and> w_ss58 (ws ! i) = a \<and> \<not> reserved (ws ! i))"

definition flags_ok :: "tx_write \<Rightarrow> bool" where
  "flags_ok w \<longleftrightarrow> (cancelled w \<longrightarrow> settled w) \<and> (settled w \<and> \<not> reserved w \<longrightarrow> cancelled w) \<and> (inner_on w \<longrightarrow> reserved w)"

definition write_inv :: "writing \<Rightarrow> bool" where
  "write_inv st \<longleftrightarrow> list_all flags_ok (writes st) \<and> (\<forall>a. acct_inv (getState (accts st) a) (held a (writes st)) \<and>
     lock_inv a (getState (accts st) a) (writes st))"

definition settled_state :: "account_nonce \<Rightarrow> account_nonce" where
  "settled_state s = s\<lparr>inflight := inflight s - 1, next_nonce := (if inflight s - 1 = 0 then None else next_nonce s)\<rparr>"

definition taken_nonce :: "int option \<Rightarrow> account_nonce \<Rightarrow> int" where
  "taken_nonce acct s = (case next_nonce s of Some k \<Rightarrow> max (coalesce acct 0) k | None \<Rightarrow> coalesce acct 0)"

definition taken_state :: "int option \<Rightarrow> account_nonce \<Rightarrow> account_nonce" where
  "taken_state acct s = s\<lparr>next_nonce := Some (taken_nonce acct s + 1), inflight := Suc (inflight s), lock := tl (lock s)\<rparr>"

lemma getState_set: "getState (omap_set k v m) a = (if a = k then v else getState m a)"
  by (simp add: getState_def)

lemma getState_settleNonce:
  "acct_inv (getState m k) hs \<Longrightarrow> getState (settleNonce k m) a = (if a = k then settled_state (getState m k) else getState m a)"
  by (auto simp: settleNonce_def getState_def settled_state_def fresh_account_def Let_def split: option.splits)

lemma lock_settleNonce [simp]: "lock (getState (settleNonce k m) a) = lock (getState m a)"
  by (simp add: settleNonce_def getState_def Let_def split: option.split)

lemma getState_takeNonce:
  "fst (takeNonce k acct m) = taken_nonce acct (getState m k)"
  "getState (snd (takeNonce k acct m)) a = (if a = k then taken_state acct (getState m k) else getState m a)"
  by (simp_all add: takeNonce_def taken_nonce_def taken_state_def getState_set Let_def)

lemma lock_states [simp]: "lock (settled_state s) = lock s" "lock (taken_state acct s) = tl (lock s)"
  by (simp_all add: settled_state_def taken_state_def)

lemma acct_inv_settled: "acct_inv s (l @ n # r) \<Longrightarrow> acct_inv (settled_state s) (l @ r)"
  by (auto simp: acct_inv_def settled_state_def)

lemma acct_inv_taken: "acct_inv s (l @ r) \<Longrightarrow> acct_inv (taken_state acct s) (l @ taken_nonce acct s # r)"
proof -
  assume inv: "acct_inv s (l @ r)"
  have less: "n < taken_nonce acct s" if "n \<in> set (l @ r)" for n
  proof -
    have "l @ r \<noteq> []" using that by auto
    then obtain k where k: "next_nonce s = Some k" using inv by (auto simp: acct_inv_def)
    then have "n < k" using inv that by (simp add: acct_inv_def)
    then show ?thesis using k by (simp add: taken_nonce_def)
  qed
  show ?thesis using inv less by (fastforce simp: acct_inv_def taken_state_def)
qed

lemma list_all_update: "list_all P ws \<Longrightarrow> P w \<Longrightarrow> list_all P (ws[i := w])"
  using set_update_subset_insert [of ws i w] by (auto simp: list_all_iff)

lemma replace_split:
  assumes "i < length ws"
  obtains l r where "ws = l @ ws ! i # r" "\<And>w. ws[i := w] = l @ w # r"
  by (rule that [OF id_take_nth_drop [OF assms] upd_conv_take_nth_drop [OF assms]])

lemma lock_inv_same:
  "lock_inv a s ws \<Longrightarrow> i < length ws \<Longrightarrow> lock s' = lock s \<Longrightarrow> w_ss58 w = w_ss58 (ws ! i) \<Longrightarrow> reserved w = reserved (ws ! i) \<Longrightarrow>
   lock_inv a s' (ws[i := w])"
  by (auto simp: lock_inv_def nth_list_update)

lemma lock_inv_taken:
  assumes "lock_inv a s ws" "lock s = i # q" "lock s' = q"
  shows "lock_inv a s' (ws[i := w])"
proof -
  have "ws[i := w] ! j = ws ! j" if "j \<in> set q" for j
  proof -
    have "j \<noteq> i" using assms that by (auto simp: lock_inv_def)
    then show ?thesis by simp
  qed
  then show ?thesis using assms by (simp add: lock_inv_def)
qed

lemma lock_inv_other:
  assumes "lock_inv a s ws" "i \<notin> set (lock s)" "lock s' = lock s"
  shows "lock_inv a s' (ws[i := w])"
proof -
  have "ws[i := w] ! j = ws ! j" if "j \<in> set (lock s)" for j using assms(2) that by (metis nth_list_update_neq)
  then show ?thesis using assms(1,3) by (simp add: lock_inv_def)
qed

text \<open>A step that changes neither the slot nor the account.\<close>

lemma write_inv_keep:
  assumes inv: "write_inv st" and i: "i < length (writes st)"
    and same: "w_ss58 w = w_ss58 (writes st ! i)" "reserved w = reserved (writes st ! i)" "w_nonce w = w_nonce (writes st ! i)"
    and s: "settled w = settled (writes st ! i) \<or> \<not> reserved (writes st ! i)" and f: "flags_ok w"
  shows "write_inv (put i (w, accts st) st)"
proof -
  obtain l r where ws: "writes st = l @ writes st ! i # r" and upd: "(writes st)[i := w] = l @ w # r"
    using replace_split [OF i] by metis
  have "held a ((writes st)[i := w]) = held a (writes st)" for a
  proof -
    have "holds a w = holds a (writes st ! i)" using same s by (auto simp: holds_def)
    then show ?thesis using same(3) by (subst (2) ws) (simp add: upd)
  qed
  moreover have "lock_inv a (getState (accts st) a) ((writes st)[i := w])" for a
    by (rule lock_inv_same [of a "getState (accts st) a"]) (use inv i same in \<open>auto simp: write_inv_def\<close>)
  ultimately show ?thesis using inv f by (simp add: write_inv_def put_def list_all_update)
qed

lemma write_inv_settle:
  assumes inv: "write_inv st" and i: "i < length (writes st)"
    and same: "w_ss58 w = w_ss58 (writes st ! i)" "reserved w = reserved (writes st ! i)" "w_nonce w = w_nonce (writes st ! i)"
      "settled w = settled (writes st ! i)" and f: "flags_ok (w\<lparr>settled := True\<rparr>)"
  shows "write_inv (put i (settle_slot w (accts st)) st)"
proof (cases "settled w \<or> \<not> reserved w")
  case True
  then have "settle_slot w (accts st) = (w\<lparr>settled := True\<rparr>, accts st)" by (auto simp: settle_slot_def)
  moreover have "write_inv (put i (w\<lparr>settled := True\<rparr>, accts st) st)"
    by (rule write_inv_keep [OF inv i]) (use same f True in auto)
  ultimately show ?thesis by simp
next
  case False
  let ?k = "w_ss58 w"
  let ?w = "w\<lparr>settled := True\<rparr>"
  obtain l r where ws: "writes st = l @ writes st ! i # r" and upd: "(writes st)[i := ?w] = l @ ?w # r"
    using replace_split [OF i] by metis
  have h: "holds a (writes st ! i) \<longleftrightarrow> a = ?k" "\<not> holds a ?w" for a
    using False same by (auto simp: holds_def)
  have "acct_inv (getState (accts st) ?k) (held ?k (writes st))" using inv by (simp add: write_inv_def)
  then have own: "acct_inv (getState (accts st) ?k) (held ?k l @ w_nonce w # held ?k r)"
    by (subst (asm) ws) (simp add: h same(3))
  have "acct_inv (getState (settleNonce ?k (accts st)) a) (held a ((writes st)[i := ?w]))" for a
  proof (cases "a = ?k")
    case True
    then show ?thesis using acct_inv_settled [OF own] by (simp add: getState_settleNonce [OF own] upd h)
  next
    case no: False
    have "acct_inv (getState (accts st) a) (held a (writes st))" using inv by (simp add: write_inv_def)
    then have "acct_inv (getState (accts st) a) (held a l @ held a r)" by (subst (asm) ws) (simp add: h no)
    then show ?thesis using no by (simp add: getState_settleNonce [OF own] upd h)
  qed
  moreover have "lock_inv a (getState (settleNonce ?k (accts st)) a) ((writes st)[i := ?w])" for a
    by (rule lock_inv_same [of a "getState (accts st) a"])
      (use inv i same in \<open>simp_all add: write_inv_def\<close>)
  ultimately show ?thesis using False inv i f by (simp add: write_inv_def put_def settle_slot_def list_all_update)
qed

lemma write_inv_nonce:
  assumes inv: "write_inv st" and first: "waiting_first i st"
  shows "write_inv (on_nonce i acct st)"
proof -
  let ?w = "writes st ! i" and ?k = "w_ss58 (writes st ! i)"
  let ?s = "getState (accts st) ?k"
  let ?n = "taken_nonce acct ?s"
  let ?a = "snd (takeNonce ?k acct (accts st))"
  obtain q where i: "i < length (writes st)" and q: "lock ?s = i # q"
    using first by (auto simp: waiting_first_def split: list.splits)
  have lk: "lock_inv a (getState (accts st) a) (writes st)" and ac: "acct_inv (getState (accts st) a) (held a (writes st))" for a
    using inv by (simp_all add: write_inv_def)
  from lk [of ?k] have unres: "\<not> reserved ?w" by (simp add: lock_inv_def q)
  obtain l r where ws: "writes st = l @ ?w # r" and upd: "\<And>w. (writes st)[i := w] = l @ w # r"
    by (rule replace_split [OF i]) blast
  have free: "held a (writes st) = held a l @ held a r" for a
    by (subst ws) (simp add: holds_def unres)
  have own: "acct_inv (taken_state acct ?s) (held ?k l @ ?n # held ?k r)"
    using acct_inv_taken ac [of ?k] by (simp add: free)
  have wi: "flags_ok ?w" using inv i by (simp add: write_inv_def list_all_length)
  have lock': "lock_inv a s' ((writes st)[i := w])"
    if "lock s' = (if a = ?k then q else lock (getState (accts st) a))" "w_ss58 w = ?k" for a s' w
  proof (cases "a = ?k")
    case True
    show ?thesis by (rule lock_inv_taken [OF lk [of a]]) (use that True q in simp_all)
  next
    case False
    then have "i \<notin> set (lock (getState (accts st) a))" using lk [of a] unfolding lock_inv_def by metis
    then show ?thesis by (rule lock_inv_other [OF lk [of a]]) (use that False in simp)
  qed
  have ta: "getState ?a ?k = taken_state acct ?s" "\<And>a. a \<noteq> ?k \<Longrightarrow> getState ?a a = getState (accts st) a"
    by (simp_all add: getState_takeNonce)
  have other: "acct_inv (getState (accts st) a) (held a l @ held a r)" for a using ac [of a] by (simp add: free)
  show ?thesis
  proof (cases "cancelled ?w")
    case True
    let ?w' = "?w\<lparr>reserved := True, w_nonce := ?n\<rparr>"
    have e: "on_nonce i acct st = put i (?w', settleNonce ?k ?a) st"
      using True by (simp add: on_nonce_def case_prod_beta getState_takeNonce Let_def)
    have no: "\<not> holds a ?w'" for a using wi True by (simp add: holds_def flags_ok_def)
    have gs: "getState (settleNonce ?k ?a) a = (if a = ?k then settled_state (taken_state acct ?s) else getState (accts st) a)" for a
      using getState_settleNonce [of ?a ?k, unfolded ta(1), OF own] ta(2) [of a] by simp
    have "acct_inv (getState (settleNonce ?k ?a) a) (held a ((writes st)[i := ?w']))" for a
      using acct_inv_settled [OF own] other [of a] by (simp add: gs upd no)
    moreover have "lock_inv a (getState (settleNonce ?k ?a) a) ((writes st)[i := ?w'])" for a
      by (rule lock') (simp_all add: gs q)
    moreover have "flags_ok ?w'" using wi True by (simp add: flags_ok_def)
    ultimately show ?thesis using inv by (simp add: e write_inv_def put_def list_all_update)
  next
    case False
    let ?w' = "?w\<lparr>reserved := True, w_nonce := ?n, inner_on := True\<rparr>"
    have e: "on_nonce i acct st = put i (?w', ?a) st"
      using False by (simp add: on_nonce_def case_prod_beta getState_takeNonce Let_def)
    have yes: "holds a ?w' \<longleftrightarrow> a = ?k" for a using wi False unres by (auto simp: holds_def flags_ok_def)
    have "acct_inv (getState ?a a) (held a ((writes st)[i := ?w']))" for a
      using own other [of a] ta by (cases "a = ?k") (simp_all add: upd yes)
    moreover have "lock_inv a (getState ?a a) ((writes st)[i := ?w'])" for a
      by (rule lock') (simp_all add: getState_takeNonce q)
    moreover have "flags_ok ?w'" using wi False unres by (simp add: flags_ok_def)
    ultimately show ?thesis using inv by (simp add: e write_inv_def put_def list_all_update)
  qed
qed

lemma write_inv_start: "write_inv st \<Longrightarrow> write_inv (signSubmitWatch ss58 st)"
proof -
  assume inv: "write_inv st"
  have "acct_inv (s\<lparr>lock := q\<rparr>) hs = acct_inv s hs" for s q hs by (simp add: acct_inv_def)
  moreover have "lock_inv a s (ws @ [w])" if "lock_inv a s ws" for a s ws w
    using that by (auto simp: lock_inv_def nth_append)
  moreover have "lock_inv a (s\<lparr>lock := lock s @ [length ws]\<rparr>) (ws @ [w])"
    if "lock_inv a s ws" "w_ss58 w = a" "\<not> reserved w" for a s ws w
    using that by (auto simp: lock_inv_def nth_append)
  ultimately show ?thesis
    using inv by (simp add: write_inv_def signSubmitWatch_def enter_lock_def getState_set Let_def holds_def flags_ok_def)
qed

lemma write_inv_step: "write_step st st' \<Longrightarrow> write_inv st \<Longrightarrow> write_inv st'"
proof (induction rule: write_step.induct)
  case (start st ss58)
  then show ?case by (rule write_inv_start)
next
  case (nonce i st acct)
  then show ?case by (simp add: write_inv_nonce)
next
  case (emits i st u)
  then have f: "flags_ok (writes st ! i)" by (simp add: write_inv_def list_all_length)
  let ?w = "(writes st ! i)\<lparr>out := out (writes st ! i) @ [u]\<rparr>"
  have "write_inv (put i (?w, accts st) st)" by (rule write_inv_keep) (use emits f in \<open>auto simp: flags_ok_def\<close>)
  moreover have "write_inv (put i (settle_slot ?w (accts st)) st)"
    by (rule write_inv_settle) (use emits f in \<open>auto simp: flags_ok_def\<close>)
  ultimately show ?case by (simp add: on_update_def Let_def)
next
  case (ends i st)
  then have f: "flags_ok (writes st ! i)" by (simp add: write_inv_def list_all_length)
  show ?case unfolding on_complete_def by (rule write_inv_settle) (use ends f in \<open>auto simp: flags_ok_def\<close>)
next
  case (leaves i st)
  then have f: "flags_ok (writes st ! i)" by (simp add: write_inv_def list_all_length)
  show ?case unfolding on_teardown_def by (rule write_inv_settle) (use leaves f in \<open>auto simp: flags_ok_def\<close>)
qed

lemma write_reachable_inv: "write_reachable st \<Longrightarrow> write_inv st"
proof (induction rule: write_reachable.induct)
  case reach_none
  show ?case by (simp add: write_inv_def no_writes_def acct_inv_def lock_inv_def getState_def fresh_account_def)
next
  case (reach_step st st')
  then show ?case using write_inv_step by blast
qed

text \<open>
  C30: writes of one account never share a nonce.  However the writes of all accounts interleave, including those
  that are abandoned before their nonce arrives, the writes that hold a slot of an account have distinct nonces, the
  counter of the account is exactly their number, and it is read afresh from the chain when none is left.
\<close>

theorem nonces_never_collide:
  assumes "write_reachable st"
  shows "distinct (held a (writes st)) \<and> inflight (getState (accts st) a) = length (held a (writes st)) \<and>
    (held a (writes st) = [] \<longleftrightarrow> next_nonce (getState (accts st) a) = None)"
proof -
  have "acct_inv (getState (accts st) a) (held a (writes st))"
    using write_reachable_inv [OF assms] by (simp add: write_inv_def)
  then show ?thesis unfolding acct_inv_def by (metis length_0_conv)
qed

definition two_writes :: writing where
  "two_writes = on_nonce 1 (Some 7) (on_nonce 0 (Some 7) (signSubmitWatch ''A'' (signSubmitWatch ''A'' no_writes)))"

lemma two_writes_reachable: "write_reachable two_writes"
  unfolding two_writes_def
  by (intro reach_step [OF _ nonce] reach_step [OF _ start] reach_none)
    (simp_all add: waiting_first_def no_writes_def signSubmitWatch_def enter_lock_def getState_def fresh_account_def
      on_nonce_def put_def takeNonce_def settleNonce_def)

theorem nonces_never_collide_witness:
  "held ''A'' (writes two_writes) = [7, 8] \<and> distinct (held ''A'' (writes two_writes)) \<and>
   inflight (getState (accts two_writes) ''A'') = 2"
proof -
  have "held ''A'' (writes two_writes) = [7, 8]"
    by (simp add: two_writes_def no_writes_def signSubmitWatch_def enter_lock_def getState_def fresh_account_def
      on_nonce_def put_def takeNonce_def settleNonce_def holds_def)
  then show ?thesis using nonces_never_collide [OF two_writes_reachable, of "''A''"] by simp
qed

section \<open>A write is reported once\<close>

definition decisive :: "tx_update \<Rightarrow> bool" where
  "decisive u \<longleftrightarrow> phase u = InBestBlock \<or> phase u = Invalid \<or> phase u = Error"

definition verdict :: "tx_update \<Rightarrow> callback" where
  "verdict u = (if phase u = InBestBlock then OnConfirm u else OnError (coalesce (uerror u) (Raw TX_FAILED)))"

lemma run_next_settled: "rsettled r \<Longrightarrow> run_next u r = r"
  by (simp add: run_next_def settle_with_def split: tx_phase.split)

lemma fold_settled: "rsettled r \<Longrightarrow> fold run_next us r = r"
  by (induction us) (simp_all add: run_next_settled)

lemma run_next_start:
  "run_next u run_start = (if decisive u then run_start\<lparr>rsettled := True, calls := [verdict u], resolved_promise := True\<rparr> else run_start)"
  by (cases "phase u") (simp_all add: run_next_def settle_with_def run_start_def decisive_def verdict_def)

lemma fold_run: "fold run_next us run_start = (case find decisive us of
    None \<Rightarrow> run_start
  | Some u \<Rightarrow> run_start\<lparr>rsettled := True, calls := [verdict u], resolved_promise := True\<rparr>)"
  by (induction us) (simp_all add: run_next_start fold_settled)

text \<open>The submission stream reports the fate of a call that a block dispatched in state \<open>st\<close>.\<close>

fun creates_post :: "call \<Rightarrow> bool" where
  "creates_post (PostMessage _ _) = True"
| "creates_post (QuotePost _ _) = True"
| "creates_post (CreatePoll _ _ _ _ _) = True"
| "creates_post _ = False"

text \<open>The client library decodes an event of the pallet by the metadata: its name, and the field \<open>id\<close> if it has one.\<close>

definition microblog_event :: "string \<Rightarrow> nat option \<Rightarrow> chain_event" where
  "microblog_event name i = \<lparr>ce_pallet = ''Microblog'', ce_name = name, ce_id = map_option int i\<rparr>"

fun decoded_event :: "event \<Rightarrow> chain_event" where
  "decoded_event (PostCreated i _) = microblog_event ''PostCreated'' (Some i)"
| "decoded_event (Voted i _ _) = microblog_event ''Voted'' (Some i)"
| "decoded_event (VoteCleared i _) = microblog_event ''VoteCleared'' (Some i)"
| "decoded_event (AccountVoted _ _ _) = microblog_event ''AccountVoted'' None"
| "decoded_event (AccountVoteCleared _ _) = microblog_event ''AccountVoteCleared'' None"
| "decoded_event (Followed _ _) = microblog_event ''Followed'' None"
| "decoded_event (Unfollowed _ _) = microblog_event ''Unfollowed'' None"
| "decoded_event (PollCreated i _) = microblog_event ''PollCreated'' (Some i)"
| "decoded_event (PollVoted i _ _) = microblog_event ''PollVoted'' (Some i)"

text \<open>
  What the library's stream says of an extrinsic that a block dispatched in state \<open>st\<close>: whether it succeeded, the
  events it deposited in order among those of other pallets, and the error it raised.
\<close>

definition deposited :: "chain \<Rightarrow> chain \<Rightarrow> event list" where
  "deposited st st' = drop (length (System_Events st)) (System_Events st')"

definition reports :: "config \<Rightarrow> ss58 \<Rightarrow> call \<Rightarrow> chain \<Rightarrow> tx_watch_event \<Rightarrow> bool" where
  "reports T who c st e \<longleftrightarrow> ev_type e = TxBestBlocksState \<and> ev_found e \<and>
     (case dispatch T who c st of
        Inr st' \<Rightarrow> ev_ok e \<and>
          map_option (filter (\<lambda>x. ce_pallet x = ''Microblog'')) (ev_events e) = Some (map decoded_event (deposited st st'))
      | Inl err \<Rightarrow> \<not> ev_ok e \<and> ev_dispatchError e = Some (decoded err))"

definition undecided :: "tx_watch_event \<Rightarrow> bool" where
  "undecided e \<longleftrightarrow> ev_type e = Signed \<or> ev_type e = Broadcasted \<or> ev_type e = TxBestBlocksState \<and> \<not> ev_found e"

lemma undecided_quiet: "undecided e \<Longrightarrow> u \<in> set (on_event j n f e) \<Longrightarrow> \<not> decisive u"
  by (cases "ev_type e") (simp_all add: undecided_def on_event_def Let_def decisive_def bare_update_def)

lemma find_filter: "find (\<lambda>x. P x \<and> Q x) xs = find Q (filter P xs)"
  by (induction xs) auto

lemma extract_Microblog:
  "map_option (filter (\<lambda>x. ce_pallet x = ''Microblog'')) evs = Some ms \<Longrightarrow> extractPostId evs (Some n) = extractPostId (Some ms) (Some n)"
  by (cases evs) (auto simp: extractPostId_def find_filter [where P = "\<lambda>x. ce_pallet x = ''Microblog''"])

lemma insert_post_events [simp]: "System_Events (insert_post who txt par quo st) = System_Events st"
  by (simp add: index_defs split: option.split)

text \<open>The pallet announces a new post under the id it stored it at.\<close>

lemma created_post:
  assumes "creates_post c" and "dispatch T who c st = Inr st'"
  shows "extractPostId (Some (map decoded_event (deposited st st'))) (Some ''PostCreated'') = Some (int (NextPostId st)) \<and>
    (\<exists>p. Posts st' (NextPostId st) = Some p \<and> po_author p = who)"
  using assms
  by (cases c) (auto simp: post_message_def quote_post_def create_poll_def deposited_def deposit_event_def new_post_def
      extractPostId_def microblog_event_def split: if_splits option.splits sum.splits)

lemma find_append_none: "(\<And>x. x \<in> set xs \<Longrightarrow> \<not> P x) \<Longrightarrow> find P (xs @ ys) = find P ys"
  by (induction xs) auto

lemma run_decided:
  assumes "list_all undecided pre" "on_event j n f e = [u]" "decisive u"
  shows "calls (mutation_run BootOk (watchTx j n f (pre @ e # later) fin) d) = [verdict u]"
proof -
  have "find decisive (concat (map (on_event j n f) pre) @ u # rest) = Some u" for rest
    by (subst find_append_none) (use undecided_quiet assms in \<open>auto simp: list_all_iff\<close>)
  then have "find decisive (watchTx j n f (pre @ e # later) fin) = Some u" using assms(2) by (simp add: watchTx_def)
  then have "fold run_next (watchTx j n f (pre @ e # later) fin) run_start =
      run_start\<lparr>rsettled := True, calls := [verdict u], resolved_promise := True\<rparr>" by (simp add: fold_run)
  then show ?thesis by (simp add: mutation_run_def run_complete_def Let_def)
qed

lemma run_undecided:
  assumes "list_all undecided pre"
  shows "fold run_next (watchTx j n f pre fin) run_start = fold run_next (end_updates fin) run_start"
proof -
  have "find decisive (concat (map (on_event j n f) pre)) = None"
    using undecided_quiet assms by (fastforce simp: find_None_iff list_all_iff)
  then have "fold run_next (concat (map (on_event j n f) pre)) run_start = run_start" by (simp add: fold_run)
  then show ?thesis by (simp add: watchTx_def)
qed

lemma block_reported:
  assumes before: "list_all undecided pre" and post: "creates_post c" and block: "reports T who c st e"
  shows
  "case dispatch T who c st of
      Inr st' \<Rightarrow> \<exists>u p. calls (mutation_run BootOk (watchTx j (Some ''PostCreated'') None (pre @ e # later) fin) d) = [OnConfirm u] \<and>
        postId u = Some (int (NextPostId st)) \<and> Posts st' (NextPostId st) = Some p \<and> po_author p = who
    | Inl err \<Rightarrow> calls (mutation_run BootOk (watchTx j (Some ''PostCreated'') None (pre @ e # later) fin) d) =
        [OnError (Module ''Microblog'' (error_name err))]"
proof (cases "dispatch T who c st")
  case (Inl err)
  define u where "u = (bare_update Invalid)\<lparr>blockNumber := ev_block e, txHash := ev_txHash e,
    uerror := Some (Module ''Microblog'' (error_name err))\<rparr>"
  have "on_event j (Some ''PostCreated'') None e = [u]"
    using block Inl by (simp add: reports_def on_event_def Let_def bare_update_def classify_decoded u_def)
  from run_decided [OF before this] show ?thesis by (simp add: Inl decisive_def verdict_def u_def bare_update_def)
next
  case (Inr st')
  define u where "u = (bare_update InBestBlock)\<lparr>blockNumber := ev_block e, txHash := ev_txHash e,
    postId := Some (int (NextPostId st))\<rparr>"
  have "extractPostId (ev_events e) (Some ''PostCreated'') =
      extractPostId (Some (map decoded_event (deposited st st'))) (Some ''PostCreated'')"
    by (rule extract_Microblog) (use block Inr in \<open>simp add: reports_def\<close>)
  with created_post [OF post Inr] have "on_event j (Some ''PostCreated'') None e = [u]"
    using block Inr by (simp add: reports_def on_event_def Let_def bare_update_def u_def)
  from run_decided [OF before this] created_post [OF post Inr] show ?thesis
    by (simp add: Inr decisive_def verdict_def u_def bare_update_def)
qed

text \<open>
  C31: the outcome of a submitted post, quote or poll reaches its caller once and says what happened.  Whatever the
  stream emits before the block that includes the extrinsic and after it, the caller gets one callback: a confirmation
  with the id that the pallet's event announces, under which the pallet stored the author's post, or the pallet's own
  error.  When the stream fails before any block, the one callback is the classified failure, and when the
  surface unmounts first, it is the cancellation.
\<close>

theorem write_outcome_reported:
  assumes before: "list_all undecided pre" and post: "creates_post c"
  shows "(reports T who c st e \<longrightarrow> (case dispatch T who c st of
      Inr st' \<Rightarrow> \<exists>u p. calls (mutation_run BootOk (watchTx j (Some ''PostCreated'') None (pre @ e # later) fin) d) = [OnConfirm u] \<and>
        postId u = Some (int (NextPostId st)) \<and> Posts st' (NextPostId st) = Some p \<and> po_author p = who
    | Inl err \<Rightarrow> calls (mutation_run BootOk (watchTx j (Some ''PostCreated'') None (pre @ e # later) fin) d) =
        [OnError (Module ''Microblog'' (error_name err))])) \<and>
    calls (mutation_run BootOk (watchTx j (Some ''PostCreated'') None pre (Failed err)) d) = [OnError (classifyThrown err)] \<and>
    calls (run_unmount (mutation_run BootOk (watchTx j (Some ''PostCreated'') None pre Open) False)) = [OnCancel]"
proof (intro conjI impI)
  show "calls (mutation_run BootOk (watchTx j (Some ''PostCreated'') None pre (Failed err)) d) = [OnError (classifyThrown err)]"
    by (simp add: mutation_run_def run_undecided [OF before] run_next_start on_error_def bare_update_def decisive_def
        verdict_def run_complete_def Let_def)
  show "calls (run_unmount (mutation_run BootOk (watchTx j (Some ''PostCreated'') None pre Open) False)) = [OnCancel]"
    by (simp add: mutation_run_def run_undecided [OF before] Let_def) (simp add: run_start_def run_unmount_def settle_with_def)
qed (rule block_reported [OF before post])

definition demo_included :: tx_watch_event where
  "demo_included = \<lparr>ev_type = TxBestBlocksState, ev_txHash = None, ev_found = True, ev_ok = True, ev_block = Some 9,
     ev_events = Some [\<lparr>ce_pallet = ''System'', ce_name = ''NewAccount'', ce_id = None\<rparr>,
       \<lparr>ce_pallet = ''Microblog'', ce_name = ''PostCreated'', ce_id = Some 0\<rparr>], ev_dispatchError = None\<rparr>"

definition demo_signed :: tx_watch_event where
  "demo_signed = \<lparr>ev_type = Signed, ev_txHash = None, ev_found = False, ev_ok = False, ev_block = None, ev_events = None,
     ev_dispatchError = None\<rparr>"

definition demo_config :: config where
  "demo_config = \<lparr>MaxLength = 512, MaxPollOptions = 4, MaxPollOptionLen = 80, MaxAnchorUrlLen = 128, MinPollDuration = 100,
     MaxPollDuration = 1296000\<rparr>"

theorem write_outcome_reported_witness:
  "\<exists>u p st'. dispatch demo_config ''A'' (PostMessage [104, 105] None) (genesis\<lparr>PkhOf := (\<lambda>_. True)\<rparr>) = Inr st' \<and>
     calls (mutation_run BootOk (watchTx (\<lambda>_. None) (Some ''PostCreated'') None
       ([demo_signed] @ demo_included # []) Completed) True) = [OnConfirm u] \<and>
     postId u = Some 0 \<and> Posts st' 0 = Some p \<and> po_author p = ''A''"
proof -
  let ?st = "genesis\<lparr>PkhOf := (\<lambda>_. True)\<rparr>" and ?c = "PostMessage [104, 105] None"
  obtain st' where ok: "dispatch demo_config ''A'' ?c ?st = Inr st'"
    by (simp add: post_message_def demo_config_def)
  have n: "NextPostId ?st = 0" by (simp add: genesis_def)
  have rep: "reports demo_config ''A'' ?c ?st demo_included"
    unfolding reports_def using ok
    by (auto simp: demo_included_def genesis_def post_message_def demo_config_def deposited_def deposit_event_def microblog_event_def)
  have "list_all undecided [demo_signed]" "creates_post ?c" by (simp_all add: undecided_def demo_signed_def)
  from write_outcome_reported [OF this, where T = demo_config and who = "''A''" and st = ?st and e = demo_included and
      j = "\<lambda>_. None" and later = "[]" and fin = Completed and d = True] rep
  show ?thesis unfolding ok n by auto
qed

section \<open>The deadline of a poll\<close>

lemma bound_options_err: "bound_options T acc opts = Inl e \<Longrightarrow> e = OptionTooLong \<or> e = TooManyOptions"
  by (induction T acc opts rule: bound_options.induct) (auto split: if_splits)

lemma bound_action_err: "bound_action T k act = Inl e \<Longrightarrow> e = GovActionRequiresChamber \<or> e = InvalidAnchor"
  by (auto simp: bound_action_def split: option.splits if_splits)

text \<open>
  C32: when the chain accepts the deadline the client computes.  A poll dispatched in a block at or after the one the
  client resolved it at is refused as too short exactly when fewer than \<open>MinPollDuration\<close> blocks are left until the
  deadline, and never as too long or as missing; the client leaves one block of slack, so the deadline is
  accepted in the block it was resolved at and in the next one, whatever number of days was chosen.
\<close>

theorem poll_deadline_accepted:
  assumes r: "resolveCloseAt T chain_head best days = Inr c" and b: "b = coalesce best chain_head"
    and window: "MinPollDuration T < MaxPollDuration T" and later: "b \<le> int (block_number st)"
    and room: "block_number st + MaxPollDuration T \<le> u32_max" and bound: "PkhOf st who"
  shows "(create_poll T who q opts (Some (nat c)) k act st = Inl PollDurationTooShort \<longleftrightarrow>
            c < int (block_number st) + int (MinPollDuration T)) \<and>
    create_poll T who q opts (Some (nat c)) k act st \<noteq> Inl PollDurationTooLong \<and>
    create_poll T who q opts (Some (nat c)) k act st \<noteq> Inl PollCloseRequired \<and>
    (int (block_number st) \<le> b + 1 \<longrightarrow> create_poll T who q opts (Some (nat c)) k act st \<noteq> Inl PollDurationTooShort)"
proof -
  obtain n where c: "c = b + n" "int (MinPollDuration T) + 1 \<le> n" "n \<le> int (MaxPollDuration T)" "0 < b"
    using r window b by (auto simp: resolveCloseAt_def Let_def split: if_splits option.splits)
  have add: "saturating_add u32_max (block_number st) (MinPollDuration T) = block_number st + MinPollDuration T"
    "saturating_add u32_max (block_number st) (MaxPollDuration T) = block_number st + MaxPollDuration T"
    using room window by (simp_all add: saturating_add_def)
  have short: "nat c < block_number st + MinPollDuration T \<longleftrightarrow> c < int (block_number st) + int (MinPollDuration T)"
    using c by auto
  have "\<not> block_number st + MaxPollDuration T < nat c" using c later by auto
  then have result: "create_poll T who q opts (Some (nat c)) k act st \<noteq> Inl PollDurationTooLong"
    "create_poll T who q opts (Some (nat c)) k act st \<noteq> Inl PollCloseRequired"
    "create_poll T who q opts (Some (nat c)) k act st = Inl PollDurationTooShort \<longleftrightarrow> nat c < block_number st + MinPollDuration T"
    using bound by (auto simp: create_poll_def add dest: bound_options_err bound_action_err split: sum.splits)
  have "int (block_number st) \<le> b + 1 \<Longrightarrow> \<not> c < int (block_number st) + int (MinPollDuration T)"
    using c by linarith
  with result show ?thesis unfolding short by blast
qed

text \<open>
  The comment at the clamp expects the dispatch a block or two later.  A deadline that was raised to the floor has one
  block of slack, so two blocks later the chain refuses it.
\<close>

lemma clamped_deadline_late:
  assumes "resolveCloseAt T chain_head (Some b) (Some days) = Inr c" and "days \<noteq> 0" and "days * BLOCKS_PER_DAY \<le> int (MinPollDuration T) + 1"
    and "MinPollDuration T < MaxPollDuration T" and "int (block_number st) = b + 2"
    and "block_number st + MaxPollDuration T \<le> u32_max" and "PkhOf st who"
  shows "create_poll T who q opts (Some (nat c)) k act st = Inl PollDurationTooShort"
proof -
  have "c = b + int (MinPollDuration T) + 1" "0 < b"
    using assms(1-4) by (auto simp: resolveCloseAt_def Let_def split: if_splits)
  with assms(4-7) show ?thesis by (auto simp: create_poll_def saturating_add_def)
qed

theorem poll_deadline_accepted_witness:
  "resolveCloseAt demo_config 0 (Some 50) (Some 3) = Inr 43250 \<and>
   create_poll demo_config ''A'' [104] [[105], [106]] (Some 43250) StakePoll None (genesis\<lparr>PkhOf := (\<lambda>_. True), block_number := 51\<rparr>) \<notin>
     {Inl PollCloseRequired, Inl PollDurationTooShort, Inl PollDurationTooLong}"
proof -
  have r: "resolveCloseAt demo_config 0 (Some 50) (Some 3) = Inr 43250"
    by (simp add: resolveCloseAt_def demo_config_def BLOCKS_PER_DAY_def)
  moreover have "51 + 1296000 \<le> u32_max" by (simp add: u32_max_def)
  ultimately show ?thesis
    using poll_deadline_accepted [OF r refl, of "genesis\<lparr>PkhOf := (\<lambda>_. True), block_number := 51\<rparr>" "''A''" "[104]"
      "[[105], [106]]" StakePoll None]
    by (simp add: demo_config_def)
qed

end
