(* ===== verification/Optimistic.thy ===== *)
theory Optimistic
  imports Cogno_Types
begin

text \<open>
  The optimistic overlay: the pure overlay algebra of \<open>app/src/lib/optimistic.ts\<close>, the overlay
  state that \<open>app/src/hooks/useOptimistic.tsx\<close> keeps (with its confirm timers as sets of armed keys),
  the vote write of \<open>app/src/hooks/useVote.ts\<close>, and the rebased account vote of
  \<open>app/src/lib/accountVote.ts\<close>.  The abstract specification is the chain's own tally: a book of
  votes, one per account, whose counts and weights are sums over the book.
\<close>

section \<open>The overlay\<close>

record count_patch =
  upCountDelta :: "int option"
  downCountDelta :: "int option"
  upWeightDelta :: "int option"
  downWeightDelta :: "int option"

record viewer_patch =
  vp_myVote :: "vote option option"
  vp_expected :: "bool option"

record pending_post =
  pp_clientId :: string
  pp_post :: cogno_post
  pp_parentId :: "int option"

record profile_patch =
  pf_displayName :: string
  pf_bio :: string
  pf_avatar :: string
  pf_banner :: string
  pf_location :: string
  pf_website :: string
  pf_expected :: "bool option"

record overlay =
  ov_pending :: "pending_post list"
  ov_counts :: "(string, count_patch) omap"
  ov_viewer :: "(string, viewer_patch) omap"
  ov_profiles :: "(string, profile_patch) omap"

definition EMPTY_OVERLAY :: overlay where
  "EMPTY_OVERLAY = \<lparr>ov_pending = [], ov_counts = [], ov_viewer = [], ov_profiles = []\<rparr>"

subsection \<open>Profile patches\<close>

definition normProfileField :: "string option \<Rightarrow> string" where
  "normProfileField s = js_trim (coalesce s [])"

text \<open>\<open>normProfileField(s) || undefined\<close>: the empty string is falsy.\<close>

definition or_undefined :: "string \<Rightarrow> string option" where
  "or_undefined s = (if s = [] then None else Some s)"

definition applyProfilePatch :: "profile_view \<Rightarrow> profile_patch option \<Rightarrow> profile_view" where
  "applyProfilePatch view patch = (case patch of
     None \<Rightarrow> view
   | Some p \<Rightarrow> view\<lparr>
       pr_displayName := or_undefined (normProfileField (Some (pf_displayName p))),
       pr_bio := or_undefined (normProfileField (Some (pf_bio p))),
       pr_avatar := or_undefined (normProfileField (Some (pf_avatar p))),
       pr_banner := or_undefined (normProfileField (Some (pf_banner p))),
       pr_location := or_undefined (normProfileField (Some (pf_location p))),
       pr_website := or_undefined (normProfileField (Some (pf_website p)))\<rparr>)"

definition profilePatchSettled :: "profile_view \<Rightarrow> profile_patch option \<Rightarrow> bool" where
  "profilePatchSettled view patch = (case patch of
     None \<Rightarrow> False
   | Some p \<Rightarrow> pf_expected p = Some True \<and>
       normProfileField (pr_displayName view) = normProfileField (Some (pf_displayName p)) \<and>
       normProfileField (pr_bio view) = normProfileField (Some (pf_bio p)) \<and>
       normProfileField (pr_avatar view) = normProfileField (Some (pf_avatar p)) \<and>
       normProfileField (pr_banner view) = normProfileField (Some (pf_banner p)) \<and>
       normProfileField (pr_location view) = normProfileField (Some (pf_location p)) \<and>
       normProfileField (pr_website view) = normProfileField (Some (pf_website p)))"

subsection \<open>Count and viewer patches\<close>

definition applyCountPatch :: "cogno_post \<Rightarrow> count_patch option \<Rightarrow> cogno_post" where
  "applyCountPatch post patch = (case patch of
     None \<Rightarrow> post
   | Some p \<Rightarrow>
       let upSum = coalesce (p_upWeight post) 0 + coalesce (upWeightDelta p) 0;
           downSum = coalesce (p_downWeight post) 0 + coalesce (downWeightDelta p) 0;
           upWeight = (if upSum < 0 then 0 else upSum);
           downWeight = (if downSum < 0 then 0 else downSum)
       in post\<lparr>
            p_upCount := Some (max 0 (coalesce (p_upCount post) 0 + coalesce (upCountDelta p) 0)),
            p_downCount := Some (max 0 (coalesce (p_downCount post) 0 + coalesce (downCountDelta p) 0)),
            p_upWeight := Some upWeight,
            p_downWeight := Some downWeight,
            p_score := Some (upWeight - downWeight)\<rparr>)"

definition viewerPatchSettled :: "viewer_post_state \<Rightarrow> viewer_patch option \<Rightarrow> bool" where
  "viewerPatchSettled base patch = (case patch of
     None \<Rightarrow> False
   | Some p \<Rightarrow> vp_expected p = Some True \<and> vs_myVote base = coalesce (vp_myVote p) None)"

definition NO_VIEWER :: viewer_post_state where
  "NO_VIEWER = \<lparr>vs_myVote = None\<rparr>"

definition applyViewerPatch :: "viewer_post_state \<Rightarrow> viewer_patch option \<Rightarrow> viewer_post_state" where
  "applyViewerPatch base patch = (case patch of
     None \<Rightarrow> base
   | Some p \<Rightarrow> \<lparr>vs_myVote = (case vp_myVote p of Some v \<Rightarrow> v | None \<Rightarrow> vs_myVote base)\<rparr>)"

subsection \<open>Pending cards\<close>

definition pendingKey :: "cogno_post \<Rightarrow> string" where
  "pendingKey post = p_author post @ [CHR 0x0A] @ p_text post"

text \<open>\<open>nextPendingId\<close> over its module-level counter: the new counter and the id.\<close>

definition nextPendingId :: "nat \<Rightarrow> nat \<times> int" where
  "nextPendingId pendingIdSeq = (Suc pendingIdSeq, - int (Suc pendingIdSeq))"

definition mergeFeed :: "cogno_post list \<Rightarrow> overlay \<Rightarrow> cogno_post list" where
  "mergeFeed posts ov =
     (let patched = map (\<lambda>p. applyCountPatch p (map_of (ov_counts ov) (show_int (p_id p)))) posts;
          realKeys = set (map pendingKey patched);
          pendingCards = map pp_post
            (filter (\<lambda>pp. pendingKey (pp_post pp) \<notin> realKeys)
              (filter (\<lambda>pp. pp_parentId pp = None) (ov_pending ov)))
      in pendingCards @ patched)"

subsection \<open>The vote delta\<close>

definition voteDelta :: "vote option \<Rightarrow> vote option \<Rightarrow> int \<Rightarrow> count_patch" where
  "voteDelta prev next myWeight =
     (let p0 = \<lparr>upCountDelta = Some 0, downCountDelta = Some 0,
                upWeightDelta = Some 0, downWeightDelta = Some 0\<rparr>;
          p1 = (case prev of
                  Some Up \<Rightarrow> p0\<lparr>upCountDelta := Some (coalesce (upCountDelta p0) 0 - 1),
                                upWeightDelta := Some (coalesce (upWeightDelta p0) 0 - myWeight)\<rparr>
                | Some Down \<Rightarrow> p0\<lparr>downCountDelta := Some (coalesce (downCountDelta p0) 0 - 1),
                                  downWeightDelta := Some (coalesce (downWeightDelta p0) 0 - myWeight)\<rparr>
                | None \<Rightarrow> p0)
      in case next of
           Some Up \<Rightarrow> p1\<lparr>upCountDelta := Some (coalesce (upCountDelta p1) 0 + 1),
                         upWeightDelta := Some (coalesce (upWeightDelta p1) 0 + myWeight)\<rparr>
         | Some Down \<Rightarrow> p1\<lparr>downCountDelta := Some (coalesce (downCountDelta p1) 0 + 1),
                           downWeightDelta := Some (coalesce (downWeightDelta p1) 0 + myWeight)\<rparr>
         | None \<Rightarrow> p1)"

section \<open>The provider's state\<close>

text \<open>
  \<open>OptimisticProvider\<close> keeps the overlay, the counter of client ids, and the keys that have an armed
  time-to-live timer.  A timer that fires removes its key and clears the patch; the clock itself
  belongs to the browser, so firing is an operation like any other.
\<close>

record provider =
  pv_overlay :: overlay
  pv_seq :: nat
  pv_confirmTimers :: "string list"
  pv_profileTimers :: "string list"

definition init_provider :: provider where
  "init_provider = \<lparr>pv_overlay = EMPTY_OVERLAY, pv_seq = 0, pv_confirmTimers = [], pv_profileTimers = []\<rparr>"

definition addCountPatch :: "count_patch option \<Rightarrow> count_patch \<Rightarrow> count_patch" where
  "addCountPatch a b = \<lparr>
     upCountDelta = Some (coalesce (Option.bind a upCountDelta) 0 + coalesce (upCountDelta b) 0),
     downCountDelta = Some (coalesce (Option.bind a downCountDelta) 0 + coalesce (downCountDelta b) 0),
     upWeightDelta = Some (coalesce (Option.bind a upWeightDelta) 0 + coalesce (upWeightDelta b) 0),
     downWeightDelta = Some (coalesce (Option.bind a downWeightDelta) 0 + coalesce (downWeightDelta b) 0)\<rparr>"

definition addPending :: "cogno_post \<Rightarrow> int option \<Rightarrow> provider \<Rightarrow> string \<times> provider" where
  "addPending post parentId s =
     (let clientId = ''pending-'' @ show_nat (pv_seq s);
          entry = \<lparr>pp_clientId = clientId, pp_post = post, pp_parentId = parentId\<rparr>;
          ov = pv_overlay s
      in (clientId, s\<lparr>pv_seq := Suc (pv_seq s), pv_overlay := ov\<lparr>ov_pending := entry # ov_pending ov\<rparr>\<rparr>))"

definition dropPending :: "string \<Rightarrow> provider \<Rightarrow> provider" where
  "dropPending clientId s =
     (let ov = pv_overlay s
      in s\<lparr>pv_overlay := ov\<lparr>ov_pending := filter (\<lambda>p. pp_clientId p \<noteq> clientId) (ov_pending ov)\<rparr>\<rparr>)"

definition failPending :: "string \<Rightarrow> provider \<Rightarrow> provider" where
  "failPending clientId s =
     (let ov = pv_overlay s
      in s\<lparr>pv_overlay := ov\<lparr>ov_pending := filter (\<lambda>p. pp_clientId p \<noteq> clientId) (ov_pending ov)\<rparr>\<rparr>)"

definition patchCounts :: "int \<Rightarrow> count_patch \<Rightarrow> provider \<Rightarrow> provider" where
  "patchCounts postId patch s =
     (let key = show_int postId; ov = pv_overlay s
      in s\<lparr>pv_overlay := ov\<lparr>ov_counts :=
             omap_set key (addCountPatch (map_of (ov_counts ov) key) patch) (ov_counts ov)\<rparr>\<rparr>)"

text \<open>Object spread \<open>{...a, ...b}\<close> of two viewer patches: a field \<open>b\<close> has wins.\<close>

definition spread_viewer :: "viewer_patch option \<Rightarrow> viewer_patch \<Rightarrow> viewer_patch" where
  "spread_viewer a b = (case a of
     None \<Rightarrow> b
   | Some p \<Rightarrow> \<lparr>vp_myVote = (case vp_myVote b of None \<Rightarrow> vp_myVote p | Some v \<Rightarrow> Some v),
               vp_expected = (case vp_expected b of None \<Rightarrow> vp_expected p | Some e \<Rightarrow> Some e)\<rparr>)"

definition patchViewer :: "int \<Rightarrow> viewer_patch \<Rightarrow> provider \<Rightarrow> provider" where
  "patchViewer postId patch s =
     (let key = show_int postId; ov = pv_overlay s
      in s\<lparr>pv_overlay := ov\<lparr>ov_viewer :=
             omap_set key (spread_viewer (map_of (ov_viewer ov) key) patch) (ov_viewer ov)\<rparr>\<rparr>)"

definition clearPost :: "int \<Rightarrow> provider \<Rightarrow> provider" where
  "clearPost postId s =
     (let key = show_int postId; ov = pv_overlay s
      in s\<lparr>pv_confirmTimers := filter (\<lambda>k. k \<noteq> key) (pv_confirmTimers s),
           pv_overlay := ov\<lparr>ov_counts := omap_del key (ov_counts ov),
                             ov_viewer := omap_del key (ov_viewer ov)\<rparr>\<rparr>)"

definition confirmPost :: "int \<Rightarrow> provider \<Rightarrow> provider" where
  "confirmPost postId s =
     (let key = show_int postId; ov = pv_overlay s;
          ov' = (case map_of (ov_viewer ov) key of
                   None \<Rightarrow> ov
                 | Some v \<Rightarrow> ov\<lparr>ov_viewer := omap_set key (v\<lparr>vp_expected := Some True\<rparr>) (ov_viewer ov)\<rparr>)
      in s\<lparr>pv_overlay := ov',
           pv_confirmTimers := key # filter (\<lambda>k. k \<noteq> key) (pv_confirmTimers s)\<rparr>)"

text \<open>The time-to-live timer of a confirmed vote fires: it deletes its own entry and clears the post.\<close>

definition confirmTimerFires :: "int \<Rightarrow> provider \<Rightarrow> provider" where
  "confirmTimerFires postId s =
     (if show_int postId \<in> set (pv_confirmTimers s)
      then clearPost postId (s\<lparr>pv_confirmTimers := filter (\<lambda>k. k \<noteq> show_int postId) (pv_confirmTimers s)\<rparr>)
      else s)"

definition clearProfilePatch :: "ss58 \<Rightarrow> provider \<Rightarrow> provider" where
  "clearProfilePatch who s =
     (let ov = pv_overlay s
      in s\<lparr>pv_profileTimers := filter (\<lambda>k. k \<noteq> who) (pv_profileTimers s),
           pv_overlay := (if map_of (ov_profiles ov) who = None then ov
                          else ov\<lparr>ov_profiles := omap_del who (ov_profiles ov)\<rparr>)\<rparr>)"

definition patchProfile :: "ss58 \<Rightarrow> profile_patch \<Rightarrow> provider \<Rightarrow> provider" where
  "patchProfile who patch s =
     (let ov = pv_overlay s
      in s\<lparr>pv_profileTimers := filter (\<lambda>k. k \<noteq> who) (pv_profileTimers s),
           pv_overlay := ov\<lparr>ov_profiles :=
             omap_set who (patch\<lparr>pf_expected := Some False\<rparr>) (ov_profiles ov)\<rparr>\<rparr>)"

definition confirmProfile :: "ss58 \<Rightarrow> provider \<Rightarrow> provider" where
  "confirmProfile who s =
     (let ov = pv_overlay s;
          ov' = (case map_of (ov_profiles ov) who of
                   None \<Rightarrow> ov
                 | Some p \<Rightarrow> ov\<lparr>ov_profiles := omap_set who (p\<lparr>pf_expected := Some True\<rparr>) (ov_profiles ov)\<rparr>)
      in s\<lparr>pv_overlay := ov',
           pv_profileTimers := who # filter (\<lambda>k. k \<noteq> who) (pv_profileTimers s)\<rparr>)"

definition profileTimerFires :: "ss58 \<Rightarrow> provider \<Rightarrow> provider" where
  "profileTimerFires who s =
     (if who \<in> set (pv_profileTimers s)
      then clearProfilePatch who (s\<lparr>pv_profileTimers := filter (\<lambda>k. k \<noteq> who) (pv_profileTimers s)\<rparr>)
      else s)"

definition rollbackProfile :: "ss58 \<Rightarrow> provider \<Rightarrow> provider" where
  "rollbackProfile who s = clearProfilePatch who s"

definition reconcileProfile :: "ss58 \<Rightarrow> profile_view \<Rightarrow> provider \<Rightarrow> provider" where
  "reconcileProfile who view s =
     (if profilePatchSettled view (map_of (ov_profiles (pv_overlay s)) who)
      then clearProfilePatch who s else s)"

section \<open>Voting\<close>

text \<open>
  \<open>doVote\<close> applies the patches before the write is submitted; what the write does later (confirm, fail,
  be cancelled) is \<^const>\<open>confirmPost\<close> or \<^const>\<open>clearPost\<close>.  The toggles read the viewer state the
  card shows; \<open>online\<close> says that an API and a signer are at hand.
\<close>

definition doVote :: "bool \<Rightarrow> int \<Rightarrow> int \<Rightarrow> viewer_post_state \<Rightarrow> vote option \<Rightarrow> provider \<Rightarrow> provider" where
  "doVote online myWeight postId current next s =
     (if \<not> online then s
      else if vs_myVote current = next then s
      else patchCounts postId (voteDelta (vs_myVote current) next myWeight)
             (patchViewer postId \<lparr>vp_myVote = Some next, vp_expected = None\<rparr> s))"

definition like :: "bool \<Rightarrow> int \<Rightarrow> int \<Rightarrow> viewer_post_state \<Rightarrow> provider \<Rightarrow> provider" where
  "like c w postId current = doVote c w postId current (if vs_myVote current = Some Up then None else Some Up)"

definition downvote :: "bool \<Rightarrow> int \<Rightarrow> int \<Rightarrow> viewer_post_state \<Rightarrow> provider \<Rightarrow> provider" where
  "downvote c w postId current = doVote c w postId current (if vs_myVote current = Some Down then None else Some Down)"

definition unlike :: "bool \<Rightarrow> int \<Rightarrow> int \<Rightarrow> viewer_post_state \<Rightarrow> provider \<Rightarrow> provider" where
  "unlike c w postId current = doVote c w postId current None"

section \<open>The account vote\<close>

record account_vote_base =
  ab_myVote :: "vote option"
  ab_upWeight :: int
  ab_downWeight :: int
  ab_upCount :: int
  ab_downCount :: int

record account_vote_intent =
  ai_myVote :: "vote option"
  ai_weight :: int
  ai_inFlight :: int

record account_vote_merged =
  am_myVote :: "vote option"
  am_score :: int
  am_upCount :: int
  am_downCount :: int

definition ZERO_BASE :: account_vote_base where
  "ZERO_BASE = \<lparr>ab_myVote = None, ab_upWeight = 0, ab_downWeight = 0, ab_upCount = 0, ab_downCount = 0\<rparr>"

definition baseView :: "account_vote_base \<Rightarrow> account_vote_merged" where
  "baseView b = \<lparr>am_myVote = ab_myVote b, am_score = ab_upWeight b - ab_downWeight b,
                 am_upCount = ab_upCount b, am_downCount = ab_downCount b\<rparr>"

definition rebaseAccountVote :: "account_vote_base \<Rightarrow> account_vote_intent option \<Rightarrow> account_vote_merged" where
  "rebaseAccountVote base intent = (case intent of
     None \<Rightarrow> baseView base
   | Some i \<Rightarrow>
       let d = voteDelta (ab_myVote base) (ai_myVote i) (ai_weight i);
           up = ab_upWeight base + coalesce (upWeightDelta d) 0;
           down = ab_downWeight base + coalesce (downWeightDelta d) 0
       in \<lparr>am_myVote = ai_myVote i,
           am_score = (if up < 0 then 0 else up) - (if down < 0 then 0 else down),
           am_upCount = max 0 (ab_upCount base + coalesce (upCountDelta d) 0),
           am_downCount = max 0 (ab_downCount base + coalesce (downCountDelta d) 0)\<rparr>)"


section \<open>The tally of the chain, as a specification\<close>

text \<open>
  The chain keeps one vote per account.  Counts and weights are sums over this book, and casting
  replaces the account's own entry.
\<close>

type_synonym book = "(ss58, vote) omap"

definition book_count :: "vote \<Rightarrow> book \<Rightarrow> int" where
  "book_count d b = (\<Sum>(a, v) \<leftarrow> b. if v = d then 1 else 0)"

definition book_weight :: "vote \<Rightarrow> (ss58 \<Rightarrow> int) \<Rightarrow> book \<Rightarrow> int" where
  "book_weight d pw b = (\<Sum>(a, v) \<leftarrow> b. if v = d then pw a else 0)"

definition book_cast :: "ss58 \<Rightarrow> vote option \<Rightarrow> book \<Rightarrow> book" where
  "book_cast me next b = (case next of None \<Rightarrow> omap_del me b | Some v \<Rightarrow> omap_set me v b)"

definition shows_tally :: "cogno_post \<Rightarrow> (ss58 \<Rightarrow> int) \<Rightarrow> book \<Rightarrow> bool" where
  "shows_tally p pw b \<longleftrightarrow>
     p_upCount p = Some (book_count Up b) \<and> p_downCount p = Some (book_count Down b) \<and>
     p_upWeight p = Some (book_weight Up pw b) \<and> p_downWeight p = Some (book_weight Down pw b) \<and>
     p_score p = Some (book_weight Up pw b - book_weight Down pw b)"

text \<open>How one account's share enters a sum over the book.\<close>

definition share :: "vote \<Rightarrow> int \<Rightarrow> vote option \<Rightarrow> int" where
  "share d w v = (if v = Some d then w else 0)"

lemma sum_book_set:
  assumes "omap_ok b"
  shows "(\<Sum>(a, v) \<leftarrow> omap_set me n b. if v = d then f a else (0::int)) =
         (\<Sum>(a, v) \<leftarrow> b. if v = d then f a else 0) - share d (f me) (map_of b me) + share d (f me) (Some n)"
  using assms
proof (induction b)
  case Nil
  then show ?case by (simp add: share_def)
next
  case (Cons x b)
  obtain a v where x: "x = (a, v)" by (cases x)
  show ?case
  proof (cases "a = me")
    case True
    with Cons x show ?thesis by (simp add: share_def)
  next
    case False
    with Cons x show ?thesis by (simp add: omap_ok_def)
  qed
qed

lemma sum_book_del:
  assumes "omap_ok b"
  shows "(\<Sum>(a, v) \<leftarrow> omap_del me b. if v = d then f a else (0::int)) =
         (\<Sum>(a, v) \<leftarrow> b. if v = d then f a else 0) - share d (f me) (map_of b me)"
  using assms
proof (induction b)
  case Nil
  then show ?case by (simp add: share_def omap_del_def)
next
  case (Cons x b)
  obtain a v where x: "x = (a, v)" by (cases x)
  have IH: "(\<Sum>(a, v) \<leftarrow> omap_del me b. if v = d then f a else (0::int)) =
         (\<Sum>(a, v) \<leftarrow> b. if v = d then f a else 0) - share d (f me) (map_of b me)"
    using Cons by (simp add: omap_ok_def)
  have none: "a = me \<Longrightarrow> map_of b me = None"
    using Cons.prems x by (auto simp: omap_ok_def map_of_eq_None_iff)
  show ?case using IH none x by (auto simp: omap_del_def share_def)
qed

lemma book_cast_sum:
  assumes "omap_ok b"
  shows "book_weight d pw (book_cast me next b) =
           book_weight d pw b - share d (pw me) (map_of b me) + share d (pw me) next"
    and "book_count d (book_cast me next b) =
           book_count d b - share d 1 (map_of b me) + share d 1 next"
  using sum_book_set [OF assms, where f = pw] sum_book_del [OF assms, where f = pw]
    sum_book_set [OF assms, where f = "\<lambda>_. 1"] sum_book_del [OF assms, where f = "\<lambda>_. 1"]
  by (cases "next"; simp add: book_weight_def book_count_def book_cast_def share_def)+

lemma book_nonneg:
  assumes "\<And>a. 0 \<le> pw a"
  shows "0 \<le> book_weight d pw b" "0 \<le> book_count d b"
  using assms by (induction b) (auto simp: book_weight_def book_count_def)

lemma omap_ok_cast [simp]: "omap_ok b \<Longrightarrow> omap_ok (book_cast me next b)"
  by (simp add: book_cast_def split: option.split)

lemma map_of_cast [simp]: "map_of (book_cast me next b) me = next"
  by (simp add: book_cast_def split: option.split)

section \<open>Correctness of the vote delta\<close>

lemma voteDelta_eq:
  "voteDelta prev next w = \<lparr>
     upCountDelta = Some (share Up 1 next - share Up 1 prev),
     downCountDelta = Some (share Down 1 next - share Down 1 prev),
     upWeightDelta = Some (share Up w next - share Up w prev),
     downWeightDelta = Some (share Down w next - share Down w prev)\<rparr>"
  by (cases prev; cases "next") (auto simp: voteDelta_def share_def Let_def split: vote.splits)

lemma addCountPatch_voteDelta:
  "addCountPatch (Some (voteDelta a b w)) (voteDelta b c w) = voteDelta a c w"
  by (simp add: addCountPatch_def voteDelta_eq)

lemma addCountPatch_None: "addCountPatch None (voteDelta a b w) = voteDelta a b w"
  by (simp add: addCountPatch_def voteDelta_eq)

lemma applyCountPatch_tally:
  assumes "omap_ok b" and "\<And>a. 0 \<le> pw a" and "shows_tally p pw b"
  shows "shows_tally (applyCountPatch p (Some (voteDelta (map_of b me) next (pw me)))) pw
           (book_cast me next b)"
proof -
  have nn: "0 \<le> book_weight d pw (book_cast me next b)" "0 \<le> book_count d (book_cast me next b)" for d
    by (rule book_nonneg, rule assms(2))+
  show ?thesis
    using assms(3) nn [of Up] nn [of Down]
    unfolding shows_tally_def applyCountPatch_def voteDelta_eq
    by (auto simp: book_cast_sum [OF assms(1)] Let_def max_def)
qed

text \<open>
  C2: applying the optimistic delta to a post that shows the chain's tally gives exactly the tally
  the chain has after it replaces the viewer's vote, whatever the previous and the new vote are:
  none of the clamps at zero ever changes a truthful tally.
\<close>

theorem applyCountPatch_refines_chain:
  assumes "omap_ok b" and "\<And>a. 0 \<le> pw a" and "shows_tally p pw b"
  shows "shows_tally (applyCountPatch p (Some (voteDelta (map_of b me) next (pw me)))) pw
           (book_cast me next b)"
  using assms by (rule applyCountPatch_tally)

lemma applyCountPatch_refines_chain_witness:
  "shows_tally
     (applyCountPatch
        ((bare_post 7 ''alice'' ''hi'' 1)
          \<lparr>p_upCount := Some 2, p_downCount := Some 0, p_upWeight := Some 12, p_downWeight := Some 0,
           p_score := Some 12\<rparr>)
        (Some (voteDelta (map_of [(''bob'', Up), (''me'', Up)] ''me'') (Some Down) (5::int))))
     (\<lambda>a. if a = ''me'' then 5 else 7) (book_cast ''me'' (Some Down) [(''bob'', Up), (''me'', Up)])"
  using applyCountPatch_refines_chain [of "[(''bob'', Up), (''me'', Up)]" "\<lambda>a. if a = ''me'' then 5 else 7"
      "(bare_post 7 ''alice'' ''hi'' 1)
          \<lparr>p_upCount := Some 2, p_downCount := Some 0, p_upWeight := Some 12, p_downWeight := Some 0,
           p_score := Some 12\<rparr>" "''me''" "Some Down"]
  by (simp add: omap_ok_def shows_tally_def book_count_def book_weight_def)


section \<open>A whole click sequence\<close>

text \<open>
  The viewer clicks through a list of votes on one post before any write settles; each click reads
  the state the previous one left on screen.
\<close>

fun vote_run :: "int \<Rightarrow> int \<Rightarrow> vote option \<Rightarrow> vote option list \<Rightarrow> provider \<Rightarrow> provider" where
  "vote_run w pid prev [] s = s"
| "vote_run w pid prev (n # ns) s = vote_run w pid n ns (doVote True w pid \<lparr>vs_myVote = prev\<rparr> n s)"

fun last_vote :: "vote option \<Rightarrow> vote option list \<Rightarrow> vote option" where
  "last_vote v [] = v"
| "last_vote v (n # ns) = last_vote n ns"

text \<open>The state a run reaches: no patch yet, or the one delta from the vote on the chain to the last click.\<close>

definition patched_to :: "int \<Rightarrow> int \<Rightarrow> vote option \<Rightarrow> vote option \<Rightarrow> provider \<Rightarrow> bool" where
  "patched_to w pid v0 v s \<longleftrightarrow>
     (let key = show_int pid; ov = pv_overlay s in
      (map_of (ov_counts ov) key = None \<and> map_of (ov_viewer ov) key = None \<and> v = v0) \<or>
      (map_of (ov_counts ov) key = Some (voteDelta v0 v w) \<and>
       (\<exists>p. map_of (ov_viewer ov) key = Some p \<and> vp_myVote p = Some v)))"

lemma doVote_patched_to:
  assumes "patched_to w pid v0 v s"
  shows "patched_to w pid v0 n (doVote True w pid \<lparr>vs_myVote = v\<rparr> n s)"
proof (cases "v = n")
  case True
  with assms show ?thesis by (simp add: doVote_def)
next
  case False
  with assms show ?thesis
    by (auto simp: patched_to_def doVote_def patchCounts_def patchViewer_def spread_viewer_def Let_def
        addCountPatch_voteDelta addCountPatch_None split: option.splits)
qed

lemma vote_run_patched_to:
  "patched_to w pid v0 v s \<Longrightarrow> patched_to w pid v0 (last_vote v ns) (vote_run w pid v ns s)"
  by (induction ns arbitrary: v s) (auto intro: doVote_patched_to)

lemma applyCountPatch_same_tally:
  assumes "\<And>a. 0 \<le> pw a" and "shows_tally p pw b"
  shows "shows_tally (applyCountPatch p (Some (voteDelta v v w))) pw b"
  using assms book_nonneg [of pw Up b] book_nonneg [of pw Down b]
  by (auto simp: shows_tally_def applyCountPatch_def voteDelta_eq Let_def)

text \<open>
  C1: a viewer who clicks any sequence of votes on a post, before any of the writes settles, sees the
  tally the chain will have once their last vote has landed, and sees that last vote as their own:
  re-votes, clears and repeated clicks never accumulate an error.
\<close>

theorem vote_run_shows_final_tally:
  assumes "omap_ok b" and "\<And>a. 0 \<le> pw a" and "shows_tally p pw b"
    and "map_of (ov_counts (pv_overlay s)) (show_int pid) = None"
    and "map_of (ov_viewer (pv_overlay s)) (show_int pid) = None"
    and "v0 = map_of b me"
  shows "let s' = vote_run (pw me) pid v0 ns s; final = last_vote v0 ns in
         shows_tally (applyCountPatch p (map_of (ov_counts (pv_overlay s')) (show_int pid))) pw
           (if final = v0 then b else book_cast me final b) \<and>
         vs_myVote (applyViewerPatch \<lparr>vs_myVote = v0\<rparr> (map_of (ov_viewer (pv_overlay s')) (show_int pid)))
           = final"
proof -
  define s' where "s' = vote_run (pw me) pid v0 ns s"
  define final where "final = last_vote v0 ns"
  have "patched_to (pw me) pid v0 v0 s" using assms(4,5) by (simp add: patched_to_def)
  from vote_run_patched_to [OF this] have reach: "patched_to (pw me) pid v0 final s'"
    by (simp add: s'_def final_def)
  have tally: "shows_tally (applyCountPatch p (Some (voteDelta v0 final (pw me)))) pw
      (if final = v0 then b else book_cast me final b)"
    using applyCountPatch_tally [OF assms(1,2,3), of me final]
      applyCountPatch_same_tally [OF assms(2,3)] assms(6) by auto
  show ?thesis
    unfolding Let_def s'_def [symmetric] final_def [symmetric]
    using reach tally assms(3) by (auto simp: patched_to_def Let_def applyCountPatch_def applyViewerPatch_def)
qed

lemma vote_run_shows_final_tally_witness:
  "let s' = vote_run 5 7 (Some Up) [None, Some Down] init_provider in
   shows_tally (applyCountPatch ((bare_post 7 ''alice'' ''hi'' 1)
          \<lparr>p_upCount := Some 2, p_downCount := Some 0, p_upWeight := Some 12, p_downWeight := Some 0,
           p_score := Some 12\<rparr>) (map_of (ov_counts (pv_overlay s')) (show_int 7)))
     (\<lambda>a. if a = ''me'' then 5 else 7) (book_cast ''me'' (Some Down) [(''bob'', Up), (''me'', Up)]) \<and>
   vs_myVote (applyViewerPatch \<lparr>vs_myVote = Some Up\<rparr> (map_of (ov_viewer (pv_overlay s')) (show_int 7)))
     = Some Down"
  using vote_run_shows_final_tally [of "[(''bob'', Up), (''me'', Up)]" "\<lambda>a. if a = ''me'' then 5 else 7"
      "(bare_post 7 ''alice'' ''hi'' 1)
          \<lparr>p_upCount := Some 2, p_downCount := Some 0, p_upWeight := Some 12, p_downWeight := Some 0,
           p_score := Some 12\<rparr>" init_provider 7 "Some Up" "''me''" "[None, Some Down]"]
  by (simp add: omap_ok_def shows_tally_def book_count_def book_weight_def init_provider_def
      EMPTY_OVERLAY_def Let_def)

section \<open>The account vote\<close>

text \<open>The base the chain serves for an account that \<open>me\<close> looks at.\<close>

definition base_of :: "ss58 \<Rightarrow> (ss58 \<Rightarrow> int) \<Rightarrow> book \<Rightarrow> account_vote_base" where
  "base_of me pw b = \<lparr>ab_myVote = map_of b me, ab_upWeight = book_weight Up pw b,
     ab_downWeight = book_weight Down pw b, ab_upCount = book_count Up b, ab_downCount = book_count Down b\<rparr>"

text \<open>
  C3: the rebased account vote is the chain's view after the declared intent lands, for every base the
  chain may be serving; once the base already carries the intent it is the base itself, so an
  intent can stay in place for ever without counting twice.
\<close>

theorem rebaseAccountVote_correct:
  assumes "omap_ok b" and "\<And>a. 0 \<le> pw a" and "ai_weight i = pw me"
  shows "rebaseAccountVote (base_of me pw b) (Some i)
           = baseView (base_of me pw (book_cast me (ai_myVote i) b)) \<and>
         (map_of b me = ai_myVote i \<longrightarrow>
            rebaseAccountVote (base_of me pw b) (Some i) = baseView (base_of me pw b))"
proof -
  have nn: "0 \<le> book_weight d pw (book_cast me (ai_myVote i) b)"
           "0 \<le> book_count d (book_cast me (ai_myVote i) b)"
           "0 \<le> book_weight d pw b" "0 \<le> book_count d b" for d
    by (rule book_nonneg, rule assms(2))+
  show ?thesis
    using nn [of Up] nn [of Down] assms(3)
    by (auto simp: rebaseAccountVote_def base_of_def baseView_def voteDelta_eq Let_def
        book_cast_sum [OF assms(1)])
qed

lemma rebaseAccountVote_correct_witness:
  "rebaseAccountVote (base_of ''me'' (\<lambda>_. 3) [(''bob'', Down), (''me'', Down)])
     (Some \<lparr>ai_myVote = Some Up, ai_weight = 3, ai_inFlight = 1\<rparr>)
   = baseView (base_of ''me'' (\<lambda>_. 3) (book_cast ''me'' (Some Up) [(''bob'', Down), (''me'', Down)]))"
  using rebaseAccountVote_correct [of "[(''bob'', Down), (''me'', Down)]" "\<lambda>_. 3"
      "\<lparr>ai_myVote = Some Up, ai_weight = 3, ai_inFlight = 1\<rparr>" "''me''"]
  by (simp add: omap_ok_def)

section \<open>Pending cards\<close>

lemma pendingKey_inject:
  assumes "CHR 0x0A \<notin> set (p_author a)" and "CHR 0x0A \<notin> set (p_author b)"
  shows "pendingKey a = pendingKey b \<longleftrightarrow> p_author a = p_author b \<and> p_text a = p_text b"
proof
  assume "pendingKey a = pendingKey b"
  then have eq: "p_author a @ CHR 0x0A # p_text a = p_author b @ CHR 0x0A # p_text b"
    by (simp add: pendingKey_def)
  have tw: "takeWhile (\<lambda>c. c \<noteq> CHR 0x0A) (xs @ CHR 0x0A # ys) = xs"
       and dw: "dropWhile (\<lambda>c. c \<noteq> CHR 0x0A) (xs @ CHR 0x0A # ys) = CHR 0x0A # ys"
    if "CHR 0x0A \<notin> set xs" for xs ys :: string
    using that by (induction xs) auto
  show "p_author a = p_author b \<and> p_text a = p_text b"
    using tw [OF assms(1), of "p_text a"] tw [OF assms(2), of "p_text b"]
      dw [OF assms(1), of "p_text a"] dw [OF assms(2), of "p_text b"] eq
    by simp
qed (simp add: pendingKey_def)

lemma applyCountPatch_frame [simp]:
  "p_id (applyCountPatch p cp) = p_id p" "p_author (applyCountPatch p cp) = p_author p"
  "p_text (applyCountPatch p cp) = p_text p" "pendingKey (applyCountPatch p cp) = pendingKey p"
  by (auto simp: applyCountPatch_def pendingKey_def Let_def split: option.split)

text \<open>
  C4: merging the overlay keeps every row of the snapshot once and in its place, with its identity
  untouched, and shows a pending top-level card if and only if no row of the snapshot carries the same
  author and the same text: the hand-off from the optimistic card to the real row neither
  duplicates nor drops a post.
\<close>

theorem mergeFeed_handoff:
  assumes "\<And>p. p \<in> set posts \<Longrightarrow> CHR 0x0A \<notin> set (p_author p)"
    and "\<And>pp. pp \<in> set (ov_pending ov) \<Longrightarrow> CHR 0x0A \<notin> set (p_author (pp_post pp))"
  shows "\<exists>cards rows. mergeFeed posts ov = cards @ rows \<and> map p_id rows = map p_id posts \<and>
     map p_author rows = map p_author posts \<and> map p_text rows = map p_text posts \<and>
     (\<forall>c. c \<in> set cards \<longleftrightarrow>
        (\<exists>pp \<in> set (ov_pending ov). pp_post pp = c \<and> pp_parentId pp = None) \<and>
        \<not> (\<exists>p \<in> set posts. p_author p = p_author c \<and> p_text p = p_text c))"
proof -
  define rows where "rows = map (\<lambda>p. applyCountPatch p (map_of (ov_counts ov) (show_int (p_id p)))) posts"
  define cards where "cards = map pp_post (filter (\<lambda>pp. pendingKey (pp_post pp) \<notin> set (map pendingKey rows))
              (filter (\<lambda>pp. pp_parentId pp = None) (ov_pending ov)))"
  have keys: "set (map pendingKey rows) = pendingKey ` set posts"
    by (auto simp: rows_def)
  have clash: "pendingKey (pp_post pp) \<in> pendingKey ` set posts \<longleftrightarrow>
      (\<exists>p \<in> set posts. p_author p = p_author (pp_post pp) \<and> p_text p = p_text (pp_post pp))"
    if "pp \<in> set (ov_pending ov)" for pp
  proof -
    have "pendingKey (pp_post pp) = pendingKey p \<longleftrightarrow>
        p_author p = p_author (pp_post pp) \<and> p_text p = p_text (pp_post pp)" if "p \<in> set posts" for p
      using pendingKey_inject [of p "pp_post pp"] assms that \<open>pp \<in> set (ov_pending ov)\<close> by auto
    then show ?thesis by (auto simp: image_iff)
  qed
  have "mergeFeed posts ov = cards @ rows"
    by (simp add: mergeFeed_def Let_def cards_def rows_def image_image)
  moreover have "\<forall>c. c \<in> set cards \<longleftrightarrow>
        (\<exists>pp \<in> set (ov_pending ov). pp_post pp = c \<and> pp_parentId pp = None) \<and>
        \<not> (\<exists>p \<in> set posts. p_author p = p_author c \<and> p_text p = p_text c)"
    unfolding cards_def keys using clash by auto
  moreover have "map p_id rows = map p_id posts" "map p_author rows = map p_author posts"
    "map p_text rows = map p_text posts" by (simp_all add: rows_def)
  ultimately show ?thesis by blast
qed


lemma mergeFeed_handoff_witness:
  "\<exists>cards rows. mergeFeed [bare_post 7 ''alice'' ''hi'' 1]
       (EMPTY_OVERLAY\<lparr>ov_pending := [\<lparr>pp_clientId = ''pending-0'',
          pp_post = bare_post (- 1) ''alice'' ''new'' 1, pp_parentId = None\<rparr>]\<rparr>) = cards @ rows \<and>
     map p_id rows = [7] \<and> bare_post (- 1) ''alice'' ''new'' 1 \<in> set cards"
proof -
  let ?ov = "EMPTY_OVERLAY\<lparr>ov_pending := [\<lparr>pp_clientId = ''pending-0'',
          pp_post = bare_post (- 1) ''alice'' ''new'' 1, pp_parentId = None\<rparr>]\<rparr>"
  have "CHR 0x0A \<notin> set (p_author p)" if "p \<in> set [bare_post 7 ''alice'' ''hi'' 1]" for p
    using that by simp
  moreover have "CHR 0x0A \<notin> set (p_author (pp_post pp))" if "pp \<in> set (ov_pending ?ov)" for pp
    using that by simp
  ultimately obtain cards rows
    where "mergeFeed [bare_post 7 ''alice'' ''hi'' 1] ?ov = cards @ rows"
      and "map p_id rows = map p_id [bare_post 7 ''alice'' ''hi'' 1]"
      and "\<forall>c. c \<in> set cards \<longleftrightarrow>
        (\<exists>pp \<in> set (ov_pending ?ov). pp_post pp = c \<and> pp_parentId pp = None) \<and>
        \<not> (\<exists>p \<in> set [bare_post 7 ''alice'' ''hi'' 1]. p_author p = p_author c \<and> p_text p = p_text c)"
    using mergeFeed_handoff [of "[bare_post 7 ''alice'' ''hi'' 1]" ?ov] by blast
  then show ?thesis by (intro exI [of _ cards] exI [of _ rows]) simp
qed

section \<open>Profile patches\<close>

lemma normProfileField_or_undefined [simp]:
  "normProfileField (or_undefined (normProfileField x)) = normProfileField x"
  by (simp add: normProfileField_def or_undefined_def)

text \<open>
  A confirmed profile patch retires without a flash.  The record the chain serves once the write
  has landed settles the patch, and whenever a patch is settled, dropping it leaves each of the six
  fields as the patched view showed it.
\<close>

lemma profilePatch_settles_without_flash:
  assumes "pf_expected p = Some True"
  shows "profilePatchSettled (applyProfilePatch view (Some p)) (Some p) \<and>
    (profilePatchSettled view (Some p) \<longrightarrow>
       (\<forall>f \<in> {pr_displayName, pr_bio, pr_avatar, pr_banner, pr_location, pr_website}.
          normProfileField (f (applyProfilePatch view (Some p))) = normProfileField (f view)))"
  using assms by (simp add: profilePatchSettled_def applyProfilePatch_def)

lemma profilePatch_settles_without_flash_witness:
  "profilePatchSettled
     (applyProfilePatch \<lparr>pr_author = Some ''a'', pr_identityHash = None, pr_postCount = 0, pr_banned = False,
        pr_weight = None, pr_displayName = Some ''old'', pr_bio = None, pr_avatar = None, pr_banner = None,
        pr_location = None, pr_website = None, pr_pinnedPostId = None, pr_followerCount = None,
        pr_followingCount = None, pr_observedRoles = None,
        pr_page = \<lparr>fp_posts = [], fp_endCursor = None, fp_hasNextPage = False, fp_totalCount = None, fp_asOf = None\<rparr>\<rparr>
        (Some \<lparr>pf_displayName = '' new '', pf_bio = [], pf_avatar = [], pf_banner = [], pf_location = [],
           pf_website = [], pf_expected = Some True\<rparr>))
     (Some \<lparr>pf_displayName = '' new '', pf_bio = [], pf_avatar = [], pf_banner = [], pf_location = [],
           pf_website = [], pf_expected = Some True\<rparr>)"
  using profilePatch_settles_without_flash [of "\<lparr>pf_displayName = '' new '', pf_bio = [], pf_avatar = [],
      pf_banner = [], pf_location = [], pf_website = [], pf_expected = Some True\<rparr>"]
  by simp

section \<open>The provider as a state machine\<close>

inductive provider_step :: "provider \<Rightarrow> provider \<Rightarrow> bool" where
  st_addPending: "provider_step s (snd (addPending post par s))"
| st_dropPending: "provider_step s (dropPending c s)"
| st_failPending: "provider_step s (failPending c s)"
| st_vote: "provider_step s (doVote online w pid current nxt s)"
| st_clearPost: "provider_step s (clearPost pid s)"
| st_confirmPost: "provider_step s (confirmPost pid s)"
| st_confirmTimer: "provider_step s (confirmTimerFires pid s)"
| st_patchProfile: "provider_step s (patchProfile who patch s)"
| st_confirmProfile: "provider_step s (confirmProfile who s)"
| st_rollbackProfile: "provider_step s (rollbackProfile who s)"
| st_reconcileProfile: "provider_step s (reconcileProfile who view s)"
| st_profileTimer: "provider_step s (profileTimerFires who s)"

inductive provider_reachable :: "provider \<Rightarrow> bool" where
  provider_start: "provider_reachable init_provider"
| provider_next: "provider_reachable s \<Longrightarrow> provider_step s t \<Longrightarrow> provider_reachable t"

text \<open>
  The invariant: the dictionaries have one entry per key, the client ids of the pending cards are
  distinct and below the counter, and every patch flagged \<open>expected\<close> has its timer armed.
\<close>

definition provider_inv :: "provider \<Rightarrow> bool" where
  "provider_inv s \<longleftrightarrow>
     omap_ok (ov_counts (pv_overlay s)) \<and> omap_ok (ov_viewer (pv_overlay s)) \<and>
     omap_ok (ov_profiles (pv_overlay s)) \<and>
     distinct (map pp_clientId (ov_pending (pv_overlay s))) \<and>
     (\<forall>pp \<in> set (ov_pending (pv_overlay s)). \<exists>n < pv_seq s. pp_clientId pp = ''pending-'' @ show_nat n) \<and>
     (\<forall>k p. map_of (ov_viewer (pv_overlay s)) k = Some p \<longrightarrow> vp_expected p = Some True \<longrightarrow>
        k \<in> set (pv_confirmTimers s)) \<and>
     (\<forall>k p. map_of (ov_profiles (pv_overlay s)) k = Some p \<longrightarrow> pf_expected p = Some True \<longrightarrow>
        k \<in> set (pv_profileTimers s))"

lemma show_nat_inject [simp]: "show_nat m = show_nat n \<longleftrightarrow> m = n"
  by (metis parse_show_nat)

lemma provider_inv_init: "provider_inv init_provider"
  by (simp add: provider_inv_def init_provider_def EMPTY_OVERLAY_def)

lemma provider_inv_addPending: "provider_inv s \<Longrightarrow> provider_inv (snd (addPending post par s))"
  by (fastforce simp: provider_inv_def addPending_def Let_def less_Suc_eq)

lemma provider_inv_drop:
  "provider_inv s \<Longrightarrow> provider_inv (dropPending c s)"
  "provider_inv s \<Longrightarrow> provider_inv (failPending c s)"
  by (auto simp: provider_inv_def dropPending_def failPending_def Let_def distinct_map_filter)

lemma provider_inv_patch:
  "provider_inv s \<Longrightarrow> provider_inv (patchCounts pid cp s)"
  "provider_inv s \<Longrightarrow> vp_expected vp = None \<Longrightarrow> provider_inv (patchViewer pid vp s)"
  by (auto simp: provider_inv_def patchCounts_def patchViewer_def spread_viewer_def Let_def
      split: option.splits)

lemma provider_inv_doVote: "provider_inv s \<Longrightarrow> provider_inv (doVote online w pid current nxt s)"
  by (simp add: doVote_def provider_inv_patch)

lemma provider_inv_clearPost: "provider_inv s \<Longrightarrow> provider_inv (clearPost pid s)"
  by (auto simp: provider_inv_def clearPost_def Let_def)

lemma provider_inv_confirmPost: "provider_inv s \<Longrightarrow> provider_inv (confirmPost pid s)"
  by (auto simp: provider_inv_def confirmPost_def Let_def split: option.splits)

lemma confirmTimerFires_eq:
  "confirmTimerFires pid s = (if show_int pid \<in> set (pv_confirmTimers s) then clearPost pid s else s)"
  by (simp add: confirmTimerFires_def clearPost_def Let_def)

lemma provider_inv_clearProfilePatch: "provider_inv s \<Longrightarrow> provider_inv (clearProfilePatch who s)"
  by (auto simp: provider_inv_def clearProfilePatch_def Let_def split: if_splits)

lemma profileTimerFires_eq:
  "profileTimerFires who s = (if who \<in> set (pv_profileTimers s) then clearProfilePatch who s else s)"
  by (simp add: profileTimerFires_def clearProfilePatch_def Let_def)

lemma provider_inv_patchProfile: "provider_inv s \<Longrightarrow> provider_inv (patchProfile who p s)"
  by (auto simp: provider_inv_def patchProfile_def Let_def split: if_splits)

lemma provider_inv_confirmProfile: "provider_inv s \<Longrightarrow> provider_inv (confirmProfile who s)"
  by (auto simp: provider_inv_def confirmProfile_def Let_def split: option.splits)

lemma provider_inv_step: "provider_step s t \<Longrightarrow> provider_inv s \<Longrightarrow> provider_inv t"
  by (induction rule: provider_step.induct)
    (simp_all add: provider_inv_addPending provider_inv_drop provider_inv_doVote provider_inv_clearPost
      provider_inv_confirmPost confirmTimerFires_eq profileTimerFires_eq provider_inv_clearProfilePatch
      provider_inv_patchProfile provider_inv_confirmProfile rollbackProfile_def reconcileProfile_def)

lemma provider_reachable_inv: "provider_reachable s \<Longrightarrow> provider_inv s"
  by (induction rule: provider_reachable.induct) (auto intro: provider_inv_init provider_inv_step)

text \<open>
  C5: a confirmed optimistic vote can never be stuck on screen.  In every state the provider can
  reach, a viewer patch flagged as confirmed has its time-to-live timer armed, and that timer's firing
  removes the patch and the count delta of that post and touches no other post.
\<close>

theorem confirmed_vote_never_wedges:
  assumes "provider_reachable s" and "map_of (ov_viewer (pv_overlay s)) (show_int pid) = Some p"
    and "vp_expected p = Some True"
  shows "show_int pid \<in> set (pv_confirmTimers s) \<and>
    map_of (ov_viewer (pv_overlay (confirmTimerFires pid s))) (show_int pid) = None \<and>
    map_of (ov_counts (pv_overlay (confirmTimerFires pid s))) (show_int pid) = None \<and>
    (\<forall>q. q \<noteq> pid \<longrightarrow>
       map_of (ov_viewer (pv_overlay (confirmTimerFires pid s))) (show_int q)
         = map_of (ov_viewer (pv_overlay s)) (show_int q) \<and>
       map_of (ov_counts (pv_overlay (confirmTimerFires pid s))) (show_int q)
         = map_of (ov_counts (pv_overlay s)) (show_int q))"
proof -
  have armed: "show_int pid \<in> set (pv_confirmTimers s)"
    using provider_reachable_inv [OF assms(1)] assms(2,3) unfolding provider_inv_def by blast
  then show ?thesis by (simp add: confirmTimerFires_eq clearPost_def Let_def)
qed

lemma confirmed_vote_never_wedges_witness:
  "show_int 7 \<in> set (pv_confirmTimers
     (confirmPost 7 (doVote True 5 7 \<lparr>vs_myVote = None\<rparr> (Some Up) init_provider)))"
proof -
  let ?s = "confirmPost 7 (doVote True 5 7 \<lparr>vs_myVote = None\<rparr> (Some Up) init_provider)"
  have "provider_reachable ?s"
    by (rule provider_next [OF provider_next [OF provider_start st_vote] st_confirmPost])
  moreover have "map_of (ov_viewer (pv_overlay ?s)) (show_int 7)
      = Some \<lparr>vp_myVote = Some (Some Up), vp_expected = Some True\<rparr>"
    by (simp add: doVote_def confirmPost_def patchCounts_def patchViewer_def spread_viewer_def Let_def
        init_provider_def EMPTY_OVERLAY_def)
  ultimately show ?thesis using confirmed_vote_never_wedges [of ?s 7] by simp
qed

text \<open>
  A re-vote inherits the confirmation of the vote it replaces.  After a vote is confirmed, voting
  again leaves the new, still pending vote flagged \<open>expected\<close>, so a read that predates it (here:
  one that still shows no vote, while the pending action is to clear the vote) already counts it as settled.
\<close>

lemma revote_inherits_confirmation:
  assumes "map_of (ov_viewer (pv_overlay s)) (show_int pid) = None"
  shows "\<exists>p. map_of (ov_viewer (pv_overlay
           (doVote True w pid \<lparr>vs_myVote = Some Up\<rparr> None
             (confirmPost pid (doVote True w pid \<lparr>vs_myVote = None\<rparr> (Some Up) s))))) (show_int pid) = Some p \<and>
         vp_expected p = Some True \<and> viewerPatchSettled NO_VIEWER (Some p)"
  using assms
  by (simp add: doVote_def confirmPost_def patchCounts_def patchViewer_def spread_viewer_def Let_def
      viewerPatchSettled_def NO_VIEWER_def)

lemma revote_inherits_confirmation_witness:
  "\<exists>p. map_of (ov_viewer (pv_overlay
           (doVote True 5 7 \<lparr>vs_myVote = Some Up\<rparr> None
             (confirmPost 7 (doVote True 5 7 \<lparr>vs_myVote = None\<rparr> (Some Up) init_provider))))) (show_int 7) = Some p \<and>
         viewerPatchSettled NO_VIEWER (Some p)"
  using revote_inherits_confirmation [of init_provider 7 5]
  by (auto simp: init_provider_def EMPTY_OVERLAY_def)

text \<open>
  Confirming a vote keeps its optimistic count delta: it stays until the patches of the post are
  cleared together.
\<close>

lemma confirmPost_keeps_counts:
  "ov_counts (pv_overlay (confirmPost pid s)) = ov_counts (pv_overlay s)"
  by (simp add: confirmPost_def Let_def split: option.split)

end
