(* ===== verification/Denylist.thy ===== *)
theory Denylist
  imports Cogno_Types Device_Store Routes
begin

text \<open>
  The operator's serve lever: the two lists of \<open>app/src/lib/config/denylist.ts\<close> (from the build and from the file
  fetched at boot) and the wrapper \<open>feed/denylist-source.ts\<close> that applies them to every read of the feed source;
  then what a card, a quote box, a list and a mention show of a denied account.

  A feed source is a record with one field per method; a read that rejects is \<open>Inl\<close>.  The reads that a single call of
  a wrapped method makes are answered by the same source.  The ss58 codec is the parameter \<open>ss58_lib\<close>.
\<close>

section \<open>The lists\<close>

definition SS58_SHAPE :: "ustring \<Rightarrow> bool" where
  "SS58_SHAPE s \<longleftrightarrow> 44 \<le> length s \<and> length s \<le> 49 \<and> list_all base58 s"

definition POST_ID_SHAPE :: "ustring \<Rightarrow> bool" where
  "POST_ID_SHAPE s = (case s of [] \<Rightarrow> False
     | c # cs \<Rightarrow> s = [48] \<or> 49 \<le> c \<and> c \<le> 57 \<and> list_all (\<lambda>d. 48 \<le> d \<and> d \<le> 57) cs)"

definition parseList :: "ustring \<Rightarrow> ustring list" where
  "parseList env = filter (\<lambda>s. 0 < length s) (map utrim (split_on 44 env))"

text \<open>A malformed entry fails a production build and is dropped in development.\<close>

definition validated :: "bool \<Rightarrow> ustring list \<Rightarrow> (ustring \<Rightarrow> bool) \<Rightarrow> (ustring \<Rightarrow> ustring option) \<Rightarrow> ustring list option" where
  "validated production entries shape extra =
     (let bad = filter (\<lambda>e. \<not> shape e \<or> extra e \<noteq> None) entries
      in if bad \<noteq> [] \<and> production then None else Some (filter (\<lambda>e. shape e \<and> extra e = None) entries))"

definition ss58Problem :: "ss58_lib \<Rightarrow> ustring \<Rightarrow> ustring option" where
  "ss58Problem lib entry = (case normalizeSs58 lib (Some entry) of
     None \<Rightarrow> Some (ascii ''not a valid ss58 address'')
   | Some canonical \<Rightarrow> if canonical \<noteq> entry then Some (ascii ''wrong network prefix, use '' @ canonical) else None)"

record denylist =
  DENIED_AUTHORS :: "ustring list"
  DENIED_POSTS :: "ustring list"
  loadOnce :: bool

definition build_denylist :: "ss58_lib \<Rightarrow> bool \<Rightarrow> ustring \<Rightarrow> ustring \<Rightarrow> denylist option" where
  "build_denylist lib production env_authors env_posts =
     (case validated production (parseList env_authors) SS58_SHAPE (ss58Problem lib) of
        None \<Rightarrow> None
      | Some authors \<Rightarrow> (case validated production (parseList env_posts) POST_ID_SHAPE (\<lambda>_. None) of
          None \<Rightarrow> None
        | Some posts \<Rightarrow> Some \<lparr>DENIED_AUTHORS = authors, DENIED_POSTS = posts, loadOnce = False\<rparr>))"

definition denylistEmpty :: "denylist \<Rightarrow> bool" where
  "denylistEmpty d \<longleftrightarrow> DENIED_AUTHORS d = [] \<and> DENIED_POSTS d = []"

section \<open>The file fetched at boot\<close>

text \<open>\<open>typeof e === "string"\<close>, then trimmed and without blanks.\<close>

definition asStringList :: "json option \<Rightarrow> ustring list" where
  "asStringList v = (case v of
     Some (JArr es) \<Rightarrow> filter (\<lambda>s. s \<noteq> []) (List.map_filter (\<lambda>e. case e of JStr s \<Rightarrow> Some (utrim s) | _ \<Rightarrow> None) es)
   | _ \<Rightarrow> [])"

definition validatedAtRuntime :: "ustring list \<Rightarrow> (ustring \<Rightarrow> bool) \<Rightarrow> ustring list" where
  "validatedAtRuntime entries shape = filter shape entries"

definition canonicalAuthorsAtRuntime :: "ss58_lib \<Rightarrow> ustring list \<Rightarrow> ustring list" where
  "canonicalAuthorsAtRuntime lib entries =
     List.map_filter (\<lambda>e. if SS58_SHAPE e then normalizeSs58 lib (Some e) else None) entries"

text \<open>The answer of the fetch: it failed or its body is not JSON, it has a status that is not OK, or a value.\<close>

datatype response = Unreadable | Status nat | Body json

text \<open>A property of the parsed file: of an object its last field of that name, of \<open>null\<close> a throw, otherwise absent.\<close>

fun json_field :: "string \<Rightarrow> json \<Rightarrow> json option" where
  "json_field k (JObj fs) = map_of (rev fs) (ascii k)"
| "json_field k _ = None"

text \<open>The module loads the file once, in the browser only; what it reads is added to the sets of the build.\<close>

definition loadServeDenylist :: "ss58_lib \<Rightarrow> bool \<Rightarrow> response \<Rightarrow> denylist \<Rightarrow> denylist" where
  "loadServeDenylist lib in_browser res d =
     (if loadOnce d then d
      else
        let d = d\<lparr>loadOnce := True\<rparr>
        in if \<not> in_browser then d
           else case res of
             Body JNull \<Rightarrow> d
           | Body file \<Rightarrow>
               d\<lparr>DENIED_AUTHORS := DENIED_AUTHORS d @ canonicalAuthorsAtRuntime lib (asStringList (json_field ''authors'' file)),
                 DENIED_POSTS := DENIED_POSTS d @ validatedAtRuntime (asStringList (json_field ''posts'' file)) POST_ID_SHAPE\<rparr>
           | _ \<Rightarrow> d)"

section \<open>The predicates\<close>

type_synonym canonical_cache = "(ustring, ustring option) omap"

definition canonicalSs58 :: "ss58_lib \<Rightarrow> ustring \<Rightarrow> canonical_cache \<Rightarrow> ustring option \<times> canonical_cache" where
  "canonicalSs58 lib address memo =
     (case map_of memo address of
        Some hit \<Rightarrow> (hit, memo)
      | None \<Rightarrow>
          let canonical = normalizeSs58 lib (Some address)
          in (canonical, omap_set address canonical (if 1024 \<le> length memo then [] else memo)))"

text \<open>The memo only saves decodes: the predicate below uses the answer it caches.\<close>

definition isDeniedAuthor :: "ss58_lib \<Rightarrow> denylist \<Rightarrow> ss58 option \<Rightarrow> bool" where
  "isDeniedAuthor lib d addr = (case addr of
     None \<Rightarrow> False
   | Some a \<Rightarrow>
       let address = ascii a
       in if DENIED_AUTHORS d = [] then False
          else if address \<in> set (DENIED_AUTHORS d) then True
          else case normalizeSs58 lib (Some address) of
                 None \<Rightarrow> False
               | Some canonical \<Rightarrow> canonical \<noteq> address \<and> canonical \<in> set (DENIED_AUTHORS d))"

definition isDeniedPost :: "denylist \<Rightarrow> int option \<Rightarrow> bool" where
  "isDeniedPost d i = (case i of None \<Rightarrow> False | Some i \<Rightarrow> ascii (show_int i) \<in> set (DENIED_POSTS d))"

definition isDenied :: "ss58_lib \<Rightarrow> denylist \<Rightarrow> int \<Rightarrow> ss58 \<Rightarrow> bool" where
  "isDenied lib d i a \<longleftrightarrow> isDeniedPost d (Some i) \<or> isDeniedAuthor lib d (Some a)"

section \<open>The feed source and its wrapper\<close>

datatype feed_tab = ForYou | FollowingTab | RepliesTab | LikesTab

record feed_query =
  fq_first :: "nat option"
  fq_after :: "string option"
  fq_search :: "string option"
  fq_authorId :: "ss58 option"
  fq_tab :: "feed_tab option"
  fq_followeeOf :: "ss58 option"
  fq_topic :: "string option"
  fq_role :: "role_kind option"
  fq_members :: "ss58 list option"
  fq_maxHops :: "nat option"
  fq_viewer :: "ss58 option"

record profile_args =
  pg_author :: "ss58 option"
  pg_identityHash :: "string option"
  pg_tab :: "feed_tab option"
  pg_viewer :: "ss58 option"

record replies_page =
  rp_posts :: "cogno_post list"
  rp_nextCursor :: "nat option"

record poll_choices =
  pc_labels :: "string list"
  pc_choices :: "(ss58, nat) omap"

record poll_roster =
  pr_voters :: "(ss58 \<times> nat) list"
  pr_labels :: "string list"
  pr_truncated :: bool

record voters_page =
  vg_voters :: "(ss58 \<times> nat) list"
  vg_nextCursor :: "string option"
  vg_labels :: "string list option"

record 'e feed_source =
  liveHeadId :: "int option"
  page :: "feed_query \<Rightarrow> 'e + feed_page"
  thread :: "int \<Rightarrow> ss58 option \<Rightarrow> 'e + thread_view"
  repliesPage :: "int \<Rightarrow> nat option \<Rightarrow> nat \<Rightarrow> ss58 option \<Rightarrow> 'e + replies_page"
  profile :: "profile_args \<Rightarrow> 'e + profile_view"
  poll :: "int \<Rightarrow> 'e + poll_view"
  viewerPollChoice :: "int \<Rightarrow> ss58 \<Rightarrow> 'e + nat option"
  pollChoices :: "int \<Rightarrow> ss58 list \<Rightarrow> 'e + poll_choices"
  pollVoters :: "int \<Rightarrow> 'e + poll_roster"
  pollVoterTotals :: "int \<Rightarrow> 'e + (string \<times> nat) list"
  pollVotersPage :: "int \<Rightarrow> string option \<Rightarrow> nat option \<Rightarrow> 'e + voters_page"
  viewerPostState :: "int \<Rightarrow> ss58 \<Rightarrow> 'e + viewer_post_state"
  followEdges :: "ss58 \<Rightarrow> 'e + follow_edges"
  whoToFollow :: "ss58 option \<Rightarrow> nat \<Rightarrow> 'e + suggestion list"
  searchPeople :: "string \<Rightarrow> nat \<Rightarrow> 'e + suggestion list"

definition MAX_TOP_UP :: nat where "MAX_TOP_UP = 3"

definition filterDenied :: "ss58_lib \<Rightarrow> denylist \<Rightarrow> cogno_post list \<Rightarrow> cogno_post list" where
  "filterDenied lib d posts = filter (\<lambda>p. \<not> isDenied lib d (p_id p) (p_author p)) posts"

text \<open>A page the list emptied is followed by the next one, with the hops that are left.\<close>

fun top_up :: "ss58_lib \<Rightarrow> denylist \<Rightarrow> (feed_query \<Rightarrow> 'e + feed_page) \<Rightarrow> feed_query \<Rightarrow> nat \<Rightarrow> feed_page \<Rightarrow> 'e + feed_page" where
  "top_up lib d read q hops pg =
     (if fp_posts pg \<noteq> [] \<and> filterDenied lib d (fp_posts pg) = [] \<and> fp_hasNextPage pg \<and>
         fp_endCursor pg \<noteq> None \<and> fp_endCursor pg \<noteq> Some [] \<and> 0 < hops
      then case read (q\<lparr>fq_after := fp_endCursor pg\<rparr>) of
             Inl e \<Rightarrow> Inl e
           | Inr pg' \<Rightarrow> top_up lib d read q (hops - 1) pg'
      else Inr pg)"

declare top_up.simps [simp del]

definition served_page :: "ss58_lib \<Rightarrow> denylist \<Rightarrow> (feed_query \<Rightarrow> 'e + feed_page) \<Rightarrow> feed_query \<Rightarrow> 'e + feed_page" where
  "served_page lib d read q = (case read q of
     Inl e \<Rightarrow> Inl e
   | Inr pg \<Rightarrow> map_sum id (\<lambda>pg.
       let kept = filterDenied lib d (fp_posts pg)
       in pg\<lparr>fp_posts := kept, fp_totalCount := map_option (\<lambda>_. int (length kept)) (fp_totalCount pg)\<rparr>)
       (top_up lib d read q MAX_TOP_UP pg))"

definition served_thread :: "ss58_lib \<Rightarrow> denylist \<Rightarrow> thread_view \<Rightarrow> thread_view" where
  "served_thread lib d t =
     (let replies = filterDenied lib d (t_replies t)
      in t\<lparr>t_ancestors := filterDenied lib d (t_ancestors t), t_replies := replies,
           t_parent := (case t_parent t of Some q \<Rightarrow> if isDenied lib d (q_id q) (q_author q) then None else Some q | None \<Rightarrow> None),
           t_replyCount := max 0 (t_replyCount t - (int (length (t_replies t)) - int (length replies)))\<rparr>)"

definition no_profile :: "string option \<Rightarrow> profile_view" where
  "no_profile identityHash = \<lparr>pr_author = None, pr_identityHash = identityHash, pr_postCount = 0, pr_banned = False, pr_weight = None,
     pr_displayName = None, pr_bio = None, pr_avatar = None, pr_banner = None, pr_location = None, pr_website = None,
     pr_pinnedPostId = None, pr_followerCount = None, pr_followingCount = None, pr_observedRoles = None,
     pr_page = \<lparr>fp_posts = [], fp_endCursor = None, fp_hasNextPage = False, fp_totalCount = Some 0, fp_asOf = None\<rparr>\<rparr>"

definition served_profile :: "ss58_lib \<Rightarrow> denylist \<Rightarrow> profile_view \<Rightarrow> profile_view" where
  "served_profile lib d p =
     (if isDeniedAuthor lib d (pr_author p) then no_profile None
      else p\<lparr>pr_page := (pr_page p)\<lparr>fp_posts := filterDenied lib d (fp_posts (pr_page p))\<rparr>\<rparr>)"

definition served_poll :: "denylist \<Rightarrow> int \<Rightarrow> poll_view \<Rightarrow> poll_view" where
  "served_poll d hostId p =
     (if isDeniedPost d (Some hostId) then p\<lparr>pv_options := [], pv_totalWeight := 0, pv_totalCount := 0\<rparr> else p)"

definition served_choices ::
  "ss58_lib \<Rightarrow> denylist \<Rightarrow> (int \<Rightarrow> ss58 list \<Rightarrow> 'e + poll_choices) \<Rightarrow> int \<Rightarrow> ss58 list \<Rightarrow> 'e + poll_choices" where
  "served_choices lib d read hostId authors =
     (if isDeniedPost d (Some hostId) then Inr \<lparr>pc_labels = [], pc_choices = []\<rparr>
      else map_sum id (\<lambda>c. c\<lparr>pc_choices := filter (\<lambda>(a, _). \<not> isDeniedAuthor lib d (Some a)) (pc_choices c)\<rparr>)
             (read hostId (filter (\<lambda>a. \<not> isDeniedAuthor lib d (Some a)) authors)))"

definition withServeDenylist :: "ss58_lib \<Rightarrow> denylist \<Rightarrow> 'e feed_source \<Rightarrow> 'e feed_source" where
  "withServeDenylist lib d source =
     (let author_ok = (\<lambda>a. \<not> isDeniedAuthor lib d (Some a)); host_denied = (\<lambda>h. isDeniedPost d (Some h))
      in \<lparr>liveHeadId = liveHeadId source,
          page = served_page lib d (page source),
          thread = (\<lambda>rootId viewer. map_sum id (served_thread lib d) (thread source rootId viewer)),
          repliesPage = (\<lambda>parent beforeSeq limit viewer.
            map_sum id (\<lambda>pg. pg\<lparr>rp_posts := filterDenied lib d (rp_posts pg)\<rparr>) (repliesPage source parent beforeSeq limit viewer)),
          profile = (\<lambda>args. map_sum id (served_profile lib d) (profile source args)),
          poll = (\<lambda>hostId. map_sum id (served_poll d hostId) (poll source hostId)),
          viewerPollChoice = viewerPollChoice source,
          pollChoices = served_choices lib d (pollChoices source),
          pollVoters = (\<lambda>hostId. if host_denied hostId then Inr \<lparr>pr_voters = [], pr_labels = [], pr_truncated = False\<rparr>
            else map_sum id (\<lambda>r. r\<lparr>pr_voters := filter (\<lambda>(who, _). author_ok who) (pr_voters r)\<rparr>) (pollVoters source hostId)),
          pollVoterTotals = (\<lambda>hostId. if host_denied hostId then Inr [] else pollVoterTotals source hostId),
          pollVotersPage = (\<lambda>hostId after limit. if host_denied hostId
            then Inr \<lparr>vg_voters = [], vg_nextCursor = None, vg_labels = Some []\<rparr>
            else map_sum id (\<lambda>g. g\<lparr>vg_voters := filter (\<lambda>(who, _). author_ok who) (vg_voters g)\<rparr>) (pollVotersPage source hostId after limit)),
          viewerPostState = viewerPostState source,
          followEdges = (\<lambda>whoId. map_sum id (\<lambda>e. e\<lparr>fe_followers := filter author_ok (fe_followers e),
            fe_following := filter author_ok (fe_following e)\<rparr>) (followEdges source whoId)),
          whoToFollow = (\<lambda>who limit. map_sum id (filter (\<lambda>s. author_ok (sg_author s))) (whoToFollow source who limit)),
          searchPeople = (\<lambda>q limit. map_sum id (filter (\<lambda>s. author_ok (sg_author s))) (searchPeople source q limit))\<rparr>)"

section \<open>The cards\<close>

text \<open>
  A served post may quote a denied one, and the focal post of a thread is not dropped: \<open>components/PostCard.tsx\<close> and
  \<open>components/QuotedPostEmbed.tsx\<close> draw a stub instead.  What the viewer blocked, muted, hid or opened is the state of the card.
\<close>

datatype quote_box = QuoteUnavailable | QuoteBlocked | QuoteHidden | QuoteBox quoted_ref

definition QuotedPostEmbed :: "ss58_lib \<Rightarrow> denylist \<Rightarrow> bool \<Rightarrow> bool \<Rightarrow> bool \<Rightarrow> quoted_ref \<Rightarrow> quote_box" where
  "QuotedPostEmbed lib d unavailable qblocked qhidden quoted =
     (let missing = unavailable \<or> utrim (ascii (q_text quoted)) = [] \<and> q_author quoted = [] \<or>
            isDenied lib d (q_id quoted) (q_author quoted)
      in if missing then QuoteUnavailable
         else if qblocked then QuoteBlocked
         else if qhidden then QuoteHidden
         else QuoteBox quoted)"

record card_state =
  cs_pending :: bool
  cs_blocked :: bool
  cs_muted :: bool
  cs_own :: bool
  cs_detail :: bool
  cs_revealed :: bool
  cs_quoteBlocked :: bool
  cs_quoteHidden :: bool

datatype post_card = CardUnavailable | CardBlocked | CardMuted | Card cogno_post "quote_box option"

definition PostCard :: "ss58_lib \<Rightarrow> denylist \<Rightarrow> card_state \<Rightarrow> cogno_post \<Rightarrow> post_card" where
  "PostCard lib d cs post =
     (if isDenied lib d (p_id post) (p_author post) \<and> \<not> cs_pending cs then CardUnavailable
      else if cs_blocked cs \<and> \<not> cs_own cs \<and> \<not> cs_pending cs then CardBlocked
      else if cs_muted cs \<and> \<not> cs_detail cs \<and> \<not> cs_own cs \<and> \<not> cs_pending cs \<and> \<not> cs_revealed cs then CardMuted
      else Card post (map_option (QuotedPostEmbed lib d False (cs_quoteBlocked cs) (cs_quoteHidden cs)) (p_quote post)))"

text \<open>The accounts whose name and text a card draws.\<close>

fun drawn :: "post_card \<Rightarrow> ss58 list" where
  "drawn (Card p q) = p_author p # (case q of Some (QuoteBox r) \<Rightarrow> [q_author r] | _ \<Rightarrow> [])"
| "drawn _ = []"

text \<open>The list filter of the surfaces, \<open>hooks/useModeration.ts\<close>.\<close>

definition filterModerated :: "ss58_lib \<Rightarrow> denylist \<Rightarrow> cogno_post list \<Rightarrow> ustring list \<Rightarrow> ustring list \<Rightarrow> cogno_post list" where
  "filterModerated lib d posts blocked_set hidden_set =
     filter (\<lambda>p. ascii (p_author p) \<notin> set blocked_set \<and> ascii (show_int (p_id p)) \<notin> set hidden_set \<and>
       \<not> isDenied lib d (p_id p) (p_author p)) posts"

text \<open>
  The name and avatar that a mention inside another post and a hover card draw (\<open>hooks/useAccountProfile.tsx\<close>); the row of
  the profile pallet, decoded, is \<open>read_row\<close>.
\<close>

record account_profile =
  ap_displayName :: "string option"
  ap_avatar :: "string option"

definition readAccountProfile :: "ss58_lib \<Rightarrow> denylist \<Rightarrow> (ss58 \<Rightarrow> account_profile) \<Rightarrow> ss58 \<Rightarrow> account_profile" where
  "readAccountProfile lib d read_row account =
     (if isDeniedAuthor lib d (Some account) then \<lparr>ap_displayName = None, ap_avatar = None\<rparr> else read_row account)"

lemma PostCard_drawn:
  "\<not> cs_pending cs \<Longrightarrow> a \<in> set (drawn (PostCard lib d cs p)) \<Longrightarrow> \<not> isDeniedAuthor lib d (Some a)"
  by (cases "p_quote p") (auto simp: PostCard_def QuotedPostEmbed_def isDenied_def Let_def split: if_splits)

section \<open>What the wrapper promises\<close>

fun on_answer :: "('a \<Rightarrow> bool) \<Rightarrow> 'e + 'a \<Rightarrow> bool" where
  "on_answer P (Inl e) = True"
| "on_answer P (Inr x) = P x"

lemma on_answer_map [simp]: "on_answer P (map_sum id f r) = on_answer (P \<circ> f) r"
  by (cases r) simp_all

lemma on_answer_mono: "on_answer P r \<Longrightarrow> (\<And>x. P x \<Longrightarrow> Q x) \<Longrightarrow> on_answer Q r"
  by (cases r) simp_all

lemma on_answer_all: "(\<And>x. P x) \<Longrightarrow> on_answer P r"
  by (cases r) simp_all

text \<open>
  The contract of a source that withholds posts and accounts: no list it answers with holds one of them.  The focal
  post of a thread is not part of it, which the card layer replaces by a stub.
\<close>

locale withholding =
  fixes src :: "'e feed_source" and ok_post :: "int \<Rightarrow> ss58 \<Rightarrow> bool" and ok_author :: "ss58 \<Rightarrow> bool"
  assumes page: "on_answer (\<lambda>pg. \<forall>p \<in> set (fp_posts pg). ok_post (p_id p) (p_author p)) (page src q)"
    and thread: "on_answer (\<lambda>t. \<forall>p \<in> set (t_ancestors t @ t_replies t). ok_post (p_id p) (p_author p)) (thread src rootId viewer)"
    and parent: "on_answer (\<lambda>t. \<forall>r. t_parent t = Some r \<longrightarrow> ok_post (q_id r) (q_author r)) (thread src rootId viewer)"
    and replies: "on_answer (\<lambda>g. \<forall>p \<in> set (rp_posts g). ok_post (p_id p) (p_author p)) (repliesPage src parentId beforeSeq limit viewer)"
    and profile: "on_answer (\<lambda>p. (\<forall>a. pr_author p = Some a \<longrightarrow> ok_author a) \<and>
       (\<forall>r \<in> set (fp_posts (pr_page p)). ok_post (p_id r) (p_author r))) (profile src args)"
    and people: "on_answer (\<lambda>ss. \<forall>s \<in> set ss. ok_author (sg_author s)) (searchPeople src text limit)"
    and suggested: "on_answer (\<lambda>ss. \<forall>s \<in> set ss. ok_author (sg_author s)) (whoToFollow src who limit)"
    and edges: "on_answer (\<lambda>e. \<forall>a \<in> set (fe_followers e @ fe_following e). ok_author a) (followEdges src whoId)"
    and voters: "on_answer (\<lambda>r. \<forall>a \<in> fst ` set (pr_voters r). ok_author a) (pollVoters src hostId)"
    and voters_page: "on_answer (\<lambda>g. \<forall>a \<in> fst ` set (vg_voters g). ok_author a) (pollVotersPage src hostId after cap)"
    and choices: "on_answer (\<lambda>c. \<forall>a \<in> fst ` set (pc_choices c). ok_author a) (pollChoices src hostId authors)"

lemma set_filterDenied [simp]: "p \<in> set (filterDenied lib d ps) \<longleftrightarrow> p \<in> set ps \<and> \<not> isDenied lib d (p_id p) (p_author p)"
  by (simp add: filterDenied_def)

lemma filterDenied_append [simp]: "filterDenied lib d (ps @ qs) = filterDenied lib d ps @ filterDenied lib d qs"
  by (simp add: filterDenied_def)

lemma served_page_clean:
  "on_answer (\<lambda>pg. \<forall>p \<in> set (fp_posts pg). \<not> isDenied lib d (p_id p) (p_author p)) (served_page lib d read q)"
  by (cases "read q") (auto intro!: on_answer_all simp: served_page_def Let_def comp_def)

lemma no_profile_simps [simp]: "pr_author (no_profile h) = None" "fp_posts (pr_page (no_profile h)) = []"
  by (simp_all add: no_profile_def)

interpretation lever: withholding "withServeDenylist lib d source" "\<lambda>i a. \<not> isDenied lib d i a" "\<lambda>a. \<not> isDeniedAuthor lib d (Some a)"
  by unfold_locales
    (auto intro!: on_answer_all simp: withServeDenylist_def Let_def comp_def served_page_clean served_thread_def served_profile_def served_choices_def
      split: option.splits)

text \<open>A denied account is denied under every encoding of its key.\<close>

lemma isDeniedAuthor_iff:
  "isDeniedAuthor lib d (Some a) \<longleftrightarrow>
     ascii a \<in> set (DENIED_AUTHORS d) \<or> (\<exists>c. normalizeSs58 lib (Some (ascii a)) = Some c \<and> c \<in> set (DENIED_AUTHORS d))"
  by (auto simp: isDeniedAuthor_def Let_def split: option.splits)

lemma map_filter_mem: "y \<in> set (List.map_filter f xs) \<longleftrightarrow> (\<exists>x \<in> set xs. f x = Some y)"
  by (force simp: List.map_filter_def)

lemma asStringList_mem: "s \<in> set (asStringList (Some (JArr es))) \<longleftrightarrow> s \<noteq> [] \<and> (\<exists>t. JStr t \<in> set es \<and> s = utrim t)"
proof -
  have one: "(case j of JStr t \<Rightarrow> Some (utrim t) | _ \<Rightarrow> None) = Some s \<longleftrightarrow> (\<exists>t. j = JStr t \<and> s = utrim t)" for j :: json and s
    by (cases j) auto
  show ?thesis by (simp add: asStringList_def map_filter_mem one) blast
qed

text \<open>The memo of canonical forms answers as the decoder does and stays bounded.\<close>

lemma canonicalSs58_transparent:
  assumes "\<forall>a r. map_of memo a = Some r \<longrightarrow> r = normalizeSs58 lib (Some a)" and "length memo \<le> 1024"
  shows "fst (canonicalSs58 lib a memo) = normalizeSs58 lib (Some a) \<and>
    (\<forall>b r. map_of (snd (canonicalSs58 lib a memo)) b = Some r \<longrightarrow> r = normalizeSs58 lib (Some b)) \<and>
    length (snd (canonicalSs58 lib a memo)) \<le> 1024"
  using assms by (auto simp: canonicalSs58_def Let_def length_omap_set split: option.splits if_splits)

lemma boot_file_lists:
  assumes "json_field ''authors'' sheet = Some (JArr es)" and "JStr e \<in> set es" and "SS58_SHAPE (utrim e)"
    and "normalizeSs58 lib (Some (utrim e)) = Some c" and "\<not> loadOnce d"
  shows "c \<in> set (DENIED_AUTHORS (loadServeDenylist lib True (Body sheet) d))"
proof -
  have ne: "sheet \<noteq> JNull" using assms(1) by auto
  have "utrim e \<in> set (asStringList (json_field ''authors'' sheet))"
    using assms(2,3) unfolding assms(1) asStringList_mem by (auto simp: SS58_SHAPE_def)
  then have "c \<in> set (canonicalAuthorsAtRuntime lib (asStringList (json_field ''authors'' sheet)))"
    using assms(3,4) by (auto simp: canonicalAuthorsAtRuntime_def map_filter_mem intro!: bexI [of _ "utrim e"])
  then show ?thesis
    using assms(5) ne by (cases sheet) (auto simp: loadServeDenylist_def Let_def)
qed

text \<open>
  C33: a delisted account is neither served nor drawn.  An author entry of the boot file that is a valid address, at any
  network prefix, keeps that account out of every list the source answers with from then on, whatever encoding of
  its key an answer carries: as the author of a post of a page, a thread or a page of replies, as the author a
  reply answers, as the account of a profile, in people, follow edges, rosters and poll choices.  And no card
  of a served post, the focal post of a thread included, draws the account as the author of the post or of the
  post it quotes; a mention of it shows no name or avatar.
\<close>

theorem delisted_account_not_served:
  fixes source :: "'e feed_source"
  assumes "json_field ''authors'' sheet = Some (JArr es)" and "JStr e \<in> set es" and "SS58_SHAPE (utrim e)"
    and "normalizeSs58 lib (Some (utrim e)) = Some c" and "\<not> loadOnce d" and "\<not> cs_pending cs"
  defines "dl \<equiv> loadServeDenylist lib True (Body sheet) d"
    and "src \<equiv> withServeDenylist lib (loadServeDenylist lib True (Body sheet) d) source"
    and "other \<equiv> \<lambda>a. normalizeSs58 lib (Some (ascii a)) \<noteq> Some c"
  shows "on_answer (\<lambda>pg. \<forall>p \<in> set (fp_posts pg). other (p_author p)) (page src q) \<and>
    on_answer (\<lambda>t. \<forall>p \<in> set (t_ancestors t @ t_replies t). other (p_author p)) (thread src rootId viewer) \<and>
    on_answer (\<lambda>t. \<forall>r. t_parent t = Some r \<longrightarrow> other (q_author r)) (thread src rootId viewer) \<and>
    on_answer (\<lambda>g. \<forall>p \<in> set (rp_posts g). other (p_author p)) (repliesPage src parentId beforeSeq limit viewer) \<and>
    on_answer (\<lambda>p. (\<forall>a. pr_author p = Some a \<longrightarrow> other a) \<and> (\<forall>r \<in> set (fp_posts (pr_page p)). other (p_author r))) (profile src args) \<and>
    on_answer (\<lambda>ss. \<forall>s \<in> set ss. other (sg_author s)) (searchPeople src text limit) \<and>
    on_answer (\<lambda>ss. \<forall>s \<in> set ss. other (sg_author s)) (whoToFollow src who limit) \<and>
    on_answer (\<lambda>e. \<forall>a \<in> set (fe_followers e @ fe_following e). other a) (followEdges src whoId) \<and>
    on_answer (\<lambda>r. \<forall>a \<in> fst ` set (pr_voters r). other a) (pollVoters src hostId) \<and>
    on_answer (\<lambda>g. \<forall>a \<in> fst ` set (vg_voters g). other a) (pollVotersPage src hostId after cap) \<and>
    on_answer (\<lambda>c. \<forall>a \<in> fst ` set (pc_choices c). other a) (pollChoices src hostId authors) \<and>
    (\<forall>p. \<forall>a \<in> set (drawn (PostCard lib dl cs p)). other a) \<and>
    (\<forall>a. \<not> other a \<longrightarrow> readAccountProfile lib dl read_row a = \<lparr>ap_displayName = None, ap_avatar = None\<rparr>)"
proof -
  have listed: "c \<in> set (DENIED_AUTHORS dl)" unfolding dl_def by (rule boot_file_lists [OF assms(1-5)])
  have other: "\<not> isDeniedAuthor lib dl (Some a) \<Longrightarrow> other a" "\<not> isDenied lib dl i a \<Longrightarrow> other a" for a i
    using listed by (auto simp: other_def isDenied_def isDeniedAuthor_iff)
  note laws = lever.page lever.thread lever.parent lever.replies lever.profile lever.people lever.suggested lever.edges
    lever.voters lever.voters_page lever.choices
  have cards: "other a" if "a \<in> set (drawn (PostCard lib dl cs p))" for a p
    by (rule other(1) [OF PostCard_drawn [OF assms(6) that]])
  have names: "readAccountProfile lib dl read_row a = \<lparr>ap_displayName = None, ap_avatar = None\<rparr>" if "\<not> other a" for a
    using other(1) [of a] that by (auto simp: readAccountProfile_def)
  show ?thesis
    unfolding src_def dl_def [symmetric]
    by (intro conjI; (rule on_answer_mono [OF laws(1)] on_answer_mono [OF laws(2)] on_answer_mono [OF laws(3)]
      on_answer_mono [OF laws(4)] on_answer_mono [OF laws(5)] on_answer_mono [OF laws(6)] on_answer_mono [OF laws(7)]
      on_answer_mono [OF laws(8)] on_answer_mono [OF laws(9)] on_answer_mono [OF laws(10)] on_answer_mono [OF laws(11)])?;
      use other cards names in blast)
qed

section \<open>Walking a wrapped feed\<close>

text \<open>Reading page after page until there is no cursor.\<close>

fun walk_source :: "(feed_query \<Rightarrow> 'e + feed_page) \<Rightarrow> feed_query \<Rightarrow> nat \<Rightarrow> ('e + cogno_post list) option" where
  "walk_source read q 0 = None"
| "walk_source read q (Suc n) = (case read q of
     Inl e \<Rightarrow> Some (Inl e)
   | Inr pg \<Rightarrow> (case fp_endCursor pg of
       None \<Rightarrow> Some (Inr (fp_posts pg))
     | Some c \<Rightarrow> map_option (map_sum id ((@) (fp_posts pg))) (walk_source read (q\<lparr>fq_after := Some c\<rparr>) n)))"

definition rest_walk :: "(feed_query \<Rightarrow> 'e + feed_page) \<Rightarrow> feed_query \<Rightarrow> nat \<Rightarrow> feed_page \<Rightarrow> ('e + cogno_post list) option" where
  "rest_walk read q n pg = (case fp_endCursor pg of None \<Rightarrow> Some (Inr []) | Some c \<Rightarrow> walk_source read (q\<lparr>fq_after := Some c\<rparr>) n)"

lemma walk_source_Suc:
  "walk_source read q (Suc n) = (case read q of Inl e \<Rightarrow> Some (Inl e)
     | Inr pg \<Rightarrow> map_option (map_sum id ((@) (fp_posts pg))) (rest_walk read q n pg))"
  by (simp add: rest_walk_def split: sum.split option.split)

lemma walk_source_page:
  assumes "walk_source read q (Suc n) = Some (Inr xs)"
  shows "\<exists>pg ys. read q = Inr pg \<and> rest_walk read q n pg = Some (Inr ys) \<and> xs = fp_posts pg @ ys"
proof -
  have inr: "map_sum id f r = Inr x \<longleftrightarrow> (\<exists>y. r = Inr y \<and> x = f y)" for f :: "'c \<Rightarrow> 'd" and r :: "'b + 'c" and x
    by (cases r) auto
  show ?thesis using assms unfolding walk_source_Suc by (auto simp: inr split: sum.splits)
qed

lemma walk_source_mono: "walk_source read q n = Some r \<Longrightarrow> n \<le> m \<Longrightarrow> walk_source read q m = Some r"
proof (induction n arbitrary: q r m)
  case (Suc n)
  then obtain k where m: "m = Suc k" "n \<le> k" by (cases m) auto
  from Suc.prems(1) Suc.IH [OF _ m(2)] show ?case unfolding m(1)
    by (auto split: sum.splits option.splits)
qed simp

text \<open>Topping up skips only posts that are denied.\<close>

lemma top_up_rest:
  "rest_walk read q n pg = Some (Inr xs) \<Longrightarrow>
   \<exists>pg' n' xs'. top_up lib d read q hops pg = Inr pg' \<and> n' \<le> n \<and> rest_walk read q n' pg' = Some (Inr xs') \<and>
     filterDenied lib d (fp_posts pg' @ xs') = filterDenied lib d (fp_posts pg @ xs)"
proof (induction lib d read q hops pg arbitrary: n xs rule: top_up.induct)
  case (1 lib d read q hops pg)
  let ?more = "fp_posts pg \<noteq> [] \<and> filterDenied lib d (fp_posts pg) = [] \<and> fp_hasNextPage pg \<and>
    fp_endCursor pg \<noteq> None \<and> fp_endCursor pg \<noteq> Some [] \<and> 0 < hops"
  show ?case
  proof (cases ?more)
    case False
    then have "top_up lib d read q hops pg = Inr pg" by (subst top_up.simps) (simp only: if_False)
    with "1.prems" show ?thesis by blast
  next
    case True
    then obtain c where c: "fp_endCursor pg = Some c" by blast
    with "1.prems" have w: "walk_source read (q\<lparr>fq_after := Some c\<rparr>) n = Some (Inr xs)" by (simp add: rest_walk_def)
    then obtain m where n: "n = Suc m" by (cases n) auto
    from w obtain pg2 ys where r: "read (q\<lparr>fq_after := Some c\<rparr>) = Inr pg2" "rest_walk read (q\<lparr>fq_after := Some c\<rparr>) m pg2 = Some (Inr ys)"
        "xs = fp_posts pg2 @ ys"
      using walk_source_page by (metis n)
    have "rest_walk read q m pg2 = Some (Inr ys)" using r(2) by (cases "fp_endCursor pg2") (simp_all add: rest_walk_def)
    from "1.IH" [OF True] this r(1) c obtain pg' n' xs' where ih: "top_up lib d read q (hops - 1) pg2 = Inr pg'" "n' \<le> m"
        "rest_walk read q n' pg' = Some (Inr xs')" "filterDenied lib d (fp_posts pg' @ xs') = filterDenied lib d (fp_posts pg2 @ ys)"
      by metis
    have "top_up lib d read q hops pg = Inr pg'" using True by (subst top_up.simps) (use ih(1) in \<open>simp add: c r(1)\<close>)
    with ih n r(3) True show ?thesis by (intro exI [of _ pg'] exI [of _ n'] exI [of _ xs']) simp
  qed
qed

lemma served_page_top_up:
  "read q = Inr pg \<Longrightarrow> top_up lib d read q MAX_TOP_UP pg = Inr pg' \<Longrightarrow>
   \<exists>out. served_page lib d read q = Inr out \<and> fp_posts out = filterDenied lib d (fp_posts pg') \<and> fp_endCursor out = fp_endCursor pg'"
  by (simp add: served_page_def Let_def)

text \<open>
  The lever hides nothing else.  If walking a source from any query to its end shows some posts, walking the
  wrapped source from the same query ends too, within as many reads, and shows exactly those that are not denied, in
  the same order; pages that are wholly denied do not end the walk.
\<close>

lemma served_walk:
  assumes "walk_source read q n = Some (Inr xs)"
  shows "walk_source (served_page lib d read) q n = Some (Inr (filterDenied lib d xs))"
  using assms
proof (induction n arbitrary: q xs rule: less_induct)
  case (less n)
  then obtain m where n: "n = Suc m" by (cases n) auto
  from walk_source_page [OF less.prems [unfolded n]] obtain pg ys
    where pg: "read q = Inr pg" "rest_walk read q m pg = Some (Inr ys)" "xs = fp_posts pg @ ys" by blast
  from top_up_rest [OF pg(2), of lib d MAX_TOP_UP] obtain pg' k ys' where t: "top_up lib d read q MAX_TOP_UP pg = Inr pg'" "k \<le> m"
      "rest_walk read q k pg' = Some (Inr ys')" "filterDenied lib d (fp_posts pg' @ ys') = filterDenied lib d xs"
    unfolding pg(3) by blast
  from served_page_top_up [OF pg(1) t(1)] obtain out where out: "served_page lib d read q = Inr out"
      "fp_posts out = filterDenied lib d (fp_posts pg')" "fp_endCursor out = fp_endCursor pg'" by blast
  have "rest_walk (served_page lib d read) q m out = Some (Inr (filterDenied lib d ys'))"
  proof (cases "fp_endCursor pg'")
    case None
    then show ?thesis using t(3) out(3) by (simp add: rest_walk_def filterDenied_def)
  next
    case (Some c)
    then have "walk_source (served_page lib d read) (q\<lparr>fq_after := Some c\<rparr>) k = Some (Inr (filterDenied lib d ys'))"
      using t(2,3) n less.IH by (simp add: rest_walk_def)
    then show ?thesis using Some t(2) out(3) walk_source_mono by (simp add: rest_walk_def) blast
  qed
  then show ?case unfolding n walk_source_Suc using out t(4) by simp
qed

text \<open>With nothing listed the wrapper is inert.\<close>

lemma empty_list_inert:
  assumes "denylistEmpty d"
  shows "served_page lib d read q =
    map_sum id (\<lambda>pg. pg\<lparr>fp_totalCount := map_option (\<lambda>_. int (length (fp_posts pg))) (fp_totalCount pg)\<rparr>) (read q)"
proof -
  have f: "filterDenied lib d ps = ps" for ps
    using assms by (simp add: filterDenied_def isDenied_def isDeniedPost_def isDeniedAuthor_def denylistEmpty_def)
  have "top_up lib d read q n pg = Inr pg" for n pg by (subst top_up.simps) (auto simp: f)
  then show ?thesis by (cases "read q") (simp_all add: served_page_def f Let_def)
qed

text \<open>A page keeps every post of the first page read that is not denied.\<close>

lemma served_page_keeps:
  assumes "read q = Inr pg" and "served_page lib d read q = Inr out"
  shows "set (filterDenied lib d (fp_posts pg)) \<subseteq> set (fp_posts out)"
proof (cases "filterDenied lib d (fp_posts pg) = []")
  case False
  then have "top_up lib d read q MAX_TOP_UP pg = Inr pg" by (subst top_up.simps) simp
  from served_page_top_up [OF assms(1) this] assms(2) show ?thesis by auto
qed simp

section \<open>A concrete deployment\<close>

text \<open>Two pages of one post each; the author of the newer one is delisted by the boot file.\<close>

definition denied_name :: ss58 where
  "denied_name = map char_of demo_address"

definition demo_sheet :: json where
  "demo_sheet = JObj [(ascii ''authors'', JArr [JStr demo_address])]"

definition demo_read :: "feed_query \<Rightarrow> string + feed_page" where
  "demo_read q = Inr (if fq_after q = None
     then \<lparr>fp_posts = [bare_post 2 denied_name ''x'' 0], fp_endCursor = Some ''1'', fp_hasNextPage = True, fp_totalCount = None, fp_asOf = None\<rparr>
     else \<lparr>fp_posts = [bare_post 1 ''bob'' ''y'' 0], fp_endCursor = None, fp_hasNextPage = False, fp_totalCount = None, fp_asOf = None\<rparr>)"

definition demo_query :: feed_query where
  "demo_query = \<lparr>fq_first = None, fq_after = None, fq_search = None, fq_authorId = None, fq_tab = None, fq_followeeOf = None,
     fq_topic = None, fq_role = None, fq_members = None, fq_maxHops = None, fq_viewer = None\<rparr>"

definition demo_deny :: denylist where
  "demo_deny = \<lparr>DENIED_AUTHORS = [], DENIED_POSTS = [], loadOnce = False\<rparr>"

lemma ascii_denied_name: "ascii denied_name = demo_address"
  by (simp add: denied_name_def ascii_def demo_address_def demo_head_def comp_def)

lemma demo_address_shape: "utrim demo_address = demo_address" "SS58_SHAPE demo_address"
proof -
  have "isPlausibleSs58 (Some demo_address)"
    by (simp add: isPlausibleSs58_def demo_address_def demo_head_def base58_def list_all_iff)
  then show "utrim demo_address = demo_address" by (rule utrim_plausible)
  show "SS58_SHAPE demo_address" by (simp add: SS58_SHAPE_def demo_address_def demo_head_def base58_def list_all_iff)
qed

definition silent_source :: "string feed_source" where
  "silent_source = \<lparr>liveHeadId = None, page = demo_read, thread = (\<lambda>_ _. Inl ''down''), repliesPage = (\<lambda>_ _ _ _. Inl ''down''),
     profile = (\<lambda>_. Inl ''down''), poll = (\<lambda>_. Inl ''down''), viewerPollChoice = (\<lambda>_ _. Inl ''down''), pollChoices = (\<lambda>_ _. Inl ''down''),
     pollVoters = (\<lambda>_. Inl ''down''), pollVoterTotals = (\<lambda>_. Inl ''down''), pollVotersPage = (\<lambda>_ _ _. Inl ''down''),
     viewerPostState = (\<lambda>_ _. Inl ''down''), followEdges = (\<lambda>_. Inl ''down''), whoToFollow = (\<lambda>_ _. Inl ''down''),
     searchPeople = (\<lambda>_ _. Inr [\<lparr>sg_author = denied_name, sg_displayName = None, sg_avatar = None, sg_weight = None,
       sg_followerCount = 0, sg_accountScore = None\<rparr>])\<rparr>"

definition quoting_post :: cogno_post where
  "quoting_post = (bare_post 1 ''bob'' ''y'' 0)\<lparr>p_quote := Some \<lparr>q_id = 2, q_author = denied_name, q_text = ''x'', q_authorRevoked = False,
     q_displayName = None, q_avatar = None, q_authorRoles = None\<rparr>\<rparr>"

definition open_card :: card_state where
  "open_card = \<lparr>cs_pending = False, cs_blocked = False, cs_muted = False, cs_own = False, cs_detail = False, cs_revealed = False,
     cs_quoteBlocked = False, cs_quoteHidden = False\<rparr>"

theorem delisted_account_not_served_witness:
  "on_answer (\<lambda>ss. \<forall>s \<in> set ss. normalizeSs58 demo_lib (Some (ascii (sg_author s))) \<noteq> Some demo_address)
     (searchPeople (withServeDenylist demo_lib (loadServeDenylist demo_lib True (Body demo_sheet) demo_deny) silent_source) ''5'' 10) \<and>
   denied_name \<notin> set (drawn (PostCard demo_lib (loadServeDenylist demo_lib True (Body demo_sheet) demo_deny) open_card quoting_post))"
proof -
  have h: "json_field ''authors'' demo_sheet = Some (JArr [JStr demo_address])" "JStr demo_address \<in> set [JStr demo_address]"
    "SS58_SHAPE (utrim demo_address)" "normalizeSs58 demo_lib (Some (utrim demo_address)) = Some demo_address" "\<not> loadOnce demo_deny"
    "\<not> cs_pending open_card"
    by (simp_all add: demo_sheet_def demo_address_shape demo_address_normal demo_deny_def open_card_def)
  have "normalizeSs58 demo_lib (Some (ascii denied_name)) = Some demo_address"
    by (simp add: ascii_denied_name demo_address_normal)
  with delisted_account_not_served [OF h, of silent_source] show ?thesis by blast
qed

end
