(* ===== verification/Node_Reads.thy ===== *)
theory Node_Reads
  imports Pallet_Reads Feed_Rank
begin

text \<open>
  The client's readers of the runtime API, \<open>app/src/lib/chain/node-reads.ts\<close> (with the decoders of
  \<open>chain/reads.ts\<close> and \<open>chain/roles.ts\<close>): mapping an enriched post to the shape the interface renders,
  chasing the cursor until a page is full and merging the pages of a list's members.  Every chased read is shown to satisfy the contract of a paged read again, now over
  client posts.

  \<open>Binary.toText\<close> and the hex form of a fixed-size byte array come from polkadot-api and are the
  fields of the record \<open>papi\<close>.  All hops of one read see the same chain state.
\<close>

record papi =
  toText :: "bytes \<Rightarrow> string"
  asHex :: "bytes \<Rightarrow> string"
  fromText :: "string \<Rightarrow> bytes"

text \<open>An ASCII codec, for concrete inputs.\<close>

definition demo_papi :: papi where
  "demo_papi = \<lparr>toText = map (\<lambda>b. char_of (unat b)), asHex = map (\<lambda>b. char_of (unat b)),
     fromText = map (\<lambda>c. of_nat (of_char c))\<rparr>"

definition MAX_PAGE :: nat where "MAX_PAGE = 100"
definition MAX_CHASE_HOPS :: nat where "MAX_CHASE_HOPS = 64"
definition MAX_EMPTY_CHASE_HOPS :: nat where "MAX_EMPTY_CHASE_HOPS = 256"
definition FILTERED_LENS_MAX_HOPS :: nat where "FILTERED_LENS_MAX_HOPS = 6"
definition MAX_FEED_MEMBERS :: nat where "MAX_FEED_MEMBERS = 32"
definition MAX_PEOPLE_HOPS :: nat where "MAX_PEOPLE_HOPS = 8"

section \<open>Decoding\<close>

definition binTextOpt :: "papi \<Rightarrow> bytes \<Rightarrow> string option" where
  "binTextOpt pa v = (let s = js_trim (toText pa v) in if s = [] then None else Some s)"

fun ROLE_KIND_BY_INDEX :: "nat \<Rightarrow> role_kind option" where
  "ROLE_KIND_BY_INDEX i = (if i = 0 then Some Spo else if i = 1 then Some DRep else if i = 2 then Some Committee else None)"

definition mapObservedRolePairs :: "papi \<Rightarrow> (nat \<times> bytes) list \<Rightarrow> observed_role_view list" where
  "mapObservedRolePairs pa pairs = List.map_filter (\<lambda>(ix, rawId).
     case ROLE_KIND_BY_INDEX ix of None \<Rightarrow> None
     | Some k \<Rightarrow> if asHex pa rawId = [] then None
                   else Some \<lparr>rv_kind = k, rv_id = asHex pa rawId, rv_weight = None\<rparr>) pairs"

definition mapQuoted :: "papi \<Rightarrow> quoted_summary option \<Rightarrow> quoted_ref option" where
  "mapQuoted pa q = map_option (\<lambda>q.
     \<lparr>q_id = int (qs_id q), q_author = qs_author q, q_text = toText pa (qs_text q), q_authorRevoked = False,
      q_displayName = binTextOpt pa (qs_author_display_name q), q_avatar = binTextOpt pa (qs_author_avatar q),
      q_authorRoles = Some (mapObservedRolePairs pa (qs_author_roles q))\<rparr>) q"

definition mapEnrichedPost :: "papi \<Rightarrow> enriched_post \<Rightarrow> bool \<Rightarrow> cogno_post" where
  "mapEnrichedPost pa e hasViewer =
     (let upWeight = int (e_up_weight e); downWeight = int (e_down_weight e)
      in \<lparr>p_id = int (e_id e), p_author = e_author e, p_text = toText pa (e_text e),
          p_parent = map_option int (e_parent e), p_at = int (e_at e), p_authorRevoked = None,
          p_quote = (case e_quote e of None \<Rightarrow> None
             | Some qid \<Rightarrow> Some (coalesce (mapQuoted pa (e_quoted e))
                 \<lparr>q_id = int qid, q_author = [], q_text = [], q_authorRevoked = False,
                  q_displayName = None, q_avatar = None, q_authorRoles = None\<rparr>)),
          p_isPoll = (if e_is_poll e then Some True else None),
          p_upWeight = Some upWeight, p_downWeight = Some downWeight,
          p_upCount = Some (int (e_up_count e)), p_downCount = Some (int (e_down_count e)),
          p_score = Some (upWeight - downWeight), p_replyCount = Some (int (e_reply_count e)),
          p_authorDisplayName = binTextOpt pa (e_author_display_name e),
          p_authorAvatar = binTextOpt pa (e_author_avatar e), p_authorWeight = None,
          p_authorRoles = Some (mapObservedRolePairs pa (e_author_roles e)),
          p_myVote = (if hasViewer then Some (e_my_vote e) else None)\<rparr>)"

definition carriedViewerStates :: "cogno_post list \<Rightarrow> (string, viewer_post_state) omap" where
  "carriedViewerStates posts =
     fold (\<lambda>p out. case p_myVote p of None \<Rightarrow> out
                    | Some v \<Rightarrow> omap_set (show_int (p_id p)) \<lparr>vs_myVote = v\<rparr> out) posts []"

definition clampLimit :: "nat \<Rightarrow> nat" where
  "clampLimit limit = min (max 1 limit) MAX_PAGE"

lemma clampLimit_idem [simp]: "clampLimit (clampLimit n) = clampLimit n"
  by (simp add: clampLimit_def MAX_PAGE_def)

lemma clampLimit_bounds [simp]: "0 < clampLimit n" "clampLimit n \<le> RT_MAX_PAGE"
  by (simp_all add: clampLimit_def MAX_PAGE_def RT_MAX_PAGE_def)

section \<open>Chasing the cursor\<close>

record id_page =
  ip_posts :: "cogno_post list"
  ip_nextCursor :: "nat option"

definition hop_bound :: "nat option \<Rightarrow> nat" where
  "hop_bound maxHops = (case maxHops of Some m \<Rightarrow> m | None \<Rightarrow> MAX_EMPTY_CHASE_HOPS)"

definition hop_cap :: "nat option \<Rightarrow> cogno_post list \<Rightarrow> nat" where
  "hop_cap maxHops posts =
     (case maxHops of Some m \<Rightarrow> m | None \<Rightarrow> if posts = [] then MAX_EMPTY_CHASE_HOPS else MAX_CHASE_HOPS)"

lemma hop_cap_le: "hop_cap maxHops posts \<le> hop_bound maxHops"
  by (simp add: hop_cap_def hop_bound_def MAX_EMPTY_CHASE_HOPS_def MAX_CHASE_HOPS_def split: option.split)

function chase_loop ::
  "(nat option \<Rightarrow> nat \<Rightarrow> enriched_post list \<times> nat option) \<Rightarrow> (enriched_post \<Rightarrow> cogno_post) \<Rightarrow> (cogno_post \<Rightarrow> bool) \<Rightarrow>
   nat \<Rightarrow> nat option \<Rightarrow> nat \<Rightarrow> cogno_post list \<Rightarrow> nat option \<Rightarrow> id_page"
where
  "chase_loop fetchPage conv keep target maxHops hop posts cursor =
     (let (es, nextCursor) = fetchPage cursor (target - length posts);
          posts' = posts @ filter keep (map conv es)
      in if nextCursor = None \<or> target \<le> length posts' then \<lparr>ip_posts = posts', ip_nextCursor = nextCursor\<rparr>
         else if hop_cap maxHops posts' \<le> hop + 1 then \<lparr>ip_posts = posts', ip_nextCursor = nextCursor\<rparr>
         else chase_loop fetchPage conv keep target maxHops (hop + 1) posts' nextCursor)"
  by pat_completeness auto
termination
proof (relation "measure (\<lambda>(_, _, _, _, maxHops, hop, _, _). hop_bound maxHops - hop)", goal_cases)
  case (2 fetchPage conv keep target maxHops hop posts cursor x es nextCursor posts')
  then show ?case using hop_cap_le [of maxHops posts'] by simp
qed simp

declare chase_loop.simps [simp del]

definition chasePage ::
  "papi \<Rightarrow> (nat option \<Rightarrow> nat \<Rightarrow> enriched_post list \<times> nat option) \<Rightarrow> nat option \<Rightarrow> nat \<Rightarrow> bool \<Rightarrow> nat option \<Rightarrow>
   (cogno_post \<Rightarrow> bool) option \<Rightarrow> id_page"
where
  "chasePage pa fetchPage beforeId limit hasViewer maxHops keep =
     chase_loop fetchPage (\<lambda>e. mapEnrichedPost pa e hasViewer) (case keep of None \<Rightarrow> (\<lambda>_. True) | Some f \<Rightarrow> f)
       (clampLimit limit) maxHops 0 [] beforeId"

definition shown ::
  "('x \<Rightarrow> enriched_post option) \<Rightarrow> (enriched_post \<Rightarrow> cogno_post) \<Rightarrow> (cogno_post \<Rightarrow> bool) \<Rightarrow> 'x \<Rightarrow> cogno_post option"
where
  "shown view conv keep x =
     (case view x of None \<Rightarrow> None | Some e \<Rightarrow> if keep (conv e) then Some (conv e) else None)"

lemma map_filter_shown:
  "List.map_filter (shown view conv keep) xs = filter keep (map conv (List.map_filter view xs))"
  by (induction xs) (auto simp: map_filter_simps shown_def split: option.splits)

text \<open>The page of the loop from \<open>c\<close> on: what the posts collected so far are extended by.\<close>

definition chased ::
  "(nat option \<Rightarrow> 'x list) \<Rightarrow> ('x \<Rightarrow> cogno_post option) \<Rightarrow> nat \<Rightarrow> cogno_post list \<Rightarrow> nat option \<Rightarrow> id_page \<Rightarrow> nat \<Rightarrow> bool"
where
  "chased rest view target posts c pg k \<longleftrightarrow>
     ip_posts pg = posts @ List.map_filter view (take k (rest c)) \<and> length (ip_posts pg) \<le> target \<and>
     (case ip_nextCursor pg of
        None \<Rightarrow> length (rest c) \<le> k
      | Some c' \<Rightarrow> 0 < k \<and> k \<le> length (rest c) \<and> rest (Some c') = drop k (rest c))"

lemma chased_step:
  assumes "chased rest view target (posts @ List.map_filter view (take k (rest c))) nx pg k'"
    and "rest nx = drop k (rest c)" and "0 < k" and "k \<le> length (rest c)"
  shows "chased rest view target posts c pg (k + k')"
proof -
  have d: "drop (k + k') xs = drop k' (drop k xs)" for xs :: "'a list" by (simp add: add.commute)
  show ?thesis
    using assms unfolding chased_def take_add map_filter_append d by (auto split: option.splits)
qed

lemma chase_loop_ok:
  assumes page: "\<And>c n. 0 < n \<Longrightarrow> n \<le> RT_MAX_PAGE \<Longrightarrow> \<exists>k. page_of rest view c n (fetchPage c n) k"
    and "length posts < target" and "target \<le> RT_MAX_PAGE"
  shows "\<exists>k. chased rest (shown view conv keep) target posts c
               (chase_loop fetchPage conv keep target maxHops hop posts c) k"
  using assms(2)
proof (induction "hop_bound maxHops - hop" arbitrary: hop posts c rule: less_induct)
  case less
  let ?view = "shown view conv keep" and ?n = "target - length posts"
  obtain es nx where f: "fetchPage c ?n = (es, nx)" by (cases "fetchPage c ?n")
  obtain k where k: "page_of rest view c ?n (es, nx) k"
    using page [of ?n c] less.prems assms(3) f by fastforce
  define ps where "ps = posts @ filter keep (map conv es)"
  have posts: "ps = posts @ List.map_filter ?view (take k (rest c))"
    using k by (simp add: page_of_def map_filter_shown ps_def)
  have len: "length ps \<le> target"
  proof -
    have "length (filter keep (map conv es)) \<le> length es" by (metis length_filter_le length_map)
    moreover have "length es \<le> target - length posts" using k by (auto simp: page_of_def)
    ultimately show ?thesis using less.prems unfolding ps_def length_append by arith
  qed
  have here: "chased rest ?view target posts c \<lparr>ip_posts = ps, ip_nextCursor = nx\<rparr> k"
    using k len posts by (auto simp: chased_def page_of_def split: option.splits)
  show ?case
  proof (cases "nx = None \<or> target \<le> length ps \<or> hop_cap maxHops ps \<le> hop + 1")
    case True
    then have "chase_loop fetchPage conv keep target maxHops hop posts c = \<lparr>ip_posts = ps, ip_nextCursor = nx\<rparr>"
      by (auto simp: chase_loop.simps [of fetchPage conv keep target maxHops hop posts c] f Let_def ps_def)
    with here show ?thesis by auto
  next
    case False
    then obtain c' where c': "nx = Some c'" by auto
    have step: "chase_loop fetchPage conv keep target maxHops hop posts c =
                chase_loop fetchPage conv keep target maxHops (hop + 1) ps nx"
      using False by (auto simp: chase_loop.simps [of fetchPage conv keep target maxHops hop posts c] f Let_def ps_def)
    have "hop_bound maxHops - (hop + 1) < hop_bound maxHops - hop"
      using False hop_cap_le [of maxHops ps] by auto
    from less.hyps [OF this, of ps nx] False obtain k' where
      k': "chased rest ?view target ps nx (chase_loop fetchPage conv keep target maxHops (hop + 1) ps nx) k'"
      by auto
    have rest: "rest nx = drop k (rest c)" "0 < k" "k \<le> length (rest c)" using k c' by (simp_all add: page_of_def)
    have "chased rest ?view target posts c (chase_loop fetchPage conv keep target maxHops hop posts c) (k + k')"
      unfolding step by (rule chased_step) (use k' rest posts in simp_all)
    then show ?thesis by blast
  qed
qed

section \<open>The readers\<close>

text \<open>The runtime API returns the page of the pallet with the author fields filled in.\<close>

definition with_profiles :: "chain \<Rightarrow> feed_page_raw \<Rightarrow> enriched_post list \<times> nat option" where
  "with_profiles st pg = (enrich_author_profiles st (fr_posts pg), fr_next_cursor pg)"

definition nodeGlobalFeedPage :: "papi \<Rightarrow> ss58 option \<Rightarrow> chain \<Rightarrow> nat option \<Rightarrow> nat \<Rightarrow> id_page" where
  "nodeGlobalFeedPage pa viewer st beforeId limit =
     chasePage pa (\<lambda>c n. with_profiles st (rt_feed_page viewer st c n)) beforeId limit (viewer \<noteq> None) None None"

definition nodeRoleFeedPage ::
  "papi \<Rightarrow> role_kind \<Rightarrow> ss58 option \<Rightarrow> nat option \<Rightarrow> chain \<Rightarrow> nat option \<Rightarrow> nat \<Rightarrow> id_page" where
  "nodeRoleFeedPage pa role viewer maxHops st beforeId limit =
     chasePage pa (\<lambda>c n. with_profiles st (rt_feed_page viewer st c n)) beforeId limit (viewer \<noteq> None)
       (Some (coalesce maxHops FILTERED_LENS_MAX_HOPS))
       (Some (\<lambda>p. list_ex (\<lambda>r. rv_kind r = role) (coalesce (p_authorRoles p) [])))"

definition nodeAuthorFeedPage :: "papi \<Rightarrow> ss58 \<Rightarrow> ss58 option \<Rightarrow> chain \<Rightarrow> nat option \<Rightarrow> nat \<Rightarrow> id_page" where
  "nodeAuthorFeedPage pa author viewer st beforeId limit =
     chasePage pa (\<lambda>c n. with_profiles st (author_feed_page author viewer st c n)) beforeId limit (viewer \<noteq> None) None None"

definition nodeFollowingFeedPage :: "papi \<Rightarrow> ss58 \<Rightarrow> chain \<Rightarrow> nat option \<Rightarrow> nat \<Rightarrow> id_page" where
  "nodeFollowingFeedPage pa viewer st beforeId limit =
     chasePage pa (\<lambda>c n. with_profiles st (following_feed_page viewer st c n)) beforeId limit True None None"

definition nodeSearchPosts ::
  "papi \<Rightarrow> string \<Rightarrow> ss58 option \<Rightarrow> nat option \<Rightarrow> (cogno_post \<Rightarrow> bool) option \<Rightarrow> chain \<Rightarrow> nat option \<Rightarrow> nat \<Rightarrow> id_page" where
  "nodeSearchPosts pa term viewer maxHops keep st beforeId limit =
     chasePage pa (\<lambda>c n. with_profiles st (search_posts (fromText pa term) viewer st c n)) beforeId limit (viewer \<noteq> None)
       (case maxHops of Some m \<Rightarrow> Some m
        | None \<Rightarrow> if keep \<noteq> None then Some FILTERED_LENS_MAX_HOPS else None)
       keep"

text \<open>A page of the client, as the pair of the contract.\<close>

definition idp :: "id_page \<Rightarrow> cogno_post list \<times> nat option" where
  "idp pg = (ip_posts pg, ip_nextCursor pg)"

lemma idp_simps [simp]: "fst (idp pg) = ip_posts pg" "snd (idp pg) = ip_nextCursor pg"
  by (simp_all add: idp_def)

lemma chased_page_of: "chased rest view n [] c pg k \<longleftrightarrow> page_of rest view c n (idp pg) k"
  by (auto simp: chased_def page_of_def split: option.splits)

definition profiled :: "chain \<Rightarrow> ('x \<Rightarrow> enriched_post option) \<Rightarrow> 'x \<Rightarrow> enriched_post option" where
  "profiled st view x = map_option (enrich_author_profile st) (view x)"

lemma map_filter_profiled:
  "List.map_filter (profiled st view) xs = map (enrich_author_profile st) (List.map_filter view xs)"
  by (induction xs) (auto simp: map_filter_simps profiled_def split: option.splits)

lemma page_of_profiles:
  "page_of rest view c n (raw pg) k \<Longrightarrow> page_of rest (profiled st view) c n (with_profiles st pg) k"
  by (auto simp: page_of_def with_profiles_def enrich_author_profiles_def map_filter_profiled)

text \<open>What a reader shows of an entry of the feed, and the page it makes of a paged runtime read.\<close>

definition client_view ::
  "papi \<Rightarrow> bool \<Rightarrow> (cogno_post \<Rightarrow> bool) \<Rightarrow> chain \<Rightarrow> ('x \<Rightarrow> enriched_post option) \<Rightarrow> 'x \<Rightarrow> cogno_post option" where
  "client_view pa hasViewer keep st view = shown (profiled st view) (\<lambda>e. mapEnrichedPost pa e hasViewer) keep"

lemma chasePage_ok:
  assumes page: "\<And>c n. 0 < n \<Longrightarrow> n \<le> RT_MAX_PAGE \<Longrightarrow> \<exists>k. page_of rest view c n (raw (rt c n)) k"
    and n: "0 < n" "n \<le> RT_MAX_PAGE"
  shows "\<exists>k. page_of rest (client_view pa hv (case keep of None \<Rightarrow> (\<lambda>_. True) | Some f \<Rightarrow> f) st view) c n
               (idp (chasePage pa (\<lambda>c n. with_profiles st (rt c n)) c n hv maxHops keep)) k"
proof -
  have "\<exists>k. page_of rest (profiled st view) c n (with_profiles st (rt c n)) k" if "0 < n" "n \<le> RT_MAX_PAGE" for c n
    using page [OF that] page_of_profiles by blast
  moreover have "clampLimit n = n" using n by (simp add: clampLimit_def MAX_PAGE_def RT_MAX_PAGE_def)
  ultimately show ?thesis
    using chase_loop_ok [of rest "profiled st view" "\<lambda>c n. with_profiles st (rt c n)" "[]" n] n
    by (simp add: chasePage_def client_view_def chased_page_of [symmetric])
qed

interpretation node_global: paged_read readable "\<lambda>st c n. idp (nodeGlobalFeedPage pa viewer st c n)" spine_below
  "\<lambda>st. client_view pa (viewer \<noteq> None) (\<lambda>_. True) st (spine_pick viewer (\<lambda>_. True) st)"
  for pa viewer
proof
  show "\<exists>k. page_of (spine_below st) (client_view pa (viewer \<noteq> None) (\<lambda>_. True) st (spine_pick viewer (\<lambda>_. True) st)) c n
          (idp (nodeGlobalFeedPage pa viewer st c n)) k"
    if "readable st" "0 < n" "n \<le> RT_MAX_PAGE" for st n c
    using chasePage_ok [OF feed.page [OF that(1)] that(2,3), where keep = None] by (simp add: nodeGlobalFeedPage_def)
qed

interpretation node_following: paged_read readable "\<lambda>st c n. idp (nodeFollowingFeedPage pa viewer st c n)" spine_below
  "\<lambda>st. client_view pa True (\<lambda>_. True) st (following_pick viewer st)"
  for pa viewer
proof
  show "\<exists>k. page_of (spine_below st) (client_view pa True (\<lambda>_. True) st (following_pick viewer st)) c n
          (idp (nodeFollowingFeedPage pa viewer st c n)) k"
    if "readable st" "0 < n" "n \<le> RT_MAX_PAGE" for st n c
    using chasePage_ok [OF following.page [OF that(1)] that(2,3), where keep = None] by (simp add: nodeFollowingFeedPage_def)
qed

interpretation node_role: paged_read readable "\<lambda>st c n. idp (nodeRoleFeedPage pa role viewer maxHops st c n)" spine_below
  "\<lambda>st. client_view pa (viewer \<noteq> None) (\<lambda>p. list_ex (\<lambda>r. rv_kind r = role) (coalesce (p_authorRoles p) [])) st
     (spine_pick viewer (\<lambda>_. True) st)"
  for pa role viewer maxHops
proof
  show "\<exists>k. page_of (spine_below st)
          (client_view pa (viewer \<noteq> None) (\<lambda>p. list_ex (\<lambda>r. rv_kind r = role) (coalesce (p_authorRoles p) [])) st
            (spine_pick viewer (\<lambda>_. True) st)) c n
          (idp (nodeRoleFeedPage pa role viewer maxHops st c n)) k"
    if "readable st" "0 < n" "n \<le> RT_MAX_PAGE" for st n c
    using chasePage_ok [OF feed.page [OF that(1)] that(2,3),
        where keep = "Some (\<lambda>p. list_ex (\<lambda>r. rv_kind r = role) (coalesce (p_authorRoles p) []))"]
    by (simp add: nodeRoleFeedPage_def)
qed

interpretation node_search: paged_read readable "\<lambda>st c n. idp (nodeSearchPosts pa term viewer maxHops keep st c n)" ids_below
  "\<lambda>st. client_view pa (viewer \<noteq> None) (case keep of None \<Rightarrow> (\<lambda>_. True) | Some f \<Rightarrow> f) st
     (search_pick (fromText pa term) viewer st)"
  for pa "term" viewer maxHops keep
proof
  show "\<exists>k. page_of (ids_below st)
          (client_view pa (viewer \<noteq> None) (case keep of None \<Rightarrow> (\<lambda>_. True) | Some f \<Rightarrow> f) st
            (search_pick (fromText pa term) viewer st)) c n
          (idp (nodeSearchPosts pa term viewer maxHops keep st c n)) k"
    if "readable st" "0 < n" "n \<le> RT_MAX_PAGE" for st n c
    using chasePage_ok [OF search.page [OF that(1)] that(2,3), where keep = keep] by (simp add: nodeSearchPosts_def)
qed

section \<open>A list's timeline\<close>

text \<open>
  A dense read is answered in one hop, so its chased page is full as well.
\<close>

lemma chasePage_dense:
  assumes page: "\<exists>k. page_of rest view c n (raw (rt c n)) k"
    and full: "fr_next_cursor (rt c n) \<noteq> None \<Longrightarrow> n \<le> length (fr_posts (rt c n))"
    and n: "0 < n" "n \<le> RT_MAX_PAGE"
  shows "chasePage pa (\<lambda>c n. with_profiles st (rt c n)) c n hv maxHops None =
           \<lparr>ip_posts = map (\<lambda>e. mapEnrichedPost pa (enrich_author_profile st e) hv) (fr_posts (rt c n)),
            ip_nextCursor = fr_next_cursor (rt c n)\<rparr>"
proof -
  have "clampLimit n = n" using n by (simp add: clampLimit_def MAX_PAGE_def RT_MAX_PAGE_def)
  then show ?thesis
    using full by (cases "fr_next_cursor (rt c n)")
      (auto simp: chasePage_def chase_loop.simps with_profiles_def enrich_author_profiles_def)
qed

text \<open>The reason a member's read was rejected with: an \<open>Error\<close> object with its message, or anything else.\<close>

datatype rejection = ErrorObject string | OtherReason

fun memberReadFailure :: "(rejection + id_page) list \<Rightarrow> string" where
  "memberReadFailure [] = ''Couldn't load this list's posts.''"
| "memberReadFailure (Inl (ErrorObject msg) # rs) = msg"
| "memberReadFailure (_ # rs) = memberReadFailure rs"

definition memberOrder :: "cogno_post \<Rightarrow> cogno_post \<Rightarrow> int" where
  "memberOrder a b = (if p_id a = p_id b then 0 else if p_id a > p_id b then -1 else 1)"

lemma memberOrder_byIdDesc: "memberOrder = byIdDesc"
  by (intro ext) (simp add: memberOrder_def byIdDesc_def)

definition fulfilled :: "(rejection + id_page) list \<Rightarrow> id_page list" where
  "fulfilled settled = List.map_filter (\<lambda>r. case r of Inr pg \<Rightarrow> Some pg | Inl _ \<Rightarrow> None) settled"

text \<open>
  \<open>rejects\<close> says which member reads fail at this moment; the others return that author's page.
\<close>

definition nodeMembersFeedPage ::
  "papi \<Rightarrow> (ss58 \<Rightarrow> rejection option) \<Rightarrow> ss58 list \<Rightarrow> ss58 option \<Rightarrow> chain \<Rightarrow> nat option \<Rightarrow> nat \<Rightarrow> string + id_page" where
  "nodeMembersFeedPage pa rejects members viewer st beforeId limit =
     (let scoped = take MAX_FEED_MEMBERS members
      in if scoped = [] then Inr \<lparr>ip_posts = [], ip_nextCursor = None\<rparr>
         else
           let target = clampLimit limit;
               settled = map (\<lambda>m. case rejects m of Some r \<Rightarrow> Inl r
                               | None \<Rightarrow> Inr (nodeAuthorFeedPage pa m viewer st beforeId target)) scoped;
               pages = fulfilled settled;
               anyMemberFailed = (length settled \<noteq> length pages)
           in if pages = [] \<or> (anyMemberFailed \<and> beforeId = None) then Inl (memberReadFailure settled)
              else
                let merged = js_sort memberOrder (concat (map ip_posts pages));
                    slice = take target merged;
                    anyMemberHasMore = list_ex (\<lambda>p. ip_nextCursor p \<noteq> None) pages;
                    truncated = (length slice < length merged);
                    hasMore = (truncated \<or> anyMemberHasMore \<or> anyMemberFailed)
                in if hasMore \<and> slice = [] then Inl (memberReadFailure settled)
                   else Inr \<lparr>ip_posts = slice,
                             ip_nextCursor = (if hasMore then Some (nat (p_id (last slice))) else None)\<rparr>)"

text \<open>The timeline it should page: the top-level posts of the members, newest first.\<close>

definition members_ids :: "ss58 list \<Rightarrow> chain \<Rightarrow> nat list" where
  "members_ids ms st = post_ids (\<lambda>p. po_parent p = None \<and> po_author p \<in> set ms) st"

definition author_row :: "papi \<Rightarrow> ss58 option \<Rightarrow> chain \<Rightarrow> nat \<Rightarrow> cogno_post" where
  "author_row pa viewer st i =
     mapEnrichedPost pa (enrich_author_profile st (the (fetch_enriched i viewer (staker_weights st) st))) (viewer \<noteq> None)"

lemma enrich_author_profile_id [simp]:
  "e_id (enrich_author_profile st e) = e_id e" "e_author (enrich_author_profile st e) = e_author e"
  by (simp_all add: enrich_author_profile_def split: prod.split)

lemma mapEnrichedPost_id [simp]:
  "p_id (mapEnrichedPost pa e hv) = int (e_id e)" "p_author (mapEnrichedPost pa e hv) = e_author e"
  by (simp_all add: mapEnrichedPost_def Let_def)

lemma enrich_id [simp]: "e_id (enrich i p viewer ws st) = i" "e_author (enrich i p viewer ws st) = po_author p"
  by (simp_all add: enrich_def Let_def split: prod.split)

lemma post_ids_exist: "i \<in> set (post_ids P st) \<Longrightarrow> \<exists>p. Posts st i = Some p \<and> P p"
  by (auto simp: post_ids_def split: option.splits)

lemma author_row_id: "i \<in> set (post_ids P st) \<Longrightarrow> p_id (author_row pa viewer st i) = int i"
  using post_ids_exist [of i P st] by (auto simp: author_row_def fetch_enriched_def)

lemma map_filter_fetch:
  "set is \<subseteq> set (post_ids P st) \<Longrightarrow>
   List.map_filter (\<lambda>i. fetch_enriched i viewer ws st) is = map (\<lambda>i. the (fetch_enriched i viewer ws st)) is"
  by (induction "is") (auto simp: map_filter_simps fetch_enriched_def dest!: post_ids_exist)

lemma nodeAuthorFeedPage_eq:
  assumes "readable st" and "0 < n" and "n \<le> RT_MAX_PAGE"
  shows "ip_posts (nodeAuthorFeedPage pa a viewer st c n) =
           map (author_row pa viewer st) (take n (index_below (author_ids a st) c))"
    and "ip_nextCursor (nodeAuthorFeedPage pa a viewer st c n) = None \<Longrightarrow>
           length (index_below (author_ids a st) c) \<le> n"
    and "ip_nextCursor (nodeAuthorFeedPage pa a viewer st c n) \<noteq> None \<Longrightarrow>
           n \<le> length (index_below (author_ids a st) c)"
proof -
  let ?rt = "author_feed_page a viewer st"
  let ?view = "\<lambda>i. fetch_enriched i viewer (staker_weights st) st"
  obtain k where k: "page_of (index_below (author_ids a st)) ?view c n (raw (?rt c n)) k"
    using author_feed.page [OF assms] by blast
  have full: "fr_next_cursor (?rt c n) \<noteq> None \<Longrightarrow> n \<le> length (fr_posts (?rt c n))"
    using author_feed.full [OF assms, of a viewer c] by simp
  have eq: "nodeAuthorFeedPage pa a viewer st c n =
      \<lparr>ip_posts = map (\<lambda>e. mapEnrichedPost pa (enrich_author_profile st e) (viewer \<noteq> None)) (fr_posts (?rt c n)),
       ip_nextCursor = fr_next_cursor (?rt c n)\<rparr>"
    unfolding nodeAuthorFeedPage_def
    by (rule chasePage_dense [where rt = ?rt]) (use k full assms in blast)+
  have sub: "set (index_below (author_ids a st) c) \<subseteq> set (post_ids (\<lambda>p. po_parent p = None \<and> po_author p = a) st)"
    by (auto simp: index_below_def author_ids_def)
  have posts: "fr_posts (?rt c n) = take n (List.map_filter ?view (index_below (author_ids a st) c))"
    using author_feed.page_take [OF assms, of a viewer c] by simp
  then show "ip_posts (nodeAuthorFeedPage pa a viewer st c n) =
      map (author_row pa viewer st) (take n (index_below (author_ids a st) c))"
    unfolding eq map_filter_fetch [OF sub] by (simp add: take_map author_row_def)
  show "length (index_below (author_ids a st) c) \<le> n" if "ip_nextCursor (nodeAuthorFeedPage pa a viewer st c n) = None"
    using k that map_filter_fetch [OF sub, of viewer "staker_weights st"] unfolding eq
    by (auto simp: page_of_def)
  show "n \<le> length (index_below (author_ids a st) c)" if "ip_nextCursor (nodeAuthorFeedPage pa a viewer st c n) \<noteq> None"
    using full that posts map_filter_fetch [OF sub, of viewer "staker_weights st"] unfolding eq by simp
qed

lemma take_filter_superset: "set (take n xs) \<subseteq> A \<Longrightarrow> take n (filter (\<lambda>x. x \<in> A) xs) = take n xs"
proof -
  assume sub: "set (take n xs) \<subseteq> A"
  have "filter (\<lambda>x. x \<in> A) xs = filter (\<lambda>x. x \<in> A) (take n xs) @ filter (\<lambda>x. x \<in> A) (drop n xs)"
    by (metis append_take_drop_id filter_append)
  moreover have "filter (\<lambda>x. x \<in> A) (take n xs) = take n xs" using sub by (intro filter_True) auto
  ultimately show ?thesis by (cases "n \<le> length xs") simp_all
qed

lemma take_filter_subset: "set (filter P (take n xs)) \<subseteq> set (take n (filter P xs))"
proof -
  have "filter P xs = filter P (take n xs) @ filter P (drop n xs)" by (metis append_take_drop_id filter_append)
  moreover have "length (filter P (take n xs)) \<le> n" using length_filter_le [of P "take n xs"] by simp
  ultimately show ?thesis by simp
qed

lemma index_below_nth:
  assumes "sorted_wrt (<) xs" and "0 < n" and "n \<le> length (index_below xs c)"
  shows "index_below xs (Some (index_below xs c ! (n - 1))) = drop n (index_below xs c)"
proof -
  define Q where "Q i = (case c of None \<Rightarrow> True | Some b \<Rightarrow> i < b)" for i
  define ys where "ys = filter Q xs"
  have below: "index_below xs c = rev ys" by (simp add: index_below_def ys_def Q_def [abs_def])
  define m where "m = length ys - n"
  define x where "x = index_below xs c ! (n - 1)"
  have sorted: "sorted_wrt (<) ys" using assms(1) by (simp add: ys_def sorted_wrt_filter)
  have n: "n \<le> length ys" using assms(3) by (simp add: below)
  have x: "x = ys ! m" using n assms(2) by (simp add: x_def below rev_nth m_def)
  have "Q x" using n assms(2) nth_mem [of m ys] by (simp add: x m_def ys_def)
  then have "filter (\<lambda>i. i < x) xs = filter (\<lambda>i. i < x) ys"
    unfolding ys_def filter_filter by (intro filter_cong) (auto simp: Q_def split: option.splits)
  also have "\<dots> = take m ys"
  proof (rule filter_take)
    show "ys ! s < x" if "s < m" for s using sorted_wrt_nth_less [OF sorted that] n assms(2) by (simp add: x m_def)
    show "\<not> ys ! s < x" if "m \<le> s" "s < length ys" for s
      using sorted_wrt_nth_less [OF sorted, of m s] that x by (cases "s = m") auto
  qed (simp add: m_def)
  finally show ?thesis
    unfolding x_def [symmetric] using n by (simp add: below drop_rev m_def index_below_def [of xs "Some x"])
qed

text \<open>The part of the timeline below a cursor that one member wrote.\<close>

definition written_by :: "chain \<Rightarrow> ss58 \<Rightarrow> nat \<Rightarrow> bool" where
  "written_by st a i = (case Posts st i of Some p \<Rightarrow> po_author p = a | None \<Rightarrow> False)"

lemma author_ids_below:
  assumes "a \<in> set ms"
  shows "index_below (author_ids a st) c = filter (written_by st a) (index_below (members_ids ms st) c)"
proof -
  have "author_ids a st = filter (written_by st a) (members_ids ms st)"
    unfolding author_ids_def members_ids_def post_ids_def filter_filter
    by (intro filter_cong) (use assms in \<open>auto simp: written_by_def split: option.splits\<close>)
  then show ?thesis by (auto simp: index_below_def rev_filter filter_filter intro!: filter_cong)
qed

lemma newest_first_rows:
  assumes "sorted_wrt (>) is" and "set is \<subseteq> set (post_ids P st)"
  shows "newest_first (map (author_row pa viewer st) is)"
  using assms by (induction "is") (auto simp: author_row_id [of _ P] subset_iff)

lemma index_below_sorted: "sorted_wrt (<) xs \<Longrightarrow> sorted_wrt (>) (index_below xs c)"
  by (simp add: index_below_def sorted_wrt_rev sorted_wrt_filter)

lemma distinct_concat_by:
  assumes "distinct ms" and "\<And>a. distinct (f a)" and "\<And>a b x. x \<in> set (f a) \<Longrightarrow> x \<in> set (f b) \<Longrightarrow> a = b"
  shows "distinct (concat (map f ms))"
  using assms(1) by (induction ms) (use assms(2,3) in auto)

definition top_of_each :: "chain \<Rightarrow> ss58 list \<Rightarrow> nat \<Rightarrow> nat list \<Rightarrow> nat list" where
  "top_of_each st ms n xs = concat (map (\<lambda>a. take n (filter (written_by st a) xs)) ms)"

lemma top_of_each_facts:
  assumes "distinct ms" and "distinct xs"
  shows "distinct (top_of_each st ms n xs)" and "set (top_of_each st ms n xs) \<subseteq> set xs"
proof -
  show "distinct (top_of_each st ms n xs)"
    unfolding top_of_each_def
    by (rule distinct_concat_by [OF assms(1)])
      (use assms(2) in \<open>auto simp: written_by_def dest!: in_set_takeD split: option.splits\<close>)
  show "set (top_of_each st ms n xs) \<subseteq> set xs"
    by (auto simp: top_of_each_def dest!: in_set_takeD)
qed

lemma merged_members:
  assumes "distinct ms" and "sorted_wrt (>) xs" and sub: "set xs \<subseteq> set (post_ids P st)"
  shows "js_sort memberOrder (map (author_row pa viewer st) (top_of_each st ms n xs)) =
           map (author_row pa viewer st) (filter (\<lambda>i. i \<in> set (top_of_each st ms n xs)) xs)"
proof (rule newest_first_unique)
  let ?T = "top_of_each st ms n xs" and ?row = "author_row pa viewer st"
  have "distinct xs" using assms(2) by (induction xs) auto
  note T = top_of_each_facts [OF assms(1) this, of st n]
  have ids: "map p_id (map ?row ?T) = map int ?T"
    using T(2) sub by (auto simp: author_row_id [of _ P] subset_iff)
  have "distinct (map p_id (map ?row ?T))" unfolding ids using T(1) by (simp add: distinct_map)
  then show "newest_first (js_sort memberOrder (map ?row ?T))"
    unfolding memberOrder_byIdDesc by (rule newest_first_sort)
  show "newest_first (map ?row (filter (\<lambda>i. i \<in> set ?T) xs))"
    by (rule newest_first_rows [where P = P]) (use assms in \<open>auto simp: sorted_wrt_filter\<close>)
  show "set (js_sort memberOrder (map ?row ?T)) = set (map ?row (filter (\<lambda>i. i \<in> set ?T) xs))"
    using T(2) by auto
qed

text \<open>Every one of the newest \<open>n\<close> posts is among the newest \<open>n\<close> of its author.\<close>

lemma top_of_each_covers:
  assumes "\<And>i. i \<in> set xs \<Longrightarrow> \<exists>a \<in> set ms. written_by st a i"
  shows "set (take n xs) \<subseteq> set (top_of_each st ms n xs)"
proof
  fix i
  assume i: "i \<in> set (take n xs)"
  then obtain a where "a \<in> set ms" "written_by st a i" using assms by (meson in_set_takeD)
  with i take_filter_subset [of "written_by st a" n xs] show "i \<in> set (top_of_each st ms n xs)"
    by (auto simp: top_of_each_def)
qed

lemma map_filter_total: "(\<And>x. x \<in> set xs \<Longrightarrow> f x = Some (g x)) \<Longrightarrow> List.map_filter f xs = map g xs"
  by (induction xs) (auto simp: map_filter_simps)

lemma list_ex_map_of: "list_ex P (map f xs) = list_ex (\<lambda>x. P (f x)) xs"
  by (induction xs) simp_all

lemma fulfilled_all: "fulfilled (map (\<lambda>m. Inr (f m)) ms) = map f ms"
  by (induction ms) (simp_all add: fulfilled_def map_filter_simps)

text \<open>
  C7: a list's timeline pages the posts of its members exactly: for at most \<open>MAX_FEED_MEMBERS\<close> distinct
  members, when no member's read fails, a page is the newest \<open>n\<close> of their top-level posts below the
  cursor, and its cursor leaves exactly the older ones, although each member was only asked for \<open>n\<close>
  posts and the cursor is just the lowest id returned.
\<close>

theorem members_page_exact:
  assumes "readable st" and "0 < n" and "n \<le> MAX_PAGE" and "distinct ms" and "ms \<noteq> []"
    and "length ms \<le> MAX_FEED_MEMBERS"
  shows "\<exists>pg. nodeMembersFeedPage pa (\<lambda>_. None) ms viewer st c n = Inr pg \<and>
           ip_posts pg = map (author_row pa viewer st) (take n (index_below (members_ids ms st) c)) \<and>
           (case ip_nextCursor pg of
              None \<Rightarrow> length (index_below (members_ids ms st) c) \<le> n
            | Some c' \<Rightarrow> index_below (members_ids ms st) (Some c') = drop n (index_below (members_ids ms st) c))"
proof -
  define xs where "xs = index_below (members_ids ms st) c"
  let ?row = "author_row pa viewer st" and ?page = "\<lambda>m. nodeAuthorFeedPage pa m viewer st c n"
  have n: "n \<le> RT_MAX_PAGE" "clampLimit n = n"
    using assms(2,3) by (simp_all add: MAX_PAGE_def RT_MAX_PAGE_def clampLimit_def)
  note page = nodeAuthorFeedPage_eq [OF assms(1,2) n(1), of pa _ viewer c]
  have sub: "set xs \<subseteq> set (post_ids (\<lambda>p. po_parent p = None \<and> po_author p \<in> set ms) st)"
    by (auto simp: xs_def index_below_def members_ids_def)
  have sorted: "sorted_wrt (>) xs"
    unfolding xs_def by (rule index_below_sorted) (simp add: members_ids_def post_ids_sorted)
  have own: "index_below (author_ids m st) c = filter (written_by st m) xs" if "m \<in> set ms" for m
    unfolding xs_def by (rule author_ids_below [OF that])
  define T where "T = top_of_each st ms n xs"
  have "map ip_posts (map ?page ms) = map (\<lambda>a. map ?row (take n (filter (written_by st a) xs))) ms"
    using page(1) own by simp
  moreover have "concat (map (\<lambda>a. map ?row (take n (filter (written_by st a) xs))) ms) = map ?row T"
    by (simp add: T_def top_of_each_def map_concat comp_def)
  ultimately have "concat (map ip_posts (map ?page ms)) = map ?row T" by (simp only:)
  then have merged: "js_sort memberOrder (concat (map ip_posts (map ?page ms))) = map ?row (filter (\<lambda>i. i \<in> set T) xs)"
    unfolding T_def using merged_members [OF assms(4) sorted sub] by simp
  have cover: "set (take n xs) \<subseteq> set T"
    unfolding T_def
    by (rule top_of_each_covers) (use sub in \<open>auto simp: written_by_def subset_iff dest!: post_ids_exist\<close>)
  define more where "more \<longleftrightarrow> n < length (filter (\<lambda>i. i \<in> set T) xs) \<or> list_ex (\<lambda>m. ip_nextCursor (?page m) \<noteq> None) ms"
  have some: "n \<le> length xs" if "more"
    using that unfolding more_def
  proof
    assume "n < length (filter (\<lambda>i. i \<in> set T) xs)"
    with length_filter_le [of "\<lambda>i. i \<in> set T" xs] show ?thesis by linarith
  next
    assume "list_ex (\<lambda>m. ip_nextCursor (?page m) \<noteq> None) ms"
    then obtain m where m: "m \<in> set ms" "ip_nextCursor (?page m) \<noteq> None" by (auto simp: list_ex_iff)
    with page(3) own have "n \<le> length (filter (written_by st m) xs)" by metis
    with length_filter_le [of "written_by st m" xs] show ?thesis by linarith
  qed
  have none: "length xs \<le> n" if "\<not> more"
  proof -
    have le: "length (filter (written_by st m) xs) \<le> n" if "m \<in> set ms" for m
    proof -
      have "ip_nextCursor (?page m) = None" using \<open>\<not> more\<close> that by (auto simp: more_def list_ex_iff)
      from page(2) [OF this] own [OF that] show ?thesis by simp
    qed
    have "set xs \<subseteq> set T"
    proof
      fix i
      assume i: "i \<in> set xs"
      from post_ids_exist [OF subsetD [OF sub i]]
      obtain p where p: "Posts st i = Some p" "po_author p \<in> set ms" by blast
      with i le [OF p(2)] have "i \<in> set (take n (filter (written_by st (po_author p)) xs))"
        by (simp add: written_by_def)
      with p(2) show "i \<in> set T" unfolding T_def top_of_each_def by auto
    qed
    then have "filter (\<lambda>i. i \<in> set T) xs = xs" by (intro filter_True) auto
    with \<open>\<not> more\<close> show ?thesis by (simp add: more_def)
  qed
  have slice: "take n (map ?row (filter (\<lambda>i. i \<in> set T) xs)) = map ?row (take n xs)"
    by (simp add: take_map take_filter_superset [OF cover])
  have last: "nat (p_id (last (map ?row (take n xs)))) = xs ! (n - 1)" "take n xs \<noteq> []" if "more"
  proof -
    have len: "length (take n xs) = n" using some [OF that] by simp
    then show ne: "take n xs \<noteq> []" using assms(2) by auto
    have "last (take n xs) = xs ! (n - 1)" using len ne assms(2) by (simp add: last_conv_nth)
    moreover have "xs ! (n - 1) \<in> set xs" using some [OF that] assms(2) by simp
    ultimately show "nat (p_id (last (map ?row (take n xs)))) = xs ! (n - 1)"
      using ne sub by (auto simp: last_map author_row_id subset_iff)
  qed
  have drop: "index_below (members_ids ms st) (Some (xs ! (n - 1))) = drop n xs" if "more"
    using index_below_nth [OF post_ids_sorted assms(2)] some [OF that]
    unfolding xs_def members_ids_def by blast
  have trunc: "length (take n xs) < length (filter (\<lambda>i. i \<in> set T) xs) \<longleftrightarrow>
      n < length (filter (\<lambda>i. i \<in> set T) xs)"
    using arg_cong [OF slice, of length] by auto
  have "nodeMembersFeedPage pa (\<lambda>_. None) ms viewer st c n =
          (if more \<and> map ?row (take n xs) = [] then Inl (memberReadFailure (map (\<lambda>m. Inr (?page m)) ms))
           else Inr \<lparr>ip_posts = map ?row (take n xs),
                     ip_nextCursor = (if more then Some (nat (p_id (last (map ?row (take n xs))))) else None)\<rparr>)"
    using assms(5,6)
    by (simp only: nodeMembersFeedPage_def Let_def n(2) take_all option.case fulfilled_all merged slice trunc
        more_def list_ex_map_of comp_def length_map map_is_Nil_conv if_False if_True simp_thms)
  then have "nodeMembersFeedPage pa (\<lambda>_. None) ms viewer st c n =
          Inr \<lparr>ip_posts = map ?row (take n xs), ip_nextCursor = (if more then Some (xs ! (n - 1)) else None)\<rparr>"
    using last by simp
  with none drop show ?thesis by (auto simp: xs_def [symmetric])
qed

lemma readable_demo: "readable demo_chain"
  using chain_reachable_inv [OF chain_reachable_demo] by (simp add: readable_def u64_max_def)

lemma members_page_exact_witness:
  "\<exists>pg. nodeMembersFeedPage demo_papi (\<lambda>_. None) [''alice'', ''bob''] None demo_chain None 1 = Inr pg \<and>
     ip_posts pg = map (author_row demo_papi None demo_chain)
       (take 1 (index_below (members_ids [''alice'', ''bob''] demo_chain) None))"
  using members_page_exact [OF readable_demo, of 1 "[''alice'', ''bob'']" demo_papi None None]
  by (auto simp: MAX_PAGE_def MAX_FEED_MEMBERS_def)

text \<open>The rows of the whole global feed, newest first.\<close>

lemma global_rows:
  assumes "readable st"
  shows "List.map_filter (client_view pa (viewer \<noteq> None) (\<lambda>_. True) st (spine_pick viewer (\<lambda>_. True) st)) (spine_below st None) =
    map (author_row pa viewer st) (rev (post_ids (\<lambda>p. po_parent p = None) st))"
proof -
  let ?ids = "post_ids (\<lambda>p. po_parent p = None) st"
  let ?view = "client_view pa (viewer \<noteq> None) (\<lambda>_. True) st (spine_pick viewer (\<lambda>_. True) st)"
  have ix: "indexes (TopLevelPosts st) (NextTopLevelSeq st) ?ids"
    using assms by (simp add: readable_def chain_inv_def posts_inv_def)
  have view: "?view s = Some (author_row pa viewer st (?ids ! s))" if "s < length ?ids" for s
  proof -
    have "?ids ! s \<in> set ?ids" using that by simp
    from post_ids_exist [OF this] obtain p where "Posts st (?ids ! s) = Some p" by blast
    with ix that show ?thesis
      by (simp add: indexes_def client_view_def spine_pick_def fetch_enriched_def author_row_def shown_def profiled_def)
  qed
  have rest: "spine_below st None = down_from (length ?ids)" using ix by (simp add: indexes_def spine_below_def below_def)
  have "List.map_filter ?view (down_from (length ?ids)) =
          map (\<lambda>s. author_row pa viewer st (?ids ! s)) (down_from (length ?ids))"
    using view by (intro map_filter_total) (simp add: down_from_def)
  also have "\<dots> = rev (map (author_row pa viewer st) (map ((!) ?ids) [0..<length ?ids]))"
    by (simp add: down_from_def rev_map)
  finally show ?thesis by (simp add: rest map_nth rev_map)
qed

text \<open>The first page of the global feed: the newest top-level posts, as many as the clamped size.\<close>

lemma global_first_page:
  assumes "readable st"
  shows "ip_posts (nodeGlobalFeedPage pa viewer st None n) =
    map (author_row pa viewer st) (take (clampLimit n) (rev (post_ids (\<lambda>p. po_parent p = None) st)))"
proof -
  let ?m = "clampLimit n" and ?rt = "rt_feed_page viewer st" and ?pick = "spine_pick viewer (\<lambda>_. True) st"
  have m: "0 < ?m" "?m \<le> RT_MAX_PAGE" by simp_all
  obtain k where k: "page_of (spine_below st) ?pick None ?m (raw (?rt None ?m)) k" using feed.page [OF assms m] by blast
  have full: "fr_next_cursor (?rt None ?m) \<noteq> None \<Longrightarrow> ?m \<le> length (fr_posts (?rt None ?m))"
    using feed.full [OF assms m, of viewer None] by simp
  have "nodeGlobalFeedPage pa viewer st None n = nodeGlobalFeedPage pa viewer st None ?m"
    by (simp add: nodeGlobalFeedPage_def chasePage_def)
  also have "ip_posts \<dots> = map (\<lambda>e. mapEnrichedPost pa (enrich_author_profile st e) (viewer \<noteq> None)) (fr_posts (?rt None ?m))"
    unfolding nodeGlobalFeedPage_def by (subst chasePage_dense [where rt = ?rt]) (use k full m in auto)
  also have "\<dots> = take ?m (map (\<lambda>e. mapEnrichedPost pa (enrich_author_profile st e) (viewer \<noteq> None))
      (List.map_filter ?pick (spine_below st None)))"
    using feed.page_take [OF assms m, of viewer None] by (simp add: take_map)
  also have "map (\<lambda>e. mapEnrichedPost pa (enrich_author_profile st e) (viewer \<noteq> None)) (List.map_filter ?pick (spine_below st None)) =
      List.map_filter (client_view pa (viewer \<noteq> None) (\<lambda>_. True) st ?pick) (spine_below st None)"
    by (simp add: client_view_def map_filter_shown map_filter_profiled)
  also note global_rows [OF assms]
  finally show ?thesis by (simp add: take_map)
qed

text \<open>
  Paging the global feed to its end, with any page size up to the cap, shows every top-level
  post of the chain exactly once, newest first, each as the decoded enriched post, and the walk ends.
\<close>

lemma global_feed_walk:
  assumes "readable st" and "0 < n" and "n \<le> MAX_PAGE" and "NextTopLevelSeq st < fuel"
  shows "walk_pages (\<lambda>c k. idp (nodeGlobalFeedPage pa viewer st c k)) n fuel None =
           Some (map (author_row pa viewer st) (rev (post_ids (\<lambda>p. po_parent p = None) st)))"
proof -
  have "length (spine_below st None) = NextTopLevelSeq st" by (simp add: spine_below_def below_def)
  with node_global.walk_complete [OF assms(1,2), where fuel = fuel and c = None and pa = pa and viewer = viewer] assms(3,4) show ?thesis
    using global_rows [OF assms(1), of pa viewer] by (simp add: MAX_PAGE_def RT_MAX_PAGE_def)
qed

lemma global_feed_walk_witness:
  "walk_pages (\<lambda>c k. idp (nodeGlobalFeedPage demo_papi None demo_chain c k)) 1 3 None =
     Some (map (author_row demo_papi None demo_chain) (rev (post_ids (\<lambda>p. po_parent p = None) demo_chain)))"
proof (rule global_feed_walk [OF readable_demo])
  show "NextTopLevelSeq demo_chain < 3"
    by (simp add: demo_chain_def demo_posted_def demo_bound_def genesis_def insert_post_indexes u64_max_def saturating_add_def)
qed (simp_all add: MAX_PAGE_def)

end
