(* ===== verification/Thread_Reads.thy ===== *)
theory Thread_Reads
  imports Node_Reads "HOL-Library.List_Lexorder"
begin

text \<open>
  The reads of a conversation and of the reverse tabs of a profile: \<open>thread\<close>, \<open>replies_page\<close>, \<open>author_replies_page\<close>,
  \<open>likes_page\<close> and \<open>follow_edges\<close> of \<open>pallets/microblog/src/lib.rs\<close>, the client readers of \<open>chain/node-reads.ts\<close>
  over them, and the keyed fallback \<open>getThread\<close> of \<open>chain/reads.ts\<close>.  The paged ones satisfy the contract of a paged
  read, like the feeds.
\<close>

definition MAX_THREAD_DEPTH :: nat where "MAX_THREAD_DEPTH = 64"
definition MAX_THREAD_REPLIES :: nat where "MAX_THREAD_REPLIES = 512"
definition MAX_EDGES :: nat where "MAX_EDGES = 1000"

section \<open>The runtime\<close>

text \<open>Down the seq spine of a parent, bounded by the slots examined.\<close>

fun replies_loop ::
  "(nat \<Rightarrow> nat option) \<Rightarrow> (nat \<Rightarrow> enriched_post option) \<Rightarrow> nat \<Rightarrow> nat \<Rightarrow> enriched_post list \<Rightarrow> nat \<Rightarrow> feed_page_raw" where
  "replies_loop get fetch limit examined posts 0 = \<lparr>fr_posts = posts, fr_next_cursor = None\<rparr>"
| "replies_loop get fetch limit examined posts (Suc seq) =
     (if examined < limit
      then replies_loop get fetch limit (Suc examined)
             (case get seq of None \<Rightarrow> posts | Some i \<Rightarrow> (case fetch i of None \<Rightarrow> posts | Some e \<Rightarrow> posts @ [e])) seq
      else \<lparr>fr_posts = posts, fr_next_cursor = Some (Suc seq)\<rparr>)"

definition replies_from_seq ::
  "nat \<Rightarrow> nat option \<Rightarrow> nat \<Rightarrow> ss58 option \<Rightarrow> (ss58 \<times> nat) list \<Rightarrow> chain \<Rightarrow> feed_page_raw" where
  "replies_from_seq parent before_seq limit viewer ws st =
     (let cnt = ReplyCount st parent;
          seq = (case before_seq of Some b \<Rightarrow> min b cnt | None \<Rightarrow> cnt)
      in replies_loop (RepliesByParentSeq st parent) (\<lambda>i. fetch_enriched i viewer ws st) limit 0 [] seq)"

definition replies_page :: "nat \<Rightarrow> ss58 option \<Rightarrow> chain \<Rightarrow> nat option \<Rightarrow> nat \<Rightarrow> feed_page_raw" where
  "replies_page parent viewer st before_seq limit =
     replies_from_seq parent before_seq (clamp_limit limit) viewer (staker_weights st) st"

text \<open>The parent walk of a thread, deepest first: the depth cap, the visited set and a dangling parent end it.\<close>

function ancestor_walk :: "nat \<Rightarrow> (nat \<Rightarrow> 'p option) \<Rightarrow> ('p \<Rightarrow> nat option) \<Rightarrow> nat set \<Rightarrow> nat \<Rightarrow> nat option \<Rightarrow> 'p list" where
  "ancestor_walk cap fetch par seen depth cursor = (case cursor of
     None \<Rightarrow> []
   | Some pid \<Rightarrow>
       if cap \<le> depth \<or> pid \<in> seen then []
       else case fetch pid of
              None \<Rightarrow> []
            | Some p \<Rightarrow> p # ancestor_walk cap fetch par (insert pid seen) (Suc depth) (par p))"
  by pat_completeness auto
termination
  by (relation "measure (\<lambda>(cap, _, _, _, depth, _). cap - depth)") auto

declare ancestor_walk.simps [simp del]

record raw_thread =
  th_ancestors :: "enriched_post list"
  th_focal :: "enriched_post option"
  th_replies :: "enriched_post list"
  th_replies_next_cursor :: "nat option"

definition rt_thread :: "nat \<Rightarrow> ss58 option \<Rightarrow> chain \<Rightarrow> raw_thread" where
  "rt_thread focal viewer st =
     (let ws = staker_weights st;
          fetch = (\<lambda>i. fetch_enriched i viewer ws st);
          pg = replies_from_seq focal None MAX_THREAD_REPLIES viewer ws st
      in \<lparr>th_ancestors = (case fetch focal of None \<Rightarrow> [] | Some fp \<Rightarrow> rev (ancestor_walk MAX_THREAD_DEPTH fetch e_parent {focal} 0 (e_parent fp))),
          th_focal = fetch focal, th_replies = rev (fr_posts pg), th_replies_next_cursor = fr_next_cursor pg\<rparr>)"

text \<open>The runtime fills in the author fields of every part.\<close>

definition thread_with_profiles :: "chain \<Rightarrow> raw_thread \<Rightarrow> raw_thread" where
  "thread_with_profiles st t =
     t\<lparr>th_ancestors := enrich_author_profiles st (th_ancestors t), th_focal := map_option (enrich_author_profile st) (th_focal t),
       th_replies := enrich_author_profiles st (th_replies t)\<rparr>"

definition top_level_post_count :: "ss58 \<Rightarrow> chain \<Rightarrow> nat" where
  "top_level_post_count author st = min (TopLevelByAuthorCount st author) u32_max"

text \<open>An author's replies: a filtered walk of their whole index, with a scan budget.\<close>

fun author_replies_loop ::
  "(nat \<Rightarrow> nat option) \<Rightarrow> (nat \<Rightarrow> post option) \<Rightarrow> (nat \<Rightarrow> post \<Rightarrow> enriched_post) \<Rightarrow> nat option \<Rightarrow> nat \<Rightarrow> nat \<Rightarrow> nat \<Rightarrow>
   enriched_post list \<Rightarrow> nat \<Rightarrow> feed_page_raw"
where
  "author_replies_loop get posts enr before_id limit max_scan examined acc 0 = \<lparr>fr_posts = acc, fr_next_cursor = None\<rparr>"
| "author_replies_loop get posts enr before_id limit max_scan examined acc (Suc seq) =
     (case get seq of
        None \<Rightarrow> author_replies_loop get posts enr before_id limit max_scan examined acc seq
      | Some i \<Rightarrow>
          if (case before_id of Some b \<Rightarrow> b \<le> i | None \<Rightarrow> False)
          then author_replies_loop get posts enr before_id limit max_scan examined acc seq
          else if max_scan \<le> examined then \<lparr>fr_posts = acc, fr_next_cursor = Some (saturating_add u64_max i 1)\<rparr>
          else (case posts i of
             None \<Rightarrow> author_replies_loop get posts enr before_id limit max_scan (Suc examined) acc seq
           | Some p \<Rightarrow>
               if po_parent p = None then author_replies_loop get posts enr before_id limit max_scan (Suc examined) acc seq
               else if limit \<le> length acc then \<lparr>fr_posts = acc, fr_next_cursor = Some (saturating_add u64_max i 1)\<rparr>
               else author_replies_loop get posts enr before_id limit max_scan (Suc examined) (acc @ [enr i p]) seq))"

definition author_replies_page :: "ss58 \<Rightarrow> ss58 option \<Rightarrow> chain \<Rightarrow> nat option \<Rightarrow> nat \<Rightarrow> feed_page_raw" where
  "author_replies_page author viewer st before_id limit =
     (let lmt = clamp_limit limit; ws = staker_weights st
      in author_replies_loop (ByAuthor st author) (Posts st) (\<lambda>i p. enrich i p viewer ws st) before_id lmt (lmt * MAX_SCAN_FACTOR) 0 []
           (author_index_seq_below (ByAuthorCount st author) before_id (ByAuthor st author)))"

text \<open>The likes of an account: its keys in trie order, which is the order of their bytes, from a seek on.\<close>

fun likes_loop :: "(nat \<Rightarrow> enriched_post option) \<Rightarrow> nat \<Rightarrow> enriched_post list \<Rightarrow> bytes list \<Rightarrow> feed_page_raw" where
  "likes_loop fetch limit posts [] = \<lparr>fr_posts = posts, fr_next_cursor = None\<rparr>"
| "likes_loop fetch limit posts (key # ks) =
     (let i = post_of_desc_key key
      in if limit \<le> length posts then \<lparr>fr_posts = posts, fr_next_cursor = Some (saturating_add u64_max i 1)\<rparr>
         else likes_loop fetch limit (case fetch i of Some e \<Rightarrow> posts @ [e] | None \<Rightarrow> posts) ks)"

definition likes_page :: "ss58 \<Rightarrow> ss58 option \<Rightarrow> chain \<Rightarrow> nat option \<Rightarrow> nat \<Rightarrow> feed_page_raw" where
  "likes_page who viewer st before_id limit =
     (let ws = staker_weights st;
          keys = sorted_list_of_set (fst ` set (LikesByAccount st who))
      in likes_loop (\<lambda>i. fetch_enriched i viewer ws st) (clamp_limit limit) []
           (case before_id of Some b \<Rightarrow> filter (\<lambda>k. desc_key b < k) keys | None \<Rightarrow> keys))"

definition rt_follow_edges :: "ss58 \<Rightarrow> chain \<Rightarrow> follow_edges" where
  "rt_follow_edges who st =
     \<lparr>fe_followers = take MAX_EDGES (map fst (Followers st who)), fe_following = take MAX_EDGES (map fst (Following st who)),
      fe_followerCount = int (FollowerCount st who), fe_followingCount = int (FollowingCount st who)\<rparr>"

section \<open>The client\<close>

record client_thread =
  ct_root :: cogno_post
  ct_ancestors :: "cogno_post list"
  ct_replies :: "cogno_post list"
  ct_replyCount :: int
  ct_repliesCursor :: "nat option"

definition not_found :: "nat \<Rightarrow> string" where
  "not_found focalId = ''thread root #'' @ show_nat focalId @ '' not found on the node''"

definition nodeThread :: "papi \<Rightarrow> nat \<Rightarrow> ss58 option \<Rightarrow> chain \<Rightarrow> string + client_thread" where
  "nodeThread pa focalId viewer st =
     (let t = thread_with_profiles st (rt_thread focalId viewer st); conv = (\<lambda>e. mapEnrichedPost pa e (viewer \<noteq> None))
      in case th_focal t of
           None \<Rightarrow> Inl (not_found focalId)
         | Some f \<Rightarrow> Inr \<lparr>ct_root = conv f, ct_ancestors = map conv (th_ancestors t), ct_replies = map conv (th_replies t),
                        ct_replyCount = coalesce (p_replyCount (conv f)) 0, ct_repliesCursor = th_replies_next_cursor t\<rparr>)"

definition nodeRepliesPage :: "papi \<Rightarrow> nat \<Rightarrow> ss58 option \<Rightarrow> chain \<Rightarrow> nat option \<Rightarrow> nat \<Rightarrow> id_page" where
  "nodeRepliesPage pa parent viewer st beforeSeq limit =
     (let (es, nx) = with_profiles st (replies_page parent viewer st beforeSeq (clampLimit limit))
      in \<lparr>ip_posts = map (\<lambda>e. mapEnrichedPost pa e (viewer \<noteq> None)) es, ip_nextCursor = nx\<rparr>)"

definition nodeAuthorPostCount :: "ss58 \<Rightarrow> chain \<Rightarrow> nat" where
  "nodeAuthorPostCount author st = top_level_post_count author st"

definition nodeAuthorRepliesPage :: "papi \<Rightarrow> ss58 \<Rightarrow> ss58 option \<Rightarrow> chain \<Rightarrow> nat option \<Rightarrow> nat \<Rightarrow> id_page" where
  "nodeAuthorRepliesPage pa author viewer st beforeId limit =
     chasePage pa (\<lambda>c n. with_profiles st (author_replies_page author viewer st c n)) beforeId limit (viewer \<noteq> None) None None"

definition nodeLikesPage :: "papi \<Rightarrow> ss58 \<Rightarrow> ss58 option \<Rightarrow> chain \<Rightarrow> nat option \<Rightarrow> nat \<Rightarrow> id_page" where
  "nodeLikesPage pa who viewer st beforeId limit =
     chasePage pa (\<lambda>c n. with_profiles st (likes_page who viewer st c n)) beforeId limit (viewer \<noteq> None) None None"

text \<open>\<open>state_call_fails\<close>: the runtime call went over its limits, and the two prefixes are read instead.\<close>

definition nodeFollowEdges :: "bool \<Rightarrow> ss58 \<Rightarrow> chain \<Rightarrow> follow_edges" where
  "nodeFollowEdges state_call_fails who st =
     (if \<not> state_call_fails then rt_follow_edges who st
      else \<lparr>fe_followers = map fst (Followers st who), fe_following = map fst (Following st who),
            fe_followerCount = int (FollowerCount st who), fe_followingCount = int (FollowingCount st who)\<rparr>)"

subsection \<open>The keyed fallback\<close>

definition MAX_ANCESTOR_DEPTH :: nat where "MAX_ANCESTOR_DEPTH = 64"

text \<open>An account without a profile row has empty fields.\<close>

definition profile_name :: "papi \<Rightarrow> chain \<Rightarrow> ss58 \<Rightarrow> string option" where
  "profile_name pa st a = binTextOpt pa (fst (AuthorFields st a))"

definition profile_avatar :: "papi \<Rightarrow> chain \<Rightarrow> ss58 \<Rightarrow> string option" where
  "profile_avatar pa st a = binTextOpt pa (fst (snd (AuthorFields st a)))"

definition toCognoPost :: "papi \<Rightarrow> nat \<Rightarrow> post \<Rightarrow> cogno_post" where
  "toCognoPost pa i p = (bare_post (int i) (po_author p) (toText pa (po_text p)) (int (po_at p)))\<lparr>p_parent := map_option int (po_parent p)\<rparr>"

definition quoteRefOf :: "papi \<Rightarrow> chain \<Rightarrow> nat \<Rightarrow> post \<Rightarrow> quoted_ref" where
  "quoteRefOf pa st i qp = \<lparr>q_id = int i, q_author = po_author qp, q_text = toText pa (po_text qp), q_authorRevoked = False,
     q_displayName = profile_name pa st (po_author qp), q_avatar = profile_avatar pa st (po_author qp), q_authorRoles = None\<rparr>"

text \<open>
  One card of \<open>enrichPosts\<close>.  The keyed reads take the finalized state \<open>fin\<close>, the default of the API; only the
  tally (\<open>readPostTally\<close>) is read at the best block, and it stores counts only.
\<close>

definition enrichPost :: "papi \<Rightarrow> chain \<Rightarrow> chain \<Rightarrow> nat \<times> post \<Rightarrow> cogno_post" where
  "enrichPost pa fin best r = (case r of (i, p) \<Rightarrow>
     (toCognoPost pa i p)\<lparr>p_upWeight := Some 0, p_downWeight := Some 0, p_upCount := Some (int (up_count (VoteTally best i))),
       p_downCount := Some (int (down_count (VoteTally best i))), p_score := Some 0, p_replyCount := Some (int (ReplyCount fin i)),
       p_isPoll := (if Polls fin i \<noteq> None then Some True else None),
       p_authorDisplayName := profile_name pa fin (po_author p), p_authorAvatar := profile_avatar pa fin (po_author p),
       p_quote := (case po_quote p of None \<Rightarrow> None
         | Some q \<Rightarrow> Some (case Posts fin q of Some qp \<Rightarrow> quoteRefOf pa fin q qp
             | None \<Rightarrow> \<lparr>q_id = int q, q_author = [], q_text = [], q_authorRevoked = False, q_displayName = None, q_avatar = None, q_authorRoles = None\<rparr>))\<rparr>)"

definition replyOrder :: "nat \<Rightarrow> nat \<Rightarrow> int" where
  "replyOrder a b = (if a < b then -1 else if b < a then 1 else 0)"

definition getThread :: "papi \<Rightarrow> nat \<Rightarrow> chain \<Rightarrow> chain \<Rightarrow> string + client_thread" where
  "getThread pa focalId fin best = (case Posts fin focalId of
     None \<Rightarrow> Inl (not_found focalId)
   | Some focalVal \<Rightarrow>
       let read = (\<lambda>i. map_option (Pair i) (Posts fin i));
           ancestorsRaw = rev (ancestor_walk MAX_ANCESTOR_DEPTH read (\<lambda>(i, p). po_parent p) {focalId} 0 (po_parent focalVal));
           repliesRaw = List.map_filter read (js_sort replyOrder (map fst (RepliesByParent fin focalId)));
           root = enrichPost pa fin best (focalId, focalVal)
       in Inr \<lparr>ct_root = root, ct_ancestors = map (enrichPost pa fin best) ancestorsRaw,
               ct_replies = map (enrichPost pa fin best) repliesRaw,
               ct_replyCount = coalesce (p_replyCount root) 0, ct_repliesCursor = None\<rparr>)"

section \<open>Replies\<close>

definition reply_ids :: "nat \<Rightarrow> chain \<Rightarrow> nat list" where
  "reply_ids q st = post_ids (\<lambda>p. po_parent p = Some q) st"

definition replies_below :: "nat list \<Rightarrow> nat option \<Rightarrow> nat list" where
  "replies_below xs c = rev (take (case c of None \<Rightarrow> length xs | Some b \<Rightarrow> min b (length xs)) xs)"

lemma replies_loop_eq:
  assumes "\<And>s. s < m \<Longrightarrow> get s = Some (xs ! s)" and "\<And>s. s < m \<Longrightarrow> fetch (xs ! s) \<noteq> None" and "m \<le> length xs" and "ex \<le> lmt"
  shows "replies_loop get fetch lmt ex posts m =
    \<lparr>fr_posts = posts @ map (the \<circ> fetch) (take (lmt - ex) (rev (take m xs))),
     fr_next_cursor = (if m \<le> lmt - ex then None else Some (m - (lmt - ex)))\<rparr>"
  using assms
proof (induction m arbitrary: ex posts)
  case (Suc m)
  have g: "get m = Some (xs ! m)" using Suc.prems(1) by simp
  obtain e where e: "fetch (xs ! m) = Some e" using Suc.prems(2) [of m] by auto
  have t: "rev (take (Suc m) xs) = xs ! m # rev (take m xs)" using Suc.prems(3) by (simp add: take_Suc_conv_app_nth)
  show ?case
  proof (cases "ex < lmt")
    case True
    then have l: "lmt - ex = Suc (lmt - Suc ex)" by simp
    have "replies_loop get fetch lmt (Suc ex) (posts @ [e]) m =
        \<lparr>fr_posts = (posts @ [e]) @ map (the \<circ> fetch) (take (lmt - Suc ex) (rev (take m xs))),
         fr_next_cursor = (if m \<le> lmt - Suc ex then None else Some (m - (lmt - Suc ex)))\<rparr>"
      by (rule Suc.IH) (use Suc.prems True in auto)
    then show ?thesis using True by (simp add: g e t l)
  next
    case False
    with Suc.prems(4) show ?thesis by simp
  qed
qed simp

lemma reply_index: "readable st \<Longrightarrow> indexes (RepliesByParentSeq st q) (ReplyCount st q) (reply_ids q st)"
  by (simp add: readable_def chain_inv_def posts_inv_def reply_ids_def)

lemma reply_fetched: "i \<in> set (reply_ids q st) \<Longrightarrow> fetch_enriched i viewer ws st \<noteq> None"
  by (auto simp: reply_ids_def fetch_enriched_def dest!: post_ids_exist)

lemma replies_from_seq_eq:
  assumes "readable st"
  shows "replies_from_seq q c n viewer ws st =
    \<lparr>fr_posts = map (\<lambda>i. the (fetch_enriched i viewer ws st)) (take n (replies_below (reply_ids q st) c)),
     fr_next_cursor = (let m = length (replies_below (reply_ids q st) c) in if m \<le> n then None else Some (m - n))\<rparr>"
proof -
  let ?xs = "reply_ids q st"
  let ?m = "case c of None \<Rightarrow> length ?xs | Some b \<Rightarrow> min b (length ?xs)"
  have cnt: "ReplyCount st q = length ?xs" and get: "\<And>s. s < length ?xs \<Longrightarrow> RepliesByParentSeq st q s = Some (?xs ! s)"
    using reply_index [OF assms, of q] by (simp_all add: indexes_def)
  have m: "?m \<le> length ?xs" by (simp split: option.split)
  have "replies_from_seq q c n viewer ws st =
      replies_loop (RepliesByParentSeq st q) (\<lambda>i. fetch_enriched i viewer ws st) n 0 [] ?m"
    by (simp add: replies_from_seq_def Let_def cnt cong: option.case_cong)
  also have "\<dots> = \<lparr>fr_posts = [] @ map (the \<circ> (\<lambda>i. fetch_enriched i viewer ws st)) (take (n - 0) (rev (take ?m ?xs))),
      fr_next_cursor = (if ?m \<le> n - 0 then None else Some (?m - (n - 0)))\<rparr>"
  proof (rule replies_loop_eq)
    fix s
    assume "s < ?m"
    then have "s < length ?xs" using m by (rule less_le_trans)
    then show "RepliesByParentSeq st q s = Some (?xs ! s)" "fetch_enriched (?xs ! s) viewer ws st \<noteq> None"
      using get reply_fetched [OF nth_mem] by auto
  qed (use m in simp_all)
  finally show ?thesis using m by (simp add: replies_below_def comp_def Let_def)
qed

lemma replies_below_next:
  "n < length (replies_below xs c) \<Longrightarrow>
   replies_below xs (Some (length (replies_below xs c) - n)) = drop n (replies_below xs c)"
  by (simp add: replies_below_def drop_rev min_def split: option.split)

lemma replies_below_sub: "set (replies_below xs c) \<subseteq> set xs"
  by (auto simp: replies_below_def dest: in_set_takeD)

interpretation replies: dense_read readable "\<lambda>st c n. raw (replies_page q viewer st c n)"
  "\<lambda>st. replies_below (reply_ids q st)" "\<lambda>st i. fetch_enriched i viewer (staker_weights st) st"
  for q viewer
proof
  fix st n c
  assume st: "readable st" and n: "0 < n" "n \<le> RT_MAX_PAGE"
  let ?rest = "replies_below (reply_ids q st)" and ?pg = "replies_page q viewer st c n"
  have pg: "?pg = \<lparr>fr_posts = map (\<lambda>i. the (fetch_enriched i viewer (staker_weights st) st)) (take n (?rest c)),
      fr_next_cursor = (if length (?rest c) \<le> n then None else Some (length (?rest c) - n))\<rparr>"
    by (simp add: replies_page_def clamp_limit_id [OF n] replies_from_seq_eq [OF st] Let_def)
  have sub: "set (take n (?rest c)) \<subseteq> set (post_ids (\<lambda>p. po_parent p = Some q) st)"
    using set_take_subset [of n "?rest c"] replies_below_sub [of "reply_ids q st" c] by (auto simp: reply_ids_def)
  have "List.map_filter (\<lambda>i. fetch_enriched i viewer (staker_weights st) st) (take n (?rest c)) = fr_posts ?pg"
    unfolding pg by (subst map_filter_fetch [OF sub]) simp
  then show "\<exists>k. page_of ?rest (\<lambda>i. fetch_enriched i viewer (staker_weights st) st) c n (raw ?pg) k"
    using n by (intro exI [of _ n]) (auto simp: page_of_def pg replies_below_next)
  assume "snd (raw ?pg) \<noteq> None"
  then show "n \<le> length (fst (raw ?pg))" by (simp add: pg split: if_splits)
qed

lemma client_row:
  assumes "i \<in> set (post_ids P st)"
  shows "client_view pa (viewer \<noteq> None) (\<lambda>_. True) st (\<lambda>i. fetch_enriched i viewer (staker_weights st) st) i =
    Some (author_row pa viewer st i)"
  using post_ids_exist [OF assms] by (auto simp: client_view_def shown_def profiled_def author_row_def fetch_enriched_def)

interpretation node_replies: paged_read readable "\<lambda>st c n. idp (nodeRepliesPage pa q viewer st c n)"
  "\<lambda>st. replies_below (reply_ids q st)"
  "\<lambda>st. client_view pa (viewer \<noteq> None) (\<lambda>_. True) st (\<lambda>i. fetch_enriched i viewer (staker_weights st) st)"
  for pa q viewer
proof
  fix st n c
  assume a: "readable st" "0 < n" "n \<le> RT_MAX_PAGE"
  from replies.page [OF a] obtain k where "page_of (replies_below (reply_ids q st))
      (\<lambda>i. fetch_enriched i viewer (staker_weights st) st) c n (raw (replies_page q viewer st c n)) k" by blast
  from page_of_profiles [OF this, of st] show "\<exists>k. page_of (replies_below (reply_ids q st))
      (client_view pa (viewer \<noteq> None) (\<lambda>_. True) st (\<lambda>i. fetch_enriched i viewer (staker_weights st) st)) c n
      (idp (nodeRepliesPage pa q viewer st c n)) k"
    using a(2,3) by (intro exI [of _ k])
      (auto simp: page_of_def nodeRepliesPage_def client_view_def map_filter_shown clampLimit_def MAX_PAGE_def RT_MAX_PAGE_def
        split: prod.splits)
qed

lemma nodeThread_parts:
  assumes "nodeThread pa q viewer st = Inr t"
  defines "pg \<equiv> replies_from_seq q None MAX_THREAD_REPLIES viewer (staker_weights st) st"
  shows "ct_replies t = map (\<lambda>e. mapEnrichedPost pa (enrich_author_profile st e) (viewer \<noteq> None)) (rev (fr_posts pg))"
    and "ct_repliesCursor t = fr_next_cursor pg"
    and "ct_root t = author_row pa viewer st q" and "Posts st q \<noteq> None"
    and "ct_replyCount t = coalesce (p_replyCount (ct_root t)) 0"
    and "ct_ancestors t = map (\<lambda>e. mapEnrichedPost pa (enrich_author_profile st e) (viewer \<noteq> None))
      (rev (ancestor_walk MAX_THREAD_DEPTH (\<lambda>i. fetch_enriched i viewer (staker_weights st) st) e_parent {q} 0 (po_parent (the (Posts st q)))))"
  using assms(1)
  by (auto simp: nodeThread_def thread_with_profiles_def rt_thread_def Let_def enrich_author_profiles_def author_row_def
      fetch_enriched_def enrich_def pg_def split: option.splits prod.splits)

lemma author_row_replyCount: "Posts st i \<noteq> None \<Longrightarrow> p_replyCount (author_row pa viewer st i) = Some (int (ReplyCount st i))"
  by (auto simp: author_row_def fetch_enriched_def mapEnrichedPost_def Let_def enrich_author_profile_def enrich_def split: prod.split)

lemma thread_replies:
  assumes "readable st" and "nodeThread pa q viewer st = Inr t"
  shows "rev (ct_replies t) = map (author_row pa viewer st) (take MAX_THREAD_REPLIES (rev (reply_ids q st)))"
    and "ct_repliesCursor t = (let m = length (reply_ids q st) in if m \<le> MAX_THREAD_REPLIES then None else Some (m - MAX_THREAD_REPLIES))"
    and "ct_replyCount t = int (length (reply_ids q st))"
proof -
  have r: "replies_below (reply_ids q st) None = rev (reply_ids q st)" by (simp add: replies_below_def)
  have c: "ReplyCount st q = length (reply_ids q st)" using reply_index [OF assms(1)] by (simp add: indexes_def)
  note parts = nodeThread_parts [OF assms(2), unfolded replies_from_seq_eq [OF assms(1)] r]
  show "rev (ct_replies t) = map (author_row pa viewer st) (take MAX_THREAD_REPLIES (rev (reply_ids q st)))"
    by (simp add: parts(1) author_row_def rev_map comp_def)
  show "ct_repliesCursor t = (let m = length (reply_ids q st) in if m \<le> MAX_THREAD_REPLIES then None else Some (m - MAX_THREAD_REPLIES))"
    by (simp add: parts(2) Let_def)
  show "ct_replyCount t = int (length (reply_ids q st))"
    by (simp add: parts(3,5) author_row_replyCount [OF parts(4)] c coalesce_def)
qed

text \<open>
  C34: a conversation of any length is read whole.  The newest page a thread carries, together with the pages reached by
  following its cursor with any page size up to the cap, shows every direct reply of the post exactly once, newest first,
  and the announced count is their number; the walk ends.
\<close>

theorem conversation_complete:
  assumes "readable st" and "q < NextPostId st" and "0 < n" and "n \<le> MAX_PAGE" and "ReplyCount st q < fuel"
  shows "\<exists>t older. nodeThread pa q viewer st = Inr t \<and>
    (case ct_repliesCursor t of None \<Rightarrow> Some []
       | Some c \<Rightarrow> walk_pages (\<lambda>c k. idp (nodeRepliesPage pa q viewer st c k)) n fuel (Some c)) = Some older \<and>
    rev (ct_replies t) @ older = map (author_row pa viewer st) (rev (reply_ids q st)) \<and>
    ct_replyCount t = int (length (reply_ids q st))"
proof -
  let ?xs = "reply_ids q st"
  have "Posts st q \<noteq> None" using assms(1,2) by (simp add: readable_def chain_inv_def posts_inv_def)
  then obtain t where t: "nodeThread pa q viewer st = Inr t"
    by (auto simp: nodeThread_def thread_with_profiles_def rt_thread_def Let_def fetch_enriched_def)
  note facts = thread_replies [OF assms(1) t]
  have cnt: "ReplyCount st q = length ?xs" using reply_index [OF assms(1)] by (simp add: indexes_def)
  show ?thesis
  proof (cases "ct_repliesCursor t")
    case None
    then have "take MAX_THREAD_REPLIES (rev ?xs) = rev ?xs" using facts(2) by (simp add: Let_def split: if_splits)
    then show ?thesis using t facts None by (intro exI [of _ t] exI [of _ "[]"]) simp
  next
    case (Some c)
    have rest: "replies_below ?xs (Some c) = drop MAX_THREAD_REPLIES (rev ?xs)"
      using facts(2) Some replies_below_next [of MAX_THREAD_REPLIES ?xs None] by (simp add: Let_def replies_below_def split: if_splits)
    have "walk_pages (\<lambda>c k. idp (nodeRepliesPage pa q viewer st c k)) n fuel (Some c) =
        Some (List.map_filter (client_view pa (viewer \<noteq> None) (\<lambda>_. True) st
          (\<lambda>i. fetch_enriched i viewer (staker_weights st) st)) (replies_below ?xs (Some c)))"
      by (rule node_replies.walk_complete [OF assms(1,3)])
        (use assms(4,5) cnt in \<open>simp_all add: MAX_PAGE_def RT_MAX_PAGE_def replies_below_def\<close>)
    also have "List.map_filter (client_view pa (viewer \<noteq> None) (\<lambda>_. True) st
          (\<lambda>i. fetch_enriched i viewer (staker_weights st) st)) (replies_below ?xs (Some c)) =
        map (author_row pa viewer st) (drop MAX_THREAD_REPLIES (rev ?xs))"
      unfolding rest by (rule map_filter_total, rule client_row [where P = "\<lambda>p. po_parent p = Some q"])
        (auto simp: reply_ids_def dest: in_set_dropD)
    finally show ?thesis
      using t facts(1,3) Some by (intro exI [of _ t] exI [of _ "map (author_row pa viewer st) (drop MAX_THREAD_REPLIES (rev ?xs))"])
        (simp add: map_append [symmetric] del: map_append)
  qed
qed

section \<open>An author's replies\<close>

definition authored_ids :: "ss58 \<Rightarrow> chain \<Rightarrow> nat list" where
  "authored_ids a st = post_ids (\<lambda>p. po_author p = a) st"

definition reply_pick :: "ss58 option \<Rightarrow> chain \<Rightarrow> nat \<Rightarrow> enriched_post option" where
  "reply_pick viewer st i = (case Posts st i of None \<Rightarrow> None
     | Some p \<Rightarrow> if po_parent p = None then None else Some (enrich i p viewer (staker_weights st) st))"

definition replies_ok :: "nat list \<Rightarrow> (nat \<Rightarrow> enriched_post option) \<Rightarrow> nat \<Rightarrow> nat \<Rightarrow> nat \<Rightarrow> enriched_post list \<Rightarrow> nat \<Rightarrow> feed_page_raw \<Rightarrow> nat \<Rightarrow> bool"
where
  "replies_ok xs pick limit max_scan ex acc m pg k \<longleftrightarrow>
     k \<le> m \<and> fr_posts pg = acc @ List.map_filter pick (take k (rev (take m xs))) \<and> length (fr_posts pg) \<le> limit \<and>
     (case fr_next_cursor pg of
        None \<Rightarrow> k = m
      | Some c \<Rightarrow> k < m \<and> c = Suc (xs ! (m - k - 1)) \<and> (limit \<le> length (fr_posts pg) \<or> max_scan \<le> ex + k))"

lemma replies_ok_step:
  assumes "replies_ok xs pick limit max_scan (Suc ex) (case pick (xs ! m) of Some e \<Rightarrow> acc @ [e] | None \<Rightarrow> acc) m pg k"
    and "m < length xs"
  shows "replies_ok xs pick limit max_scan ex acc (Suc m) pg (Suc k)"
  using assms by (auto simp: replies_ok_def take_Suc_conv_app_nth map_filter_simps split: option.splits)

lemma author_replies_loop_ok:
  fixes posts enr
  assumes "\<And>s. s < m \<Longrightarrow> get s = Some (xs ! s)" and "m \<le> length xs"
    and "\<And>s b. s < m \<Longrightarrow> before = Some b \<Longrightarrow> xs ! s < b" and "\<And>s. s < m \<Longrightarrow> xs ! s < u64_max" and "length acc \<le> limit"
  defines "pick \<equiv> \<lambda>i. case posts i of None \<Rightarrow> None | Some p \<Rightarrow> if po_parent p = None then None else Some (enr i p)"
  shows "\<exists>k. replies_ok xs pick limit max_scan ex acc m (author_replies_loop get posts enr before limit max_scan ex acc m) k"
  using assms(1-5)
proof (induction m arbitrary: acc ex)
  case 0
  then show ?case by (intro exI [of _ 0]) (simp add: replies_ok_def map_filter_simps)
next
  case (Suc m)
  let ?loop = "author_replies_loop get posts enr before limit max_scan"
  have get: "get m = Some (xs ! m)" using Suc.prems(1) by simp
  have bef: "\<not> (case before of Some b \<Rightarrow> b \<le> xs ! m | None \<Rightarrow> False)"
    using Suc.prems(3) [of m] by (auto split: option.split)
  have sat: "saturating_add u64_max (xs ! m) 1 = Suc (xs ! m)" using Suc.prems(4) [of m] by (simp add: saturating_add_def)
  let ?acc = "case pick (xs ! m) of Some e \<Rightarrow> acc @ [e] | None \<Rightarrow> acc"
  show ?case
  proof (cases "max_scan \<le> ex \<or> pick (xs ! m) \<noteq> None \<and> limit \<le> length acc")
    case True
    then have "?loop ex acc (Suc m) = \<lparr>fr_posts = acc, fr_next_cursor = Some (Suc (xs ! m))\<rparr>"
      using get bef sat by (auto simp: pick_def split: option.splits if_splits)
    with Suc.prems True show ?thesis by (intro exI [of _ 0]) (auto simp: replies_ok_def map_filter_simps)
  next
    case False
    then have len: "length ?acc \<le> limit" using Suc.prems(5) by (auto split: option.split)
    have "?loop ex acc (Suc m) = ?loop (Suc ex) ?acc m"
      using get bef False by (auto simp: pick_def split: option.splits if_splits)
    moreover obtain k where "replies_ok xs pick limit max_scan (Suc ex) ?acc m (?loop (Suc ex) ?acc m) k"
      using Suc.IH [of ?acc "Suc ex"] Suc.prems(1-4) len by (meson Suc_leD less_SucI)
    ultimately show ?thesis using replies_ok_step [of xs pick limit max_scan ex acc m] Suc.prems(2) by fastforce
  qed
qed

interpretation author_replies: paged_read readable "\<lambda>st c n. raw (author_replies_page a viewer st c n)"
  "\<lambda>st. index_below (authored_ids a st)" "\<lambda>st. reply_pick viewer st"
  for a viewer
proof
  fix st n c
  assume st: "readable st" and n: "0 < n" "n \<le> RT_MAX_PAGE"
  let ?xs = "authored_ids a st" and ?pg = "author_replies_page a viewer st c n"
  have ix: "indexes (ByAuthor st a) (ByAuthorCount st a) ?xs"
    using st by (simp add: readable_def chain_inv_def posts_inv_def authored_ids_def)
  have sorted: "sorted_wrt (<) ?xs" by (simp add: authored_ids_def post_ids_sorted)
  let ?m = "author_index_seq_below (ByAuthorCount st a) c (ByAuthor st a)"
  note m = author_index_seq_below_ok [OF ix sorted, of c]
  have bound: "?xs ! s < u64_max" if "s < ?m" for s
  proof -
    have "?xs ! s \<in> set ?xs" using that m(1) by simp
    then have "?xs ! s < NextPostId st" by (simp add: authored_ids_def post_ids_bound)
    with st show ?thesis by (simp add: readable_def)
  qed
  have bef: "?xs ! s < b" if "s < ?m" "c = Some b" for s b
  proof -
    have "?xs ! s \<in> set (take ?m ?xs)" using that m(1) by (auto simp: in_set_conv_nth)
    then have "?xs ! s \<in> set (index_below ?xs c)" by (simp add: m(2))
    with that show ?thesis by (simp add: index_below_def)
  qed
  have "\<exists>k. replies_ok ?xs (reply_pick viewer st) n (n * MAX_SCAN_FACTOR) 0 [] ?m ?pg k"
    unfolding author_replies_page_def Let_def clamp_limit_id [OF n] reply_pick_def
    by (rule author_replies_loop_ok) (use ix m(1) bound bef in \<open>auto simp: indexes_def\<close>)
  then obtain k where k: "replies_ok ?xs (reply_pick viewer st) n (n * MAX_SCAN_FACTOR) 0 [] ?m ?pg k" by blast
  have rest: "index_below ?xs (Some (Suc (?xs ! (?m - k - 1)))) = drop k (index_below ?xs c)" if "k < ?m"
  proof -
    have "?m - k - 1 < length ?xs" "Suc (?m - k - 1) = ?m - k" using that m(1) by auto
    with filter_le_nth [OF sorted] m show ?thesis by (simp add: index_below_def drop_rev)
  qed
  have "0 < k" if "fr_next_cursor ?pg \<noteq> None"
    using k that n by (cases k) (auto simp: replies_ok_def map_filter_simps MAX_SCAN_FACTOR_def)
  then show "\<exists>k. page_of (index_below ?xs) (reply_pick viewer st) c n (raw ?pg) k"
    by (intro exI [of _ k]) (use k rest m in \<open>auto simp: page_of_def replies_ok_def split: option.splits\<close>)
qed

interpretation node_author_replies: paged_read readable "\<lambda>st c n. idp (nodeAuthorRepliesPage pa a viewer st c n)"
  "\<lambda>st. index_below (authored_ids a st)" "\<lambda>st. client_view pa (viewer \<noteq> None) (\<lambda>_. True) st (reply_pick viewer st)"
  for pa a viewer
proof
  show "\<exists>k. page_of (index_below (authored_ids a st)) (client_view pa (viewer \<noteq> None) (\<lambda>_. True) st (reply_pick viewer st)) c n
          (idp (nodeAuthorRepliesPage pa a viewer st c n)) k"
    if "readable st" "0 < n" "n \<le> RT_MAX_PAGE" for st n c
    using chasePage_ok [OF author_replies.page [OF that(1)] that(2,3), where keep = None] by (simp add: nodeAuthorRepliesPage_def)
qed

section \<open>Likes\<close>

definition liked_ids :: "ss58 \<Rightarrow> chain \<Rightarrow> nat list" where
  "liked_ids who st = filter (\<lambda>i. map_of (Votes st i) who = Some Up) [0..<NextPostId st]"

lemma liked_sorted: "sorted_wrt (<) (liked_ids who st)"
  unfolding liked_ids_def by (rule sorted_wrt_filter) (simp add: sorted_wrt_upt)

lemma desc_key_less: "p < u64_max \<Longrightarrow> desc_key b < desc_key p \<longleftrightarrow> p < b"
proof -
  assume p: "p < u64_max"
  have less: "desc_key y < desc_key x" if "x < y" "y \<le> u64_max" for x y
    using desc_key_descends [OF that] by (simp add: list_less_def)
  show ?thesis
  proof (cases "b \<le> u64_max")
    case True
    consider "p < b" | "p = b" | "b < p" by linarith
    then show ?thesis using less [of p b] less [of b p] True p by cases auto
  next
    case False
    then have "desc_key b = desc_key u64_max" by (simp add: desc_key_def)
    with less [of p u64_max] p False show ?thesis by simp
  qed
qed

text \<open>The trie order of an account's like keys is its liked posts, newest first.\<close>

lemma like_keys:
  assumes "readable st"
  shows "sorted_list_of_set (fst ` set (LikesByAccount st who)) = map desc_key (rev (liked_ids who st))"
proof -
  have v: "votes_inv st" and nx: "NextPostId st < u64_max" using assms by (simp_all add: readable_def chain_inv_def)
  have "k \<in> fst ` set (LikesByAccount st who) \<longleftrightarrow> map_of (LikesByAccount st who) k = Some ()" for k
    using map_of_eq_None_iff [of "LikesByAccount st who" k] by (cases "map_of (LikesByAccount st who) k") auto
  then have "fst ` set (LikesByAccount st who) = {desc_key p |p. map_of (Votes st p) who = Some Up}"
    using v by (auto simp: votes_inv_def)
  also have "\<dots> = desc_key ` set (liked_ids who st)"
  proof -
    have "p < NextPostId st" if "map_of (Votes st p) who = Some Up" for p
      using v that unfolding votes_inv_def by (metis map_of.simps(1) not_le option.distinct(1))
    then show ?thesis by (auto simp: liked_ids_def)
  qed
  finally have keys: "fst ` set (LikesByAccount st who) = set (map desc_key (rev (liked_ids who st)))" by simp
  have "sorted_wrt (<) (map desc_key (rev (liked_ids who st)))"
    unfolding sorted_wrt_map sorted_wrt_rev
    by (rule sorted_wrt_mono_rel [OF _ liked_sorted]) (use nx in \<open>auto simp: desc_key_less liked_ids_def\<close>)
  then show ?thesis
    unfolding keys strict_sorted_iff by (metis sorted_list_of_set.idem_if_sorted_distinct)
qed

lemma likes_loop_eq:
  assumes "\<And>i. i \<in> set is \<Longrightarrow> fetch i \<noteq> None \<and> i < u64_max" and "length posts \<le> n"
  shows "likes_loop fetch n posts (map desc_key is) =
    \<lparr>fr_posts = posts @ map (\<lambda>i. the (fetch i)) (take (n - length posts) is),
     fr_next_cursor = (if length is \<le> n - length posts then None else Some (Suc (is ! (n - length posts))))\<rparr>"
  using assms
proof (induction "is" arbitrary: posts)
  case (Cons i "is")
  obtain e where e: "fetch i = Some e" "i < u64_max" using Cons.prems(1) [of i] by auto
  show ?case
  proof (cases "n \<le> length posts")
    case True
    with Cons.prems(2) e show ?thesis by (simp add: saturating_add_def)
  next
    case False
    then have n: "n - length posts = Suc (n - length (posts @ [e]))" by simp
    have "likes_loop fetch n (posts @ [e]) (map desc_key is) =
        \<lparr>fr_posts = (posts @ [e]) @ map (\<lambda>i. the (fetch i)) (take (n - length (posts @ [e])) is),
         fr_next_cursor = (if length is \<le> n - length (posts @ [e]) then None else Some (Suc (is ! (n - length (posts @ [e])))))\<rparr>"
      by (rule Cons.IH) (use Cons.prems False in auto)
    with False e show ?thesis by (simp add: n del: append.simps)
  qed
qed simp

lemma index_below_after:
  assumes "sorted_wrt (<) xs" and "n < length (index_below xs c)"
  shows "index_below xs (Some (Suc (index_below xs c ! n))) = drop n (index_below xs c)"
proof (cases n)
  case 0
  let ?h = "index_below xs c ! 0"
  have "sorted_wrt (>) (index_below xs c)" by (rule index_below_sorted [OF assms(1)])
  then have h: "i \<le> ?h" if "i \<in> set (index_below xs c)" for i
    using that assms(2) 0 by (cases "index_below xs c") auto
  have mem: "?h \<in> set (index_below xs c)" using assms(2) 0 by simp
  have "filter (\<lambda>i. i < Suc ?h) xs = filter (\<lambda>i. case c of None \<Rightarrow> True | Some b \<Rightarrow> i < b) xs"
    using h mem by (intro filter_cong) (auto simp: index_below_def less_Suc_eq_le split: option.splits)
  then show ?thesis by (simp add: index_below_def 0)
next
  case (Suc m)
  let ?ys = "index_below xs c"
  have s: "sorted_wrt (>) ?ys" by (rule index_below_sorted [OF assms(1)])
  have "?ys ! Suc m < ?ys ! m" using sorted_wrt_nth_less [OF s, of m "Suc m"] assms(2) Suc by simp
  have "i < Suc (?ys ! Suc m) \<longleftrightarrow> i < ?ys ! m" if "i \<in> set xs" for i
  proof
    assume "i < Suc (?ys ! Suc m)"
    with \<open>?ys ! Suc m < ?ys ! m\<close> show "i < ?ys ! m" by simp
  next
    assume lt: "i < ?ys ! m"
    have "?ys ! m \<in> set ?ys" using assms(2) Suc by simp
    with that lt have "i \<in> set ?ys" by (auto simp: index_below_def split: option.splits)
    then obtain j where j: "j < length ?ys" "?ys ! j = i" by (auto simp: in_set_conv_nth)
    have "m < j" using sorted_wrt_nth_less [OF s, of j m] j lt assms(2) Suc by (cases "j < m"; cases "j = m") auto
    then show "i < Suc (?ys ! Suc m)" using sorted_wrt_nth_less [OF s, of "Suc m" j] j by (cases "j = Suc m") auto
  qed
  then have "index_below xs (Some (Suc (?ys ! Suc m))) = index_below xs (Some (?ys ! m))"
    by (simp add: index_below_def cong: filter_cong)
  also have "\<dots> = drop (Suc m) ?ys" using index_below_nth [OF assms(1), of "Suc m" c] assms(2) Suc by simp
  finally show ?thesis by (simp add: Suc)
qed

interpretation likes: dense_read readable "\<lambda>st c n. raw (likes_page who viewer st c n)"
  "\<lambda>st. index_below (liked_ids who st)" "\<lambda>st i. fetch_enriched i viewer (staker_weights st) st"
  for who viewer
proof
  fix st n c
  assume st: "readable st" and n: "0 < n" "n \<le> RT_MAX_PAGE"
  let ?rest = "index_below (liked_ids who st) c" and ?pg = "likes_page who viewer st c n"
  let ?fetch = "\<lambda>i. fetch_enriched i viewer (staker_weights st) st"
  have liked: "i \<in> set (liked_ids who st) \<Longrightarrow> ?fetch i \<noteq> None \<and> i < u64_max" for i
    using st by (auto simp: liked_ids_def readable_def chain_inv_def posts_inv_def fetch_enriched_def)
  then have rest: "i \<in> set ?rest \<Longrightarrow> ?fetch i \<noteq> None \<and> i < u64_max" for i by (auto simp: index_below_def)
  have "(case c of Some b \<Rightarrow> filter (\<lambda>k. desc_key b < k) (map desc_key (rev (liked_ids who st)))
      | None \<Rightarrow> map desc_key (rev (liked_ids who st))) = map desc_key ?rest"
    using liked
    by (cases c) (auto simp: index_below_def filter_map comp_def desc_key_less rev_filter intro!: arg_cong [where f = "map desc_key"] filter_cong)
  then have "?pg = likes_loop ?fetch n [] (map desc_key ?rest)"
    by (simp add: likes_page_def like_keys [OF st] clamp_limit_id [OF n] Let_def)
  also have "\<dots> = \<lparr>fr_posts = map (\<lambda>i. the (?fetch i)) (take n ?rest),
      fr_next_cursor = (if length ?rest \<le> n then None else Some (Suc (?rest ! n)))\<rparr>"
    using likes_loop_eq [of ?rest ?fetch "[]" n] rest by simp
  finally have pg: "?pg = \<dots>" .
  have "List.map_filter ?fetch (take n ?rest) = fr_posts ?pg"
    unfolding pg using rest by (subst map_filter_total [where g = "\<lambda>i. the (?fetch i)"]) (auto dest!: in_set_takeD)
  then show "\<exists>k. page_of (index_below (liked_ids who st)) ?fetch c n (raw ?pg) k"
    using n index_below_after [OF liked_sorted, of n who st c] by (intro exI [of _ n]) (auto simp: page_of_def pg)
  assume "snd (raw ?pg) \<noteq> None"
  then show "n \<le> length (fst (raw ?pg))" by (simp add: pg split: if_splits)
qed

interpretation node_likes: paged_read readable "\<lambda>st c n. idp (nodeLikesPage pa who viewer st c n)"
  "\<lambda>st. index_below (liked_ids who st)"
  "\<lambda>st. client_view pa (viewer \<noteq> None) (\<lambda>_. True) st (\<lambda>i. fetch_enriched i viewer (staker_weights st) st)"
  for pa who viewer
proof
  show "\<exists>k. page_of (index_below (liked_ids who st))
          (client_view pa (viewer \<noteq> None) (\<lambda>_. True) st (\<lambda>i. fetch_enriched i viewer (staker_weights st) st)) c n
          (idp (nodeLikesPage pa who viewer st c n)) k"
    if "readable st" "0 < n" "n \<le> RT_MAX_PAGE" for st n c
    using chasePage_ok [OF likes.page [OF that(1)] that(2,3), where keep = None] by (simp add: nodeLikesPage_def)
qed

text \<open>
  C35: the Likes tab is exact.  Paging it to its end, with any page size up to the cap, shows the posts the account
  currently up-votes, each once, newest first, and the walk ends.
\<close>

theorem likes_tab_exact:
  assumes "readable st" and "0 < n" and "n \<le> MAX_PAGE" and "NextPostId st < fuel"
  shows "walk_pages (\<lambda>c k. idp (nodeLikesPage pa who viewer st c k)) n fuel None =
    Some (map (author_row pa viewer st) (rev (liked_ids who st)))"
proof -
  let ?view = "client_view pa (viewer \<noteq> None) (\<lambda>_. True) st (\<lambda>i. fetch_enriched i viewer (staker_weights st) st)"
  have below: "index_below (liked_ids who st) None = rev (liked_ids who st)" by (simp add: index_below_def)
  have "length (liked_ids who st) \<le> NextPostId st"
    unfolding liked_ids_def by (metis diff_zero length_filter_le length_upt)
  then have "walk_pages (\<lambda>c k. idp (nodeLikesPage pa who viewer st c k)) n fuel None =
      Some (List.map_filter ?view (index_below (liked_ids who st) None))"
    by (intro node_likes.walk_complete [OF assms(1,2)]) (use assms(3,4) in \<open>simp_all add: MAX_PAGE_def RT_MAX_PAGE_def below\<close>)
  also have "List.map_filter ?view (index_below (liked_ids who st) None) = map (author_row pa viewer st) (rev (liked_ids who st))"
    unfolding below
  proof (rule map_filter_total, rule client_row [where P = "\<lambda>_. True"])
    fix i
    assume "i \<in> set (rev (liked_ids who st))"
    then have "i < NextPostId st" by (simp add: liked_ids_def)
    then show "i \<in> set (post_ids (\<lambda>_. True) st)"
      using assms(1) by (auto simp: post_ids_def readable_def chain_inv_def posts_inv_def split: option.split)
  qed
  finally show ?thesis .
qed

section \<open>The two thread reads\<close>

lemma ancestor_walk_map:
  assumes "\<And>i. fetch' i = map_option f (fetch i)" and "\<And>x. par' (f x) = par x"
  shows "ancestor_walk cap fetch' par' seen depth cursor = map f (ancestor_walk cap fetch par seen depth cursor)"
proof (induction "cap - depth" arbitrary: seen depth cursor rule: less_induct)
  case less
  have "cap - Suc depth < cap - depth" if "\<not> cap \<le> depth" using that by simp
  with less show ?case
    unfolding ancestor_walk.simps [of cap fetch' par' seen depth cursor] ancestor_walk.simps [of cap fetch par seen depth cursor]
    by (auto simp: assms split: option.split)
qed

text \<open>
  The walk ends on any parent links, also on cyclic ones: it visits no post twice and at most \<open>cap\<close> of them, and it stops
  only at a root, at a link that leads nowhere or back, or at the cap.
\<close>

definition walk_ok :: "nat \<Rightarrow> (nat \<Rightarrow> 'p option) \<Rightarrow> ('p \<Rightarrow> nat) \<Rightarrow> ('p \<Rightarrow> nat option) \<Rightarrow> nat set \<Rightarrow> nat \<Rightarrow> nat option \<Rightarrow> 'p list \<Rightarrow> bool" where
  "walk_ok cap fetch key par seen depth cursor xs \<longleftrightarrow>
     distinct (map key xs) \<and> key ` set xs \<inter> seen = {} \<and> length xs \<le> cap - depth \<and>
     (\<forall>i < length xs. (if i = 0 then cursor else par (xs ! (i - 1))) = Some (key (xs ! i))) \<and>
     (case (if xs = [] then cursor else par (last xs)) of None \<Rightarrow> True
        | Some pid \<Rightarrow> cap \<le> depth + length xs \<or> pid \<in> seen \<union> key ` set xs \<or> fetch pid = None)"

lemma walk_ok_Cons:
  assumes "walk_ok cap fetch key par (insert pid seen) (Suc depth) (par x) xs" and "key x = pid" "pid \<notin> seen" "depth < cap"
  shows "walk_ok cap fetch key par seen depth (Some pid) (x # xs)"
proof -
  have links: "(if i = 0 then Some pid else par ((x # xs) ! (i - 1))) = Some (key ((x # xs) ! i))" if "i < length (x # xs)" for i
  proof (cases i)
    case (Suc j)
    then have "(if j = 0 then par x else par (xs ! (j - 1))) = Some (key (xs ! j))"
      using assms(1) that by (simp add: walk_ok_def)
    then show ?thesis using Suc by (cases j) simp_all
  qed (simp add: assms(2))
  show ?thesis using assms links unfolding walk_ok_def by (auto split: option.splits)
qed

lemma ancestor_walk_ok:
  assumes key: "\<And>i x. fetch i = Some x \<Longrightarrow> key x = i"
  shows "walk_ok cap fetch key par seen depth cursor (ancestor_walk cap fetch par seen depth cursor)"
proof (induction "cap - depth" arbitrary: seen depth cursor rule: less_induct)
  case less
  show ?case
  proof (cases "\<exists>pid x. cursor = Some pid \<and> depth < cap \<and> pid \<notin> seen \<and> fetch pid = Some x")
    case True
    then obtain pid x where c: "cursor = Some pid" "depth < cap" "pid \<notin> seen" "fetch pid = Some x" by blast
    then have "ancestor_walk cap fetch par seen depth cursor = x # ancestor_walk cap fetch par (insert pid seen) (Suc depth) (par x)"
      by (subst ancestor_walk.simps) simp
    moreover have "walk_ok cap fetch key par (insert pid seen) (Suc depth) (par x) (ancestor_walk cap fetch par (insert pid seen) (Suc depth) (par x))"
      by (rule less) (use c(2) in simp)
    note walk_ok_Cons [where key = key, OF this key [OF c(4)] c(3,2)]
    ultimately show ?thesis using c(1) by simp
  next
    case False
    then have "ancestor_walk cap fetch par seen depth cursor = []"
      by (subst ancestor_walk.simps) (auto split: option.split)
    with False show ?thesis by (auto simp: walk_ok_def not_less split: option.split)
  qed
qed

text \<open>
  What a keyed card makes of the card the node serves: the tally counts are those of the best block, there is no weight
  and no score, no role of the author or of the quoted author, and no vote of the viewer.  Every other field is kept.
\<close>

definition keyed_card :: "chain \<Rightarrow> cogno_post \<Rightarrow> cogno_post" where
  "keyed_card best c = (let tally = VoteTally best (nat (p_id c)) in
     c\<lparr>p_upCount := Some (int (up_count tally)), p_downCount := Some (int (down_count tally)),
       p_upWeight := Some 0, p_downWeight := Some 0, p_score := Some 0, p_authorRoles := None, p_myVote := None,
       p_quote := map_option (\<lambda>q. q\<lparr>q_authorRoles := None\<rparr>) (p_quote c)\<rparr>)"

lemma enrich_parent [simp]: "e_parent (enrich i p viewer ws st) = po_parent p"
  by (simp add: enrich_def Let_def split: prod.split)

lemma keyed_card_enriched:
  "keyed_card best (mapEnrichedPost pa (enrich_author_profile fin (enrich i p viewer ws fin)) hv) = enrichPost pa fin best (i, p)"
proof (cases "po_quote p")
  case None
  then show ?thesis
    by (simp add: keyed_card_def mapEnrichedPost_def Let_def enrich_author_profile_def enrich_def enrichPost_def toCognoPost_def
        bare_post_def profile_name_def profile_avatar_def split: prod.split)
next
  case (Some q)
  then show ?thesis
    by (cases "Posts fin q") (simp_all add: keyed_card_def mapEnrichedPost_def mapQuoted_def coalesce_def Let_def
        enrich_author_profile_def enrich_def enrichPost_def toCognoPost_def quoteRefOf_def fill_quoted_def
        bare_post_def profile_name_def profile_avatar_def split: prod.split)
qed

lemma keyed_card_row: "Posts fin i = Some p \<Longrightarrow> keyed_card best (author_row pa viewer fin i) = enrichPost pa fin best (i, p)"
  by (simp add: author_row_def fetch_enriched_def keyed_card_enriched)

interpretation replyOrder: comparator replyOrder
  by unfold_locales (auto simp: replyOrder_def split: if_splits)

lemma keyed_rows:
  assumes "readable fin"
  shows "List.map_filter (\<lambda>i. map_option (Pair i) (Posts fin i)) (js_sort replyOrder (map fst (RepliesByParent fin q))) =
    map (\<lambda>i. (i, the (Posts fin i))) (reply_ids q fin)"
proof -
  have "js_sort replyOrder (map fst (RepliesByParent fin q)) = reply_ids q fin"
  proof -
    have "map fst (RepliesByParent fin q) = reply_ids q fin"
      using assms by (simp add: readable_def chain_inv_def posts_inv_def reply_ids_def)
    moreover have "sorted_wrt (\<lambda>a b. replyOrder a b \<le> 0) (reply_ids q fin)"
      unfolding reply_ids_def by (rule sorted_wrt_mono_rel [OF _ post_ids_sorted]) (simp add: replyOrder_def)
    ultimately show ?thesis using replyOrder.sort_id by simp
  qed
  moreover have "List.map_filter (\<lambda>i. map_option (Pair i) (Posts fin i)) (reply_ids q fin) =
      map (\<lambda>i. (i, the (Posts fin i))) (reply_ids q fin)"
    by (rule map_filter_total) (auto simp: reply_ids_def dest!: post_ids_exist)
  ultimately show ?thesis by simp
qed

text \<open>
  C36: what the thread fallback shows.  When the runtime call fails, the thread is rebuilt from keyed reads, and against the
  thread the node would serve of the same finalized state: a missing post fails with the same message; otherwise the root
  and the ancestors are the same cards in the same order, the replies are every direct reply in the same order, of which
  the node's page is the newest 512, the reply count is the same and there is no cursor.  Each card is the node's card with
  the vote counts of the best block and without what keyed reads do not carry: weights and score are zero, and the roles
  and the viewer's vote are absent.  A post that is not finalized yet is not found.
\<close>

theorem keyed_thread_agrees:
  assumes "readable fin"
  shows "case nodeThread pa q viewer fin of
      Inl e \<Rightarrow> getThread pa q fin best = Inl e
    | Inr t \<Rightarrow> \<exists>k. getThread pa q fin best = Inr k \<and> ct_root k = keyed_card best (ct_root t) \<and>
        ct_ancestors k = map (keyed_card best) (ct_ancestors t) \<and>
        map p_id (ct_replies k) = map int (reply_ids q fin) \<and>
        drop (length (ct_replies k) - MAX_THREAD_REPLIES) (ct_replies k) = map (keyed_card best) (ct_replies t) \<and>
        ct_replyCount k = ct_replyCount t \<and> ct_repliesCursor k = None"
proof (cases "nodeThread pa q viewer fin")
  case (Inl e)
  then show ?thesis
    by (auto simp: nodeThread_def thread_with_profiles_def rt_thread_def Let_def fetch_enriched_def getThread_def split: option.splits)
next
  case (Inr t)
  note parts = nodeThread_parts [OF Inr] and thr = thread_replies [OF assms Inr]
  from parts(4) obtain fv where fv: "Posts fin q = Some fv" by blast
  let ?ws = "staker_weights fin" and ?e = "enrichPost pa fin best"
  let ?up = "ancestor_walk MAX_ANCESTOR_DEPTH (\<lambda>i. map_option (Pair i) (Posts fin i)) (\<lambda>(i, p). po_parent p) {q} 0 (po_parent fv)"
  let ?rs = "map (\<lambda>i. (i, the (Posts fin i))) (reply_ids q fin)"
  have cap: "MAX_THREAD_DEPTH = MAX_ANCESTOR_DEPTH" by (simp add: MAX_THREAD_DEPTH_def MAX_ANCESTOR_DEPTH_def)
  have walk: "ancestor_walk MAX_THREAD_DEPTH (\<lambda>i. fetch_enriched i viewer ?ws fin) e_parent {q} 0 (po_parent fv) =
      map (\<lambda>(i, p). enrich i p viewer ?ws fin) ?up"
    unfolding cap by (rule ancestor_walk_map) (auto simp: fetch_enriched_def option.map_comp comp_def)
  have k: "getThread pa q fin best = Inr \<lparr>ct_root = ?e (q, fv), ct_ancestors = map ?e (rev ?up), ct_replies = map ?e ?rs,
      ct_replyCount = int (ReplyCount fin q), ct_repliesCursor = None\<rparr>"
    by (simp add: getThread_def fv keyed_rows [OF assms] Let_def enrichPost_def coalesce_def)
  have rows: "map (keyed_card best) (map (author_row pa viewer fin) (reply_ids q fin)) = map ?e ?rs"
    by (auto simp: reply_ids_def keyed_card_row dest!: post_ids_exist)
  have "ct_replies t = drop (length (reply_ids q fin) - MAX_THREAD_REPLIES) (map (author_row pa viewer fin) (reply_ids q fin))"
    by (rule rev_is_rev_conv [THEN iffD1])
      (cases "length (reply_ids q fin) \<le> MAX_THREAD_REPLIES"; simp add: thr(1) rev_drop rev_map take_map)
  then have "map (keyed_card best) (ct_replies t) = drop (length ?rs - MAX_THREAD_REPLIES) (map ?e ?rs)"
    by (simp only: rows [symmetric] drop_map length_map)
  moreover have "keyed_card best (ct_root t) = ?e (q, fv)" using parts(3) keyed_card_row [OF fv] by simp
  moreover have "map (keyed_card best) (ct_ancestors t) = map ?e (rev ?up)"
    by (auto simp: parts(6) fv walk rev_map [symmetric] keyed_card_enriched split: prod.split)
  moreover have "map p_id (map ?e ?rs) = map int (reply_ids q fin)" by (simp add: enrichPost_def toCognoPost_def)
  moreover have "ct_replyCount t = int (ReplyCount fin q)"
    using thr(3) reply_index [OF assms, of q] by (simp add: indexes_def)
  ultimately show ?thesis using Inr k by simp
qed

text \<open>
  C37: the ancestor walk of a thread ends on any parent links.  On every chain state, cyclic or dangling links included,
  the ancestors of a thread are at most the depth cap, distinct from each other and from the focal post, each is the
  parent of the one below it, and the walk stops only at a root, at a missing post, at a post already shown or at the cap.
\<close>

theorem thread_walk_ends:
  assumes "nodeThread pa q viewer st = Inr t"
  defines "up \<equiv> rev (ct_ancestors t)"
  defines "beyond \<equiv> if up = [] then p_parent (ct_root t) else p_parent (last up)"
  shows "length up \<le> MAX_THREAD_DEPTH \<and> distinct (map p_id (ct_root t # up)) \<and>
    (\<forall>i < length up. (if i = 0 then p_parent (ct_root t) else p_parent (up ! (i - 1))) = Some (p_id (up ! i))) \<and>
    (beyond = None \<or> length up = MAX_THREAD_DEPTH \<or>
     (\<exists>pid. beyond = Some (int pid) \<and> (Posts st pid = None \<or> int pid \<in> p_id ` set (ct_root t # up))))"
proof -
  note parts = nodeThread_parts [OF assms(1)]
  from parts(4) obtain fv where fv: "Posts st q = Some fv" by blast
  let ?fetch = "\<lambda>i. fetch_enriched i viewer (staker_weights st) st"
  let ?conv = "\<lambda>e. mapEnrichedPost pa (enrich_author_profile st e) (viewer \<noteq> None)"
  define w where "w = ancestor_walk MAX_THREAD_DEPTH ?fetch e_parent {q} 0 (po_parent fv)"
  have ok: "walk_ok MAX_THREAD_DEPTH ?fetch e_id e_parent {q} 0 (po_parent fv) w"
    unfolding w_def by (rule ancestor_walk_ok) (auto simp: fetch_enriched_def)
  have up: "up = map ?conv w" by (simp add: up_def parts(6) fv w_def rev_map)
  have par: "p_parent (mapEnrichedPost pa (enrich_author_profile st e) hv) = map_option int (e_parent e)" for e hv
    by (simp add: mapEnrichedPost_def Let_def enrich_author_profile_def split: prod.split)
  have root: "p_id (ct_root t) = int q" "p_parent (ct_root t) = map_option int (po_parent fv)"
    by (simp_all add: parts(3) author_row_def fetch_enriched_def fv par)
  have ids: "p_id (?conv e) = int (e_id e)" for e by simp
  have beyond: "beyond = map_option int (if w = [] then po_parent fv else e_parent (last w))"
    by (simp add: beyond_def up root par last_map)
  have "int q \<notin> p_id ` set up" "distinct (map p_id up)"
    using ok by (auto simp: up walk_ok_def comp_def distinct_map inj_on_def)
  moreover have "(if i = 0 then p_parent (ct_root t) else p_parent (up ! (i - 1))) = Some (p_id (up ! i))" if "i < length up" for i
  proof -
    have "(if i = 0 then po_parent fv else e_parent (w ! (i - 1))) = Some (e_id (w ! i))" using ok that by (simp add: walk_ok_def up)
    then show ?thesis using that by (auto simp: up root par split: if_splits)
  qed
  moreover have "beyond = None \<or> length up = MAX_THREAD_DEPTH \<or>
     (\<exists>pid. beyond = Some (int pid) \<and> (Posts st pid = None \<or> int pid \<in> p_id ` set (ct_root t # up)))"
    using ok unfolding beyond
    by (cases "if w = [] then po_parent fv else e_parent (last w)")
      (auto simp: walk_ok_def up root fetch_enriched_def image_image simp del: image_ident)
  moreover have "length up \<le> MAX_THREAD_DEPTH" using ok by (simp add: walk_ok_def up)
  ultimately show ?thesis by (simp add: root)
qed

section \<open>Concrete conversations\<close>

text \<open>A post that names itself as its parent.\<close>

definition loop_chain :: chain where
  "loop_chain = genesis\<lparr>Posts := [0 \<mapsto> \<lparr>po_author = ''alice'', po_text = [], po_parent = Some 0, po_at = 0, po_quote = None\<rparr>]\<rparr>"

theorem thread_walk_ends_witness:
  "\<exists>t. nodeThread demo_papi 0 None loop_chain = Inr t \<and> length (rev (ct_ancestors t)) \<le> MAX_THREAD_DEPTH"
proof -
  have "\<exists>t. nodeThread demo_papi 0 None loop_chain = Inr t"
    by (simp add: nodeThread_def thread_with_profiles_def rt_thread_def Let_def fetch_enriched_def loop_chain_def)
  then show ?thesis using thread_walk_ends by blast
qed

lemma demo_chain_reply: "0 < NextPostId demo_chain" "ReplyCount demo_chain 0 < 3" "NextPostId demo_chain < 4"
  by (simp_all add: demo_chain_def demo_posted_def demo_bound_def genesis_def insert_post_indexes u64_max_def u32_max_def saturating_add_def)

theorem conversation_complete_witness:
  "\<exists>t older. nodeThread demo_papi 0 None demo_chain = Inr t \<and>
    (case ct_repliesCursor t of None \<Rightarrow> Some []
       | Some c \<Rightarrow> walk_pages (\<lambda>c k. idp (nodeRepliesPage demo_papi 0 None demo_chain c k)) 1 3 (Some c)) = Some older \<and>
    rev (ct_replies t) @ older = map (author_row demo_papi None demo_chain) (rev (reply_ids 0 demo_chain)) \<and>
    ct_replyCount t = int (length (reply_ids 0 demo_chain))"
  by (rule conversation_complete [OF readable_demo demo_chain_reply(1) _ _ demo_chain_reply(2)]) (simp_all add: MAX_PAGE_def)

theorem likes_tab_exact_witness:
  "walk_pages (\<lambda>c k. idp (nodeLikesPage demo_papi ''alice'' None demo_chain c k)) 1 4 None =
    Some (map (author_row demo_papi None demo_chain) (rev (liked_ids ''alice'' demo_chain)))"
  by (rule likes_tab_exact [OF readable_demo _ _ demo_chain_reply(3)]) (simp_all add: MAX_PAGE_def)

theorem keyed_thread_agrees_witness:
  "case nodeThread demo_papi 0 None demo_chain of
      Inl e \<Rightarrow> getThread demo_papi 0 demo_chain demo_chain = Inl e
    | Inr t \<Rightarrow> \<exists>k. getThread demo_papi 0 demo_chain demo_chain = Inr k \<and> ct_root k = keyed_card demo_chain (ct_root t) \<and>
        ct_ancestors k = map (keyed_card demo_chain) (ct_ancestors t) \<and>
        map p_id (ct_replies k) = map int (reply_ids 0 demo_chain) \<and>
        drop (length (ct_replies k) - MAX_THREAD_REPLIES) (ct_replies k) = map (keyed_card demo_chain) (ct_replies t) \<and>
        ct_replyCount k = ct_replyCount t \<and> ct_repliesCursor k = None"
  by (rule keyed_thread_agrees [OF readable_demo])

end
