(* ===== verification/People.thy ===== *)
theory People
  imports Node_Reads
begin

text \<open>
  Finding people: \<open>search_people\<close> and \<open>who_to_follow\<close> of \<open>runtime/src/apis.rs\<close>, which walk a hash-ordered map under a
  budget, and the readers of \<open>chain/node-reads.ts\<close> that follow their cursor and rank the union.

  The order in which the two maps are walked, the stake rows and the unstable sort by followers are the record
  \<open>people_env\<close>; a cursor is a row of the map that is walked.
\<close>

definition MAX_PEOPLE_SCAN :: nat where "MAX_PEOPLE_SCAN = 10000"

record people_env =
  pe_profiles :: "ss58 list"
  pe_authors :: "ss58 list"
  pe_stake :: "ss58 \<Rightarrow> nat"
  pe_rank :: "(ss58 \<times> nat) list \<Rightarrow> (ss58 \<times> nat) list"

record person_summary =
  ps_account :: ss58
  ps_display_name :: bytes
  ps_avatar :: bytes
  ps_weight :: nat
  ps_follower_count :: nat
  ps_up_weight :: nat
  ps_down_weight :: nat

section \<open>The runtime\<close>

definition person_summary :: "people_env \<Rightarrow> chain \<Rightarrow> ss58 \<Rightarrow> person_summary" where
  "person_summary env st a =
     (let (name, avatar, roles) = AuthorFields st a;
          (up, down) = account_weighted a (AccountVoteTally st a) (staker_weights st) st
      in \<lparr>ps_account = a, ps_display_name = name, ps_avatar = avatar, ps_weight = pe_stake env a,
          ps_follower_count = FollowerCount st a, ps_up_weight = up, ps_down_weight = down\<rparr>)"

definition rows_after :: "ss58 list \<Rightarrow> ss58 option \<Rightarrow> ss58 list" where
  "rows_after rows after = (case after of None \<Rightarrow> rows | Some a \<Rightarrow> tl (dropWhile (\<lambda>b. b \<noteq> a) rows))"

text \<open>The walk stops where another row exists and the page is full or the budget spent; the cursor is the last row examined.\<close>

fun people_scan :: "(ss58 \<Rightarrow> bool) \<Rightarrow> (ss58 list \<Rightarrow> bool) \<Rightarrow> nat \<Rightarrow> ss58 list \<Rightarrow> ss58 option \<Rightarrow> ss58 list \<Rightarrow> ss58 list \<times> ss58 option" where
  "people_scan ok full examined found last_row [] = (found, None)"
| "people_scan ok full examined found last_row (a # rows) =
     (if full found \<or> MAX_PEOPLE_SCAN \<le> examined then (found, last_row)
      else people_scan ok full (Suc examined) (if ok a then found @ [a] else found) (Some a) rows)"

definition name_matches :: "chain \<Rightarrow> bytes \<Rightarrow> ss58 \<Rightarrow> bool" where
  "name_matches st needle a \<longleftrightarrow> PkhOf st a \<and> contains_ci (fst (AuthorFields st a)) needle"

definition search_people :: "people_env \<Rightarrow> chain \<Rightarrow> bytes \<Rightarrow> ss58 option \<Rightarrow> nat \<Rightarrow> person_summary list \<times> ss58 option" where
  "search_people env st needle after limit =
     (let lmt = clamp_limit limit;
          (found, nx) = people_scan (name_matches st needle) (\<lambda>ms. lmt \<le> length ms) 0 [] None (rows_after (pe_profiles env) after)
      in (if found = [] then [] else map (person_summary env st \<circ> fst) (pe_rank env (map (\<lambda>a. (a, FollowerCount st a)) found)), nx))"

definition who_to_follow :: "people_env \<Rightarrow> chain \<Rightarrow> ss58 option \<Rightarrow> nat \<Rightarrow> person_summary list \<times> ss58 option" where
  "who_to_follow env st after limit =
     (let lmt = clamp_limit limit;
          (found, nx) = people_scan (PkhOf st) (\<lambda>_. False) 0 [] None (rows_after (pe_authors env) after);
          ranked = take lmt (pe_rank env (map (\<lambda>a. (a, FollowerCount st a)) found))
      in (if ranked = [] then [] else map (person_summary env st \<circ> fst) ranked, nx))"

section \<open>The client\<close>

definition personSummaryToSuggestion :: "papi \<Rightarrow> person_summary \<Rightarrow> suggestion" where
  "personSummaryToSuggestion pa r =
     \<lparr>sg_author = ps_account r, sg_displayName = binTextOpt pa (ps_display_name r), sg_avatar = binTextOpt pa (ps_avatar r),
      sg_weight = (if 0 < ps_weight r then Some (int (ps_weight r)) else None), sg_followerCount = int (ps_follower_count r),
      sg_accountScore = Some (int (ps_up_weight r) - int (ps_down_weight r))\<rparr>"

definition add_person :: "suggestion \<Rightarrow> suggestion list \<Rightarrow> suggestion list" where
  "add_person s out = (if sg_author s \<in> sg_author ` set out then out else out @ [s])"

fun people_loop ::
  "papi \<Rightarrow> (ss58 option \<Rightarrow> nat \<Rightarrow> person_summary list \<times> ss58 option) \<Rightarrow> nat \<Rightarrow> nat \<Rightarrow> nat \<Rightarrow> ss58 option \<Rightarrow> suggestion list \<Rightarrow> suggestion list"
where
  "people_loop pa fetchPage target pool 0 after out = out"
| "people_loop pa fetchPage target pool (Suc hops) after out =
     (let want = min (max target (pool - length out)) MAX_PAGE;
          (people, nx) = fetchPage after want;
          out' = fold add_person (map (personSummaryToSuggestion pa) people) out
      in if nx = None \<or> pool \<le> length out' then out' else people_loop pa fetchPage target pool hops nx out')"

definition byFollowers :: "suggestion \<Rightarrow> suggestion \<Rightarrow> int" where
  "byFollowers a b = sg_followerCount b - sg_followerCount a"

definition chasePeoplePage ::
  "papi \<Rightarrow> (ss58 option \<Rightarrow> nat \<Rightarrow> person_summary list \<times> ss58 option) \<Rightarrow> nat \<Rightarrow> nat \<Rightarrow> suggestion list" where
  "chasePeoplePage pa fetchPage limit poolFactor =
     (let target = clampLimit limit; pool = min (target * poolFactor) (MAX_PAGE * 2)
      in take target (js_sort byFollowers (people_loop pa fetchPage target pool MAX_PEOPLE_HOPS None [])))"

definition nodeSearchPeople :: "papi \<Rightarrow> people_env \<Rightarrow> chain \<Rightarrow> string \<Rightarrow> nat \<Rightarrow> suggestion list" where
  "nodeSearchPeople pa env st needle limit = chasePeoplePage pa (search_people env st (fromText pa needle)) limit 4"

definition nodeWhoToFollow :: "papi \<Rightarrow> people_env \<Rightarrow> chain \<Rightarrow> nat \<Rightarrow> suggestion list" where
  "nodeWhoToFollow pa env st limit = chasePeoplePage pa (who_to_follow env st) limit 1"

section \<open>One page\<close>

lemma people_scan_prefix:
  "\<exists>k \<le> length rows. fst (people_scan ok full ex found l rows) = found @ filter ok (take k rows) \<and>
     (case snd (people_scan ok full ex found l rows) of
        None \<Rightarrow> k = length rows \<or> k = 0 \<and> l = None \<and> (full found \<or> MAX_PEOPLE_SCAN \<le> ex)
      | Some a \<Rightarrow> k < length rows \<and> Some a = (if k = 0 then l else Some (rows ! (k - 1))) \<and>
          (full (found @ filter ok (take k rows)) \<or> MAX_PEOPLE_SCAN \<le> ex + k))"
proof (induction rows arbitrary: ex found l)
  case (Cons a rows)
  show ?case
  proof (cases "full found \<or> MAX_PEOPLE_SCAN \<le> ex")
    case True
    then show ?thesis by (intro exI [of _ 0]) (auto split: option.split)
  next
    case False
    let ?found = "if ok a then found @ [a] else found"
    obtain k where k: "k \<le> length rows" "fst (people_scan ok full (Suc ex) ?found (Some a) rows) = ?found @ filter ok (take k rows)"
      "case snd (people_scan ok full (Suc ex) ?found (Some a) rows) of
        None \<Rightarrow> k = length rows
      | Some b \<Rightarrow> k < length rows \<and> Some b = (if k = 0 then Some a else Some (rows ! (k - 1))) \<and>
          (full (?found @ filter ok (take k rows)) \<or> MAX_PEOPLE_SCAN \<le> Suc ex + k)"
      using Cons.IH [of "Suc ex" ?found "Some a"] by (auto split: option.splits)
    show ?thesis
      by (rule exI [of _ "Suc k"]) (use False k in \<open>auto simp: nth_Cons' split: option.splits if_splits\<close>)
  qed
qed simp

lemma rows_after_nth:
  assumes "distinct rows" and "rows_after rows after = drop K rows" and "0 < k" and "K + k \<le> length rows"
  shows "rows_after rows (Some (drop K rows ! (k - 1))) = drop (K + k) rows"
proof -
  let ?j = "K + k - 1"
  have j: "?j < length rows" "drop K rows ! (k - 1) = rows ! ?j" using assms(3,4) by (simp_all add: add.commute)
  have ne: "x \<noteq> rows ! ?j" if "x \<in> set (take ?j rows)" for x
    using that j(1) assms(1) by (auto simp: in_set_conv_nth nth_eq_iff_index_eq)
  have "dropWhile (\<lambda>b. b \<noteq> rows ! ?j) rows = dropWhile (\<lambda>b. b \<noteq> rows ! ?j) (take ?j rows @ rows ! ?j # drop (Suc ?j) rows)"
    using id_take_nth_drop [OF j(1)] by simp
  also have "\<dots> = rows ! ?j # drop (Suc ?j) rows" by (subst dropWhile_append2) (use ne in auto)
  finally show ?thesis using assms(3) j(2) by (simp add: rows_after_def)
qed

text \<open>A page of the search: the matches of the rows it examined, in some order, and a cursor for the rest.\<close>

lemma search_page:
  assumes d: "distinct (pe_profiles env)" and rank: "\<And>xs. mset (pe_rank env xs) = mset xs"
    and K: "rows_after (pe_profiles env) after = drop K (pe_profiles env)" "K \<le> length (pe_profiles env)" and n: "0 < n" "n \<le> RT_MAX_PAGE"
  obtains k people nx where "search_people env st needle after n = (people, nx)" "K + k \<le> length (pe_profiles env)"
    "mset (map ps_account people) = mset (filter (name_matches st needle) (take k (drop K (pe_profiles env))))"
    "nx = None \<Longrightarrow> K + k = length (pe_profiles env)"
    "nx \<noteq> None \<Longrightarrow> rows_after (pe_profiles env) nx = drop (K + k) (pe_profiles env) \<and> (n \<le> length people \<or> MAX_PEOPLE_SCAN \<le> k)"
proof -
  let ?rows = "drop K (pe_profiles env)" and ?ok = "name_matches st needle" and ?full = "\<lambda>ms. n \<le> length ms"
  obtain found nx where scan: "people_scan ?ok ?full 0 [] None ?rows = (found, nx)" by (cases "people_scan ?ok ?full 0 [] None ?rows")
  from people_scan_prefix [of ?rows ?ok ?full 0 "[]" None] obtain k where k: "k \<le> length ?rows" "found = filter ?ok (take k ?rows)"
    "case nx of None \<Rightarrow> k = length ?rows | Some a \<Rightarrow> k < length ?rows \<and> k \<noteq> 0 \<and> a = ?rows ! (k - 1) \<and> (n \<le> length found \<or> MAX_PEOPLE_SCAN \<le> k)"
    unfolding scan using n by (auto simp: MAX_PEOPLE_SCAN_def split: option.splits if_splits)
  define people where "people = (if found = [] then [] else map (person_summary env st \<circ> fst) (pe_rank env (map (\<lambda>a. (a, FollowerCount st a)) found)))"
  have acc: "ps_account (person_summary env st a) = a" for a by (simp add: person_summary_def Let_def split: prod.split)
  have acct: "mset (map ps_account people) = mset found"
  proof -
    have "mset (map fst (pe_rank env (map (\<lambda>a. (a, FollowerCount st a)) found))) = mset (map fst (map (\<lambda>a. (a, FollowerCount st a)) found))"
      by (simp only: mset_map rank)
    moreover have "map ps_account (map (person_summary env st \<circ> fst) ps) = map fst ps" for ps :: "(ss58 \<times> nat) list"
      by (simp add: comp_def acc)
    ultimately show ?thesis unfolding people_def by (cases "found = []") (simp_all only: if_True if_False, simp_all add: comp_def)
  qed
  have len: "length people = length found" using acct by (metis mset_eq_length length_map)
  have page: "search_people env st needle after n = (people, nx)"
    by (simp add: search_people_def K(1) clamp_limit_id [OF n] scan people_def)
  have "rows_after (pe_profiles env) nx = drop (K + k) (pe_profiles env) \<and> (n \<le> length people \<or> MAX_PEOPLE_SCAN \<le> k)" if "nx \<noteq> None"
  proof -
    from that obtain a where a: "nx = Some a" by blast
    with k(3) have "k < length ?rows" "k \<noteq> 0" "a = ?rows ! (k - 1)" "n \<le> length found \<or> MAX_PEOPLE_SCAN \<le> k" by simp_all
    with rows_after_nth [OF d K(1), of k] K(2) show ?thesis by (simp add: a len)
  qed
  moreover have "K + k = length (pe_profiles env)" if "nx = None" using k(3) that K(2) by simp
  moreover have "K + k \<le> length (pe_profiles env)" using k(1) K(2) by simp
  ultimately show ?thesis using that [OF page] acct k(2) by blast
qed

section \<open>Following the cursor\<close>

lemma add_people_distinct:
  assumes "distinct (map sg_author ss)" and "sg_author ` set ss \<inter> sg_author ` set out = {}"
  shows "fold add_person ss out = out @ ss"
  using assms by (induction ss arbitrary: out) (auto simp: add_person_def)

lemma filter_take_all:
  assumes "length (filter P (take K xs)) = length (filter P xs)"
  shows "filter P (take K xs) = filter P xs"
proof -
  have "filter P xs = filter P (take K xs) @ filter P (drop K xs)" by (metis append_take_drop_id filter_append)
  with assms show ?thesis by simp
qed

lemma people_loop_complete:
  fixes env st needle
  defines "rows \<equiv> pe_profiles env" and "ok \<equiv> name_matches st needle"
  assumes d: "distinct rows" and rank: "\<And>xs. mset (pe_rank env xs) = mset xs"
    and few: "length (filter ok rows) \<le> target" "0 < target" "target \<le> MAX_PAGE" "target \<le> pool"
    and K: "rows_after rows after = drop K rows" "K \<le> length rows" "mset (map sg_author out) = mset (filter ok (take K rows))"
    and reach: "length rows \<le> K + hops * MAX_PEOPLE_SCAN \<or> length (filter ok (take K rows)) = length (filter ok rows)"
  shows "mset (map sg_author (people_loop pa (search_people env st needle) target pool hops after out)) = mset (filter ok rows)"
  using K reach
proof (induction hops arbitrary: after K out)
  case 0
  then have "filter ok (take K rows) = filter ok rows" using filter_take_all [of ok K rows] by auto
  with 0(3) show ?case by (simp del: mset_filter)
next
  case (Suc hops)
  let ?want = "min (max target (pool - length out)) MAX_PAGE"
  have w: "0 < ?want" "?want \<le> RT_MAX_PAGE" "target \<le> ?want" using few by (auto simp: MAX_PAGE_def RT_MAX_PAGE_def)
  obtain k people nx where pg: "search_people env st needle after ?want = (people, nx)" "K + k \<le> length rows"
    "mset (map ps_account people) = mset (filter ok (take k (drop K rows)))" "nx = None \<Longrightarrow> K + k = length rows"
    "nx \<noteq> None \<Longrightarrow> rows_after rows nx = drop (K + k) rows \<and> (?want \<le> length people \<or> MAX_PEOPLE_SCAN \<le> k)"
    using search_page [OF d [unfolded rows_def] rank Suc.prems(1,2) [unfolded rows_def] w(1,2), of st needle]
    unfolding rows_def ok_def by metis
  let ?ss = "map (personSummaryToSuggestion pa) people" and ?out = "fold add_person (map (personSummaryToSuggestion pa) people) out"
  have au: "map sg_author ?ss = map ps_account people" by (simp add: personSummaryToSuggestion_def)
  have split: "take (K + k) rows = take K rows @ take k (drop K rows)" by (simp add: take_add)
  have dist: "distinct (take K rows @ take k (drop K rows))" using d by (metis split distinct_take)
  have "distinct (map sg_author ?ss)"
    unfolding au using pg(3) dist by (metis distinct_append distinct_filter mset_eq_imp_distinct_iff)
  moreover have "sg_author ` set ?ss \<inter> sg_author ` set out = {}"
  proof -
    have "sg_author ` set ?ss = set (filter ok (take k (drop K rows)))" using au pg(3) by (metis list.set_map mset_eq_setD)
    moreover have "sg_author ` set out = set (filter ok (take K rows))" using Suc.prems(3) by (metis list.set_map mset_eq_setD)
    ultimately show ?thesis using dist by auto
  qed
  ultimately have out: "?out = out @ ?ss" by (rule add_people_distinct)
  have au': "mset (map sg_author ?out) = mset (filter ok (take (K + k) rows))"
    unfolding out map_append au split filter_append using Suc.prems(3) pg(3) by simp
  have len: "length ?out = length (filter ok (take (K + k) rows))" using au' by (metis length_map mset_eq_length)
  have le: "length (filter ok (take (K + k) rows)) \<le> length (filter ok rows)"
    by (metis append_take_drop_id filter_append le_add1 length_append)
  show ?case
  proof (cases "nx = None \<or> pool \<le> length ?out")
    case True
    then have "people_loop pa (search_people env st needle) target pool (Suc hops) after out = ?out" using pg(1) by (simp add: Let_def)
    moreover have "filter ok (take (K + k) rows) = filter ok rows"
    proof (cases "nx = None")
      case False
      with True len le few show ?thesis by (intro filter_take_all) linarith
    qed (use pg(4) in simp)
    ultimately show ?thesis using au' by simp
  next
    case False
    have "length rows \<le> K + k + hops * MAX_PEOPLE_SCAN \<or> length (filter ok (take (K + k) rows)) = length (filter ok rows)"
    proof (cases "?want \<le> length people")
      case True
      have "length people = length (filter ok (take k (drop K rows)))" using pg(3) by (metis length_map mset_eq_length)
      then have "length people \<le> length (filter ok (take (K + k) rows))" by (simp add: split)
      with True w(3) few(1) le show ?thesis by linarith
    next
      case no: False
      have "nx \<noteq> None" using False by simp
      from pg(5) [OF this] no have "MAX_PEOPLE_SCAN \<le> k" by simp
      moreover have "length (filter ok (take K rows)) \<le> length (filter ok (take (K + k) rows))" by (simp add: split)
      ultimately show ?thesis using Suc.prems(4) le by auto
    qed
    moreover have "people_loop pa (search_people env st needle) target pool (Suc hops) after out =
        people_loop pa (search_people env st needle) target pool hops nx ?out"
      using False pg(1) by (auto simp: Let_def)
    ultimately show ?thesis using Suc.IH [of nx "K + k" ?out] pg(2,5) au' False by simp
  qed
qed


interpretation byFollowers: comparator byFollowers
  by unfold_locales (auto simp: byFollowers_def)

text \<open>
  C0: people search misses nobody within its reach.  While the profile map has at most as many rows as the hops can
  examine, and no more accounts match than a page holds, the search returns exactly the bound accounts whose display
  name contains the term, each once, in the order of their followers.
\<close>

theorem people_search_complete:
  assumes "distinct (pe_profiles env)" and "\<forall>xs. mset (pe_rank env xs) = mset xs"
    and "length (pe_profiles env) \<le> MAX_PEOPLE_HOPS * MAX_PEOPLE_SCAN"
    and "length (filter (name_matches st (fromText pa needle)) (pe_profiles env)) \<le> clampLimit limit"
  shows "mset (map sg_author (nodeSearchPeople pa env st needle limit)) =
      mset (filter (name_matches st (fromText pa needle)) (pe_profiles env)) \<and>
    sorted_wrt (\<lambda>a b. sg_followerCount b \<le> sg_followerCount a) (nodeSearchPeople pa env st needle limit)"
proof -
  let ?target = "clampLimit limit" and ?rows = "pe_profiles env" and ?ok = "name_matches st (fromText pa needle)"
  let ?pool = "min (?target * 4) (MAX_PAGE * 2)"
  let ?out = "people_loop pa (search_people env st (fromText pa needle)) ?target ?pool MAX_PEOPLE_HOPS None []"
  have t: "0 < ?target" "?target \<le> MAX_PAGE" "?target \<le> ?pool" by (simp_all add: clampLimit_def MAX_PAGE_def)
  have all: "mset (map sg_author ?out) = mset (filter ?ok ?rows)"
    by (rule people_loop_complete [where K = 0]) (use assms t in \<open>simp_all add: rows_after_def\<close>)
  then have "length ?out = length (filter ?ok ?rows)" by (metis length_map mset_eq_length)
  then have eq: "nodeSearchPeople pa env st needle limit = js_sort byFollowers ?out"
    using assms(4) by (simp add: nodeSearchPeople_def chasePeoplePage_def Let_def)
  have "mset (map sg_author (js_sort byFollowers ?out)) = mset (map sg_author ?out)" by (simp add: mset_map del: map_map)
  moreover have "sorted_wrt (\<lambda>a b. sg_followerCount b \<le> sg_followerCount a) (js_sort byFollowers ?out)"
    using byFollowers.sorted_sort [of ?out] by (simp add: byFollowers_def)
  ultimately show ?thesis unfolding eq all by simp
qed

definition demo_people :: people_env where
  "demo_people = \<lparr>pe_profiles = [''bob'', ''alice''], pe_authors = [''alice'', ''bob''], pe_stake = (\<lambda>_. 0), pe_rank = id\<rparr>"

theorem people_search_complete_witness:
  "mset (map sg_author (nodeSearchPeople demo_papi demo_people demo_chain [] 10)) =
      mset (filter (name_matches demo_chain (fromText demo_papi [])) (pe_profiles demo_people)) \<and>
    sorted_wrt (\<lambda>a b. sg_followerCount b \<le> sg_followerCount a) (nodeSearchPeople demo_papi demo_people demo_chain [] 10)"
proof (rule people_search_complete)
  have "length (filter (name_matches demo_chain (fromText demo_papi [])) (pe_profiles demo_people)) \<le> length (pe_profiles demo_people)"
    by (rule length_filter_le)
  then show "length (filter (name_matches demo_chain (fromText demo_papi [])) (pe_profiles demo_people)) \<le> clampLimit 10"
    by (simp add: demo_people_def clampLimit_def MAX_PAGE_def)
qed (simp_all add: demo_people_def MAX_PEOPLE_HOPS_def MAX_PEOPLE_SCAN_def)

end
