(* ===== verification/Sanitize.thy ===== *)
theory Sanitize
  imports Addresses
begin

text \<open>
  The hardening of displayed text, \<open>app/src/lib/sanitize.ts\<close>, with the query helpers of \<open>search.ts\<close> and the
  document title of a thread (\<open>threadTitle.ts\<close>).  Two things come from the platform and are arguments: the
  general category of a character (\<open>mark\<close>: the nonspacing and enclosing marks) and the grapheme segmenter,
  \<^const>\<open>None\<close> on an engine that has none.
\<close>

definition between :: "nat \<Rightarrow> nat \<Rightarrow> nat \<Rightarrow> bool" where
  "between a b c \<longleftrightarrow> a \<le> c \<and> c \<le> b"

definition bidi :: "nat \<Rightarrow> bool" where
  "bidi c \<longleftrightarrow> between 0x202A 0x202E c \<or> between 0x2066 0x2069 c \<or> c = 0x200E \<or> c = 0x200F \<or> c = 0x061C"

definition invisible :: "nat \<Rightarrow> bool" where
  "invisible c \<longleftrightarrow> c = 0x200B \<or> between 0x2060 0x206F c \<or> c = 0xFEFF \<or> c = 0x180E \<or> c = 0xAD \<or> c = 0x115F \<or>
     c = 0x1160 \<or> c = 0x3164 \<or> c = 0xFFA0 \<or> between 0xFFF9 0xFFFB c"

definition control :: "nat \<Rightarrow> bool" where
  "control c \<longleftrightarrow> c \<le> 8 \<or> c = 0xB \<or> c = 0xC \<or> between 0xE 0x1F c \<or> between 0x7F 0x9F c"

definition ZWNJ :: nat where "ZWNJ = 0x200C"
definition ZWJ :: nat where "ZWJ = 0x200D"
definition BRAILLE_BLANK :: nat where "BRAILLE_BLANK = 0x2800"

definition joiner :: "nat \<Rightarrow> bool" where
  "joiner c \<longleftrightarrow> c = ZWNJ \<or> c = ZWJ"

definition MAX_MARKS :: nat where "MAX_MARKS = 8"
definition MAX_JOINERS :: nat where "MAX_JOINERS = 2"

type_synonym segmenter = "(ustring \<Rightarrow> ustring list) option"

fun clamp_cluster :: "(nat \<Rightarrow> bool) \<Rightarrow> nat \<Rightarrow> ustring \<Rightarrow> ustring" where
  "clamp_cluster mark marks [] = []"
| "clamp_cluster mark marks (c # cs) =
     (if mark c then (if MAX_MARKS < Suc marks then clamp_cluster mark (Suc marks) cs
                      else c # clamp_cluster mark (Suc marks) cs)
      else c # clamp_cluster mark marks cs)"

definition clampCluster :: "(nat \<Rightarrow> bool) \<Rightarrow> ustring \<Rightarrow> ustring" where
  "clampCluster mark cluster = clamp_cluster mark 0 cluster"

fun clamp_runs :: "(nat \<Rightarrow> bool) \<Rightarrow> nat \<Rightarrow> ustring \<Rightarrow> ustring" where
  "clamp_runs mark n [] = []"
| "clamp_runs mark n (c # cs) =
     (if mark c then (if MAX_MARKS < Suc n then clamp_runs mark (Suc n) cs else c # clamp_runs mark (Suc n) cs)
      else c # clamp_runs mark (if joiner c then n else 0) cs)"

definition clampStacks :: "(nat \<Rightarrow> bool) \<Rightarrow> segmenter \<Rightarrow> ustring \<Rightarrow> ustring" where
  "clampStacks mark sg s = (case sg of
     Some seg \<Rightarrow> concat (map (clampCluster mark) (seg s))
   | None \<Rightarrow> clamp_runs mark 0 s)"

text \<open>\<open>replace(JOINER_RUN_RE, m => m.slice(0, MAX_JOINERS))\<close>: \<open>n\<close> joiners have been kept just before.\<close>

fun collapse_joiners :: "nat \<Rightarrow> ustring \<Rightarrow> ustring" where
  "collapse_joiners n [] = []"
| "collapse_joiners n (c # cs) =
     (if joiner c then (if MAX_JOINERS \<le> n then collapse_joiners n cs else c # collapse_joiners (Suc n) cs)
      else c # collapse_joiners 0 cs)"

definition stripped :: "ustring \<Rightarrow> ustring" where
  "stripped s = filter (\<lambda>c. \<not> control c) (filter (\<lambda>c. \<not> invisible c) (filter (\<lambda>c. \<not> bidi c) s))"

definition sanitizeText :: "(nat \<Rightarrow> bool) \<Rightarrow> segmenter \<Rightarrow> ustring \<Rightarrow> ustring" where
  "sanitizeText mark sg input =
     (if input = [] then input else collapse_joiners 0 (clampStacks mark sg (stripped input)))"

text \<open>\<open>replace(/\s+/g, " ")\<close>.\<close>

function collapse_white :: "ustring \<Rightarrow> ustring" where
  "collapse_white [] = []"
| "collapse_white (c # cs) =
     (if white c then 32 # collapse_white (dropWhile white cs) else c # collapse_white cs)"
  by pat_completeness auto

termination
  by (relation "measure length") (auto simp: le_imp_less_Suc length_dropWhile_le)

definition sanitizeInline :: "(nat \<Rightarrow> bool) \<Rightarrow> segmenter \<Rightarrow> ustring \<Rightarrow> ustring" where
  "sanitizeInline mark sg input =
     (if input = [] then input
      else utrim (collapse_white (filter (\<lambda>c. c \<noteq> BRAILLE_BLANK) (sanitizeText mark sg input))))"

section \<open>search.ts\<close>

definition MIN_QUERY_LEN :: nat where "MIN_QUERY_LEN = 2"

definition normalizeQuery :: "ustring \<Rightarrow> ustring" where
  "normalizeQuery raw = utrim (collapse_white raw)"

definition isQueryTooShort :: "ustring \<Rightarrow> bool" where
  "isQueryTooShort n = (if \<not> list_all (\<lambda>c. c \<le> 0x7F) n then False
     else 0 < length n \<and> length n < MIN_QUERY_LEN)"

section \<open>threadTitle.ts\<close>

definition DEFAULT_THREAD_TITLE :: ustring where "DEFAULT_THREAD_TITLE = ascii ''cogno''"
definition SNIPPET_LEN :: nat where "SNIPPET_LEN = 60"

definition unit_length :: "ustring \<Rightarrow> nat" where
  "unit_length s = sum_list (map (\<lambda>c. if c < 0x10000 then 1 else 2) s)"

text \<open>\<open>slice(0, n)\<close> on code units; a pair that straddles the cut leaves its first half.\<close>

fun slice_units :: "nat \<Rightarrow> ustring \<Rightarrow> ustring" where
  "slice_units n [] = []"
| "slice_units n (c # cs) =
     (if n = 0 then []
      else if c < 0x10000 then c # slice_units (n - 1) cs
      else if n = 1 then [0xD800 + (c - 0x10000) div 1024]
      else c # slice_units (n - 2) cs)"

definition threadDocumentTitle ::
  "(nat \<Rightarrow> bool) \<Rightarrow> segmenter \<Rightarrow> (ustring \<times> ustring option \<times> ustring) option \<Rightarrow> bool \<Rightarrow> bool \<Rightarrow> ustring" where
  "threadDocumentTitle mark sg focal denied blocked =
     (case focal of None \<Rightarrow> DEFAULT_THREAD_TITLE | Some (author, name, text) \<Rightarrow>
        if denied \<or> blocked then DEFAULT_THREAD_TITLE
        else let n = sanitizeInline mark sg (coalesce name []);
                 who = (if n = [] then handleOf author else n);
                 snippet = sanitizeInline mark sg text;
                 clipped = (if SNIPPET_LEN < unit_length snippet then slice_units SNIPPET_LEN snippet @ [ELLIPSIS] else snippet)
             in if clipped = [] then who @ ascii '' on cogno''
                else who @ ascii '' on cogno: '' @ [0x201C] @ clipped @ [0x201D])"

section \<open>What the hardening removes\<close>

definition plain :: "nat \<Rightarrow> bool" where
  "plain c \<longleftrightarrow> \<not> bidi c \<and> \<not> invisible c \<and> \<not> control c"

lemma stripped_eq: "stripped s = filter plain s"
  unfolding stripped_def filter_filter by (rule filter_cong) (simp_all only: plain_def conj_assoc)

lemma set_clamp_runs: "set (clamp_runs mark n s) \<subseteq> set s"
  by (induction mark n s rule: clamp_runs.induct) auto

lemma set_clamp_cluster: "set (clamp_cluster mark n s) \<subseteq> set s"
  by (induction mark n s rule: clamp_cluster.induct) auto

lemma set_collapse_joiners: "set (collapse_joiners n s) \<subseteq> set s"
  by (induction n s rule: collapse_joiners.induct) auto

definition keeps_text :: "segmenter \<Rightarrow> bool" where
  "keeps_text sg \<longleftrightarrow> (case sg of None \<Rightarrow> True | Some seg \<Rightarrow> \<forall>s. concat (seg s) = s)"

lemma set_clamp_clusters: "set (concat (map (clampCluster mark) cs)) \<subseteq> set (concat cs)"
proof (induction cs)
  case (Cons c cs)
  then show ?case using set_clamp_cluster [of mark 0 c] by (simp add: clampCluster_def) blast
qed simp

lemma set_clampStacks: "keeps_text sg \<Longrightarrow> set (clampStacks mark sg s) \<subseteq> set s"
proof (cases sg)
  case (Some seg)
  assume "keeps_text sg"
  then have "concat (seg s) = s" using Some by (simp add: keeps_text_def)
  then show ?thesis using set_clamp_clusters [of mark "seg s"] by (simp add: clampStacks_def Some)
qed (simp add: clampStacks_def set_clamp_runs)

lemma sanitizeText_plain: "keeps_text sg \<Longrightarrow> list_all plain (sanitizeText mark sg s)"
proof -
  assume k: "keeps_text sg"
  have "set (collapse_joiners 0 (clampStacks mark sg (stripped s))) \<subseteq> set (filter plain s)"
    using set_collapse_joiners [of 0 "clampStacks mark sg (stripped s)"] set_clampStacks [OF k, of mark "stripped s"]
    unfolding stripped_eq by (rule subset_trans)
  then show ?thesis by (auto simp: list_all_iff sanitizeText_def)
qed

section \<open>Idempotence\<close>

lemma length_clamp_runs: "length (clamp_runs mark n s) \<le> length s"
  by (induction mark n s rule: clamp_runs.induct) auto

lemma clamp_runs_idem: "n' \<le> n \<Longrightarrow> clamp_runs mark n' (clamp_runs mark n s) = clamp_runs mark n s"
  by (induction mark n s arbitrary: n' rule: clamp_runs.induct) auto

lemma clamp_runs_fixed_Cons:
  "clamp_runs mark n (c # s) = c # s \<Longrightarrow> \<not> (mark c \<and> MAX_MARKS < Suc n)"
  using length_clamp_runs [of mark "Suc n" s] by (auto dest: arg_cong [of _ _ length])

lemma clamp_runs_collapse:
  "clamp_runs mark n s = s \<Longrightarrow> n' \<le> n \<Longrightarrow> clamp_runs mark n' (collapse_joiners k s) = collapse_joiners k s"
proof (induction s arbitrary: n n' k)
  case (Cons c s)
  note keep = clamp_runs_fixed_Cons [OF Cons.prems(1)]
  show ?case
  proof (cases "mark c")
    case True
    then have "clamp_runs mark (Suc n) s = s" "Suc n \<le> MAX_MARKS" using Cons.prems(1) keep by auto
    then show ?thesis using Cons.IH [of "Suc n"] Cons.prems(2) True by simp
  next
    case False
    then have "clamp_runs mark (if joiner c then n else 0) s = s" using Cons.prems(1) by simp
    then show ?thesis using Cons.IH [of "if joiner c then n else 0"] Cons.prems(2) False by simp
  qed
qed simp

lemma collapse_joiners_idem: "k' \<le> k \<Longrightarrow> collapse_joiners k' (collapse_joiners k s) = collapse_joiners k s"
  by (induction k s arbitrary: k' rule: collapse_joiners.induct) auto

text \<open>The longest run of marks on one base, as the engine without a segmenter counts it.\<close>

fun mark_run :: "(nat \<Rightarrow> bool) \<Rightarrow> nat \<Rightarrow> ustring \<Rightarrow> nat" where
  "mark_run mark n [] = n"
| "mark_run mark n (c # cs) =
     (if mark c then mark_run mark (Suc n) cs else max n (mark_run mark (if joiner c then n else 0) cs))"

lemma mark_run_bound: "clamp_runs mark n s = s \<Longrightarrow> n \<le> MAX_MARKS \<Longrightarrow> mark_run mark n s \<le> MAX_MARKS"
proof (induction s arbitrary: n)
  case (Cons c s)
  note keep = clamp_runs_fixed_Cons [OF Cons.prems(1)]
  then show ?case using Cons by (auto split: if_splits)
qed simp

text \<open>
  C25: on an engine without a grapheme segmenter the hardening of a body is idempotent, so applying it at
  several layers changes nothing; its result holds no bidirectional control, no invisible separator and no
  control code, and no base carries more than \<open>MAX_MARKS\<close> combining marks.
\<close>

theorem sanitizeText_hardened:
  "sanitizeText mark None (sanitizeText mark None s) = sanitizeText mark None s \<and>
   list_all plain (sanitizeText mark None s) \<and> mark_run mark 0 (sanitizeText mark None s) \<le> MAX_MARKS"
proof (cases "s = []")
  case True
  then show ?thesis by (simp add: sanitizeText_def)
next
  case False
  let ?r = "clamp_runs mark 0 (stripped s)"
  have t: "sanitizeText mark None s = collapse_joiners 0 ?r" using False by (simp add: sanitizeText_def clampStacks_def)
  have fixed: "clamp_runs mark 0 (collapse_joiners 0 ?r) = collapse_joiners 0 ?r"
    by (rule clamp_runs_collapse [OF clamp_runs_idem]) simp_all
  have plain: "list_all plain (collapse_joiners 0 ?r)"
    using sanitizeText_plain [of None mark s] by (simp add: t keeps_text_def)
  then have "stripped (collapse_joiners 0 ?r) = collapse_joiners 0 ?r"
    by (simp add: stripped_eq list_all_iff filter_id_conv)
  then have "sanitizeText mark None (collapse_joiners 0 ?r) = collapse_joiners 0 ?r"
    by (simp add: sanitizeText_def clampStacks_def fixed collapse_joiners_idem)
  then show ?thesis using plain mark_run_bound [OF fixed] by (simp add: t)
qed

section \<open>The single-line fields\<close>

text \<open>A base with a blank cell before each of its marks.\<close>

definition padded :: "nat \<Rightarrow> ustring \<Rightarrow> ustring" where
  "padded b ms = b # concat (map (\<lambda>m. [BRAILLE_BLANK, m]) ms)"

definition ordinary :: "nat \<Rightarrow> bool" where
  "ordinary c \<longleftrightarrow> plain c \<and> \<not> white c \<and> \<not> joiner c \<and> c \<noteq> BRAILLE_BLANK"

text \<open>
  What the grapheme rules of Unicode say of these texts: the clusters make up the text, none continues into a blank
  cell, and a base keeps its marks.
\<close>

definition breaks_graphemes :: "segmenter \<Rightarrow> nat \<Rightarrow> ustring \<Rightarrow> bool" where
  "breaks_graphemes sg b ms \<longleftrightarrow> (case sg of
     None \<Rightarrow> True
   | Some seg \<Rightarrow> concat (seg (padded b ms)) = padded b ms \<and>
       (\<forall>cl \<in> set (seg (padded b ms)). BRAILLE_BLANK \<notin> set (tl cl)) \<and> seg (b # ms) = [b # ms])"

lemma BLANK_plain: "plain BRAILLE_BLANK" "\<not> white BRAILLE_BLANK" "\<not> joiner BRAILLE_BLANK"
  by (simp_all add: plain_def white_def joiner_def bidi_def invisible_def control_def between_def BRAILLE_BLANK_def ZWJ_def ZWNJ_def)

lemma collapse_joiners_id: "list_all (\<lambda>c. \<not> joiner c) s \<Longrightarrow> collapse_joiners n s = s"
  by (induction s arbitrary: n) simp_all

lemma collapse_white_id: "list_all (\<lambda>c. \<not> white c) s \<Longrightarrow> collapse_white s = s"
  by (induction s) simp_all

lemma clamp_marks: "list_all mark ms \<Longrightarrow> clamp_runs mark n ms = take (MAX_MARKS - n) ms"
  "list_all mark ms \<Longrightarrow> clamp_cluster mark n ms = take (MAX_MARKS - n) ms"
  by (induction ms arbitrary: n) (auto simp: take_Cons' Suc_le_eq not_less)

lemma mark_run_marks: "list_all mark ms \<Longrightarrow> mark_run mark n ms = n + length ms"
  by (induction ms arbitrary: n) simp_all

lemma clamp_cluster_short: "n + length cl \<le> MAX_MARKS \<Longrightarrow> clamp_cluster mark n cl = cl"
  by (induction cl arbitrary: n) auto

lemma clamp_runs_padded:
  "\<not> mark BRAILLE_BLANK \<Longrightarrow> clamp_runs mark n (concat (map (\<lambda>m. [BRAILLE_BLANK, m]) ms)) = concat (map (\<lambda>m. [BRAILLE_BLANK, m]) ms)"
  by (induction ms arbitrary: n) (simp_all add: BLANK_plain MAX_MARKS_def)

lemma padded_alternates: "successively (\<lambda>x y. x = BRAILLE_BLANK \<or> y = BRAILLE_BLANK) (padded b ms)"
proof -
  have "successively (\<lambda>x y. x = BRAILLE_BLANK \<or> y = BRAILLE_BLANK) (x # concat (map (\<lambda>m. [BRAILLE_BLANK, m]) ms))" for x
    by (induction ms arbitrary: x) simp_all
  then show ?thesis by (simp add: padded_def)
qed

lemma cluster_short:
  assumes "successively (\<lambda>x y. x = z \<or> y = z) (concat cls)" and "cl \<in> set cls" and "z \<notin> set (tl cl)"
  shows "length cl \<le> 2"
proof -
  obtain us vs where "cls = us @ cl # vs" using assms(2) by (metis split_list)
  then have "successively (\<lambda>x y. x = z \<or> y = z) cl"
    using assms(1) by (simp add: successively_append_iff)
  moreover have "\<exists>x y u r. cl = x # y # u # r" if "3 \<le> length cl"
    using that by (auto simp: numeral_3_eq_3 Suc_le_length_iff)
  ultimately show ?thesis using assms(3) by (cases "3 \<le> length cl") auto
qed

lemma clampStacks_padded:
  assumes "breaks_graphemes sg b ms" and "\<not> mark BRAILLE_BLANK" "\<not> mark b" "\<not> joiner b"
  shows "clampStacks mark sg (padded b ms) = padded b ms"
proof (cases sg)
  case None
  then show ?thesis using assms(2-4) by (simp add: clampStacks_def padded_def clamp_runs_padded)
next
  case (Some seg)
  let ?cls = "seg (padded b ms)"
  have all: "concat ?cls = padded b ms" and no: "\<And>cl. cl \<in> set ?cls \<Longrightarrow> BRAILLE_BLANK \<notin> set (tl cl)"
    using assms(1) Some by (auto simp: breaks_graphemes_def)
  have "successively (\<lambda>x y. x = BRAILLE_BLANK \<or> y = BRAILLE_BLANK) (concat ?cls)"
    unfolding all by (rule padded_alternates)
  then have "length cl \<le> 2" if "cl \<in> set ?cls" for cl by (rule cluster_short [OF _ that no [OF that]])
  then have "map (clampCluster mark) ?cls = ?cls"
    by (intro map_idI) (fastforce simp: clampCluster_def MAX_MARKS_def intro: clamp_cluster_short)
  then show ?thesis using all Some by (simp add: clampStacks_def)
qed

lemma clampStacks_stack:
  assumes "breaks_graphemes sg b ms" and "\<not> mark b" "\<not> joiner b" "list_all mark ms"
  shows "clampStacks mark sg (b # ms) = b # take MAX_MARKS ms"
  using assms by (cases sg) (simp_all add: clampStacks_def breaks_graphemes_def clampCluster_def clamp_marks)

lemma sanitizeInline_ordinary:
  assumes "clampStacks mark sg s = t" and "s \<noteq> []" and "list_all (\<lambda>c. ordinary c \<or> c = BRAILLE_BLANK) s" and "set t \<subseteq> set s"
  shows "sanitizeInline mark sg s = filter (\<lambda>c. c \<noteq> BRAILLE_BLANK) t"
proof -
  have "stripped s = s"
    using assms(3) BLANK_plain by (auto simp: stripped_eq filter_id_conv list_all_iff ordinary_def)
  moreover have t: "list_all (\<lambda>c. \<not> joiner c \<and> \<not> white c) t"
    using assms(3,4) BLANK_plain by (auto simp: list_all_iff ordinary_def)
  then have "collapse_joiners 0 t = t" by (intro collapse_joiners_id) (auto simp: list_all_iff)
  ultimately have "sanitizeText mark sg s = t" using assms(1,2) by (simp add: sanitizeText_def)
  moreover have w: "list_all (\<lambda>c. \<not> white c) (filter (\<lambda>c. c \<noteq> BRAILLE_BLANK) t)" using t by (auto simp: list_all_iff)
  ultimately show ?thesis
    using assms(2) collapse_white_id [OF w] utrim_id [OF w] by (simp add: sanitizeInline_def)
qed

text \<open>
  C26: the single-line hardening does not keep the cap on stacked marks.  The blank cells are removed after the cap was
  applied, so a base with a blank cell before each of its marks, however many they are, is shown as the base with
  all of them: more than \<open>MAX_MARKS\<close> on one base when there are more.  Applying the function again cuts them to
  \<open>MAX_MARKS\<close>, so it is not idempotent either.  This holds with a grapheme segmenter that follows the Unicode rules on
  these texts and on an engine that has none.
\<close>

theorem blank_cell_reassembles_stack:
  assumes "breaks_graphemes sg b ms" and "\<not> mark BRAILLE_BLANK" and "\<not> mark b" "list_all mark ms"
    and "ordinary b" "list_all ordinary ms"
  shows "sanitizeInline mark sg (padded b ms) = b # ms \<and> mark_run mark 0 (b # ms) = length ms \<and>
    sanitizeInline mark sg (b # ms) = b # take MAX_MARKS ms"
proof -
  have j: "\<not> joiner b" using assms(5) by (simp add: ordinary_def)
  have keep: "filter (\<lambda>c. c \<noteq> BRAILLE_BLANK) (b # ns) = b # ns" if "set ns \<subseteq> set ms" for ns
    using assms(5,6) that by (auto simp: ordinary_def list_all_iff filter_id_conv)
  have "filter (\<lambda>c. c \<noteq> BRAILLE_BLANK) (padded b ms) = b # ms"
    using assms(5,6) by (induction ms) (auto simp: padded_def ordinary_def)
  moreover have "list_all (\<lambda>c. ordinary c \<or> c = BRAILLE_BLANK) (padded b ms)"
    using assms(5,6) by (auto simp: padded_def list_all_iff)
  moreover have "padded b ms \<noteq> []" by (simp add: padded_def)
  ultimately have 1: "sanitizeInline mark sg (padded b ms) = b # ms"
    using sanitizeInline_ordinary [OF clampStacks_padded [OF assms(1-3) j]] by simp
  have "sanitizeInline mark sg (b # ms) = filter (\<lambda>c. c \<noteq> BRAILLE_BLANK) (b # take MAX_MARKS ms)"
    using assms(5,6)
    by (intro sanitizeInline_ordinary clampStacks_stack [OF assms(1,3) j assms(4)]) (auto simp: list_all_iff dest: in_set_takeD)
  then have "sanitizeInline mark sg (b # ms) = b # take MAX_MARKS ms" using keep by (simp add: set_take_subset)
  with 1 show ?thesis using assms(3,4) by (simp add: mark_run_marks j)
qed

definition latin_mark :: "nat \<Rightarrow> bool" where
  "latin_mark c \<longleftrightarrow> between 0x300 0x36F c"

text \<open>A segmenter for texts of bases and marks: every character that is not a mark starts a cluster.\<close>

fun base_breaks :: "(nat \<Rightarrow> bool) \<Rightarrow> ustring \<Rightarrow> ustring \<Rightarrow> ustring list" where
  "base_breaks mark cl [] = [cl]"
| "base_breaks mark cl (c # cs) = (if mark c then base_breaks mark (cl @ [c]) cs else cl # base_breaks mark [c] cs)"

definition demo_segmenter :: segmenter where
  "demo_segmenter = Some (\<lambda>s. case s of [] \<Rightarrow> [] | c # cs \<Rightarrow> base_breaks latin_mark [c] cs)"

theorem blank_cell_reassembles_stack_witness:
  "sanitizeInline latin_mark demo_segmenter (padded 97 (replicate 9 0x301)) = 97 # replicate 9 0x301 \<and>
   mark_run latin_mark 0 (97 # replicate 9 0x301) = 9"
proof -
  have evals: "latin_mark 0x301" "\<not> latin_mark 97" "\<not> latin_mark BRAILLE_BLANK" "ordinary 97" "ordinary 0x301"
    "0x301 \<noteq> BRAILLE_BLANK" "97 \<noteq> BRAILLE_BLANK"
    by (simp_all add: latin_mark_def between_def joiner_def ZWJ_def ZWNJ_def BRAILLE_BLANK_def plain_def bidi_def
        invisible_def control_def ordinary_def white_def)
  have r9: "replicate 9 (0x301 :: nat) = [0x301,0x301,0x301,0x301,0x301,0x301,0x301,0x301,0x301]" by (simp add: numeral_eq_Suc)
  have b: "breaks_graphemes demo_segmenter 97 (replicate 9 0x301)"
    unfolding r9 using evals by (simp add: breaks_graphemes_def demo_segmenter_def padded_def)
  have m: "list_all latin_mark (replicate 9 0x301)" "list_all ordinary (replicate 9 0x301)"
    using evals by (simp_all add: list_all_iff)
  show ?thesis using blank_cell_reassembles_stack [OF b evals(3,2) m(1) evals(4) m(2)] by simp
qed

end
