(* ===== verification/Mentions.thy ===== *)
theory Mentions
  imports Sanitize
begin

text \<open>
  Mentions, \<open>app/src/lib/mentions.ts\<close>: the label shown for an account, the registry of a draft, the expansion of
  \<open>@display\<close> tokens to \<open>@\<close> and the account's address on submit, and the parse of a stored body.  Whether a character is
  a letter or a number is the argument \<open>name_char\<close>; the address codec is \<open>ss58_lib\<close>.
\<close>

definition mentionLabel :: "(nat \<Rightarrow> bool) \<Rightarrow> segmenter \<Rightarrow> ustring option \<Rightarrow> ustring \<Rightarrow> ustring" where
  "mentionLabel mark sg displayName ss58 =
     (let collapsed = sanitizeInline mark sg (coalesce displayName [])
      in if collapsed \<noteq> [] then collapsed else truncateSs58 ss58)"

record MentionParts =
  label :: ustring
  address :: "ustring option"

definition mentionParts :: "(nat \<Rightarrow> bool) \<Rightarrow> segmenter \<Rightarrow> ustring option \<Rightarrow> ustring \<Rightarrow> MentionParts" where
  "mentionParts mark sg displayName ss58 =
     (let l = mentionLabel mark sg displayName ss58; short = truncateSs58 ss58
      in \<lparr>label = l, address = (if l = short then None else Some short)\<rparr>)"

record MentionRef =
  mss58 :: ustring
  display :: ustring

definition mentionToken :: "ustring \<Rightarrow> ustring" where
  "mentionToken d = 64 # d"

definition pickMentionDisplay ::
  "(nat \<Rightarrow> bool) \<Rightarrow> segmenter \<Rightarrow> ustring option \<Rightarrow> ustring \<Rightarrow> MentionRef list \<Rightarrow> ustring" where
  "pickMentionDisplay mark sg displayName ss58 existing =
     (let l = mentionLabel mark sg displayName ss58;
          clash = list_ex (\<lambda>m. display m = l \<and> mss58 m \<noteq> ss58) existing
      in if clash then l @ ascii '' ('' @ truncateSs58 ss58 @ ascii '')'' else l)"

record SubmittedDraft =
  dtext :: ustring
  drefs :: "MentionRef list"

definition reconcileMentions :: "MentionRef list \<Rightarrow> ustring \<Rightarrow> SubmittedDraft option \<Rightarrow> MentionRef list" where
  "reconcileMentions mentions text submitted =
     (case submitted of
        Some d \<Rightarrow> if mentions = [] \<and> dtext d \<noteq> [] \<and> text = dtext d then drefs d
                  else filter (\<lambda>m. sublist (mentionToken (display m)) text) mentions
      | None \<Rightarrow> filter (\<lambda>m. sublist (mentionToken (display m)) text) mentions)"

text \<open>
  The test reads one code unit: of a character outside the basic plane it sees half, which is no letter.
\<close>

definition isNameCont :: "(nat \<Rightarrow> bool) \<Rightarrow> nat option \<Rightarrow> bool" where
  "isNameCont name_char ch = (case ch of None \<Rightarrow> False
     | Some c \<Rightarrow> if 0x10000 \<le> c then False else name_char c \<or> c = 95)"

definition head :: "'a list \<Rightarrow> 'a option" where
  "head xs = (case xs of [] \<Rightarrow> None | x # _ \<Rightarrow> Some x)"

definition byDisplay :: "MentionRef list \<Rightarrow> (ustring, ustring) omap" where
  "byDisplay mentions = fold (\<lambda>m tab.
     if display m \<noteq> [] \<and> map_of tab (display m) = None then omap_set (display m) (mss58 m) tab else tab) mentions []"

definition longer_first :: "ustring \<times> ustring \<Rightarrow> ustring \<times> ustring \<Rightarrow> int" where
  "longer_first a b = int (unit_length (fst b)) - int (unit_length (fst a))"

definition token_at :: "(nat \<Rightarrow> bool) \<Rightarrow> (ustring \<times> ustring) list \<Rightarrow> ustring \<Rightarrow> (ustring \<times> ustring) option" where
  "token_at name_char tab rest = find (\<lambda>(d, _). prefix d rest \<and> \<not> isNameCont name_char (head (drop (length d) rest))) tab"

function expand :: "(nat \<Rightarrow> bool) \<Rightarrow> (ustring \<times> ustring) list \<Rightarrow> ustring \<Rightarrow> ustring" where
  "expand name_char tab [] = []"
| "expand name_char tab (c # cs) =
     (if c = 64 then
        (case token_at name_char tab cs of
           Some (d, ss58) \<Rightarrow> 64 # ss58 @ expand name_char tab (drop (length d) cs)
         | None \<Rightarrow> c # expand name_char tab cs)
      else c # expand name_char tab cs)"
  by pat_completeness auto

termination
  by (relation "measure (\<lambda>(_, _, s). length s)") auto

definition displays :: "MentionRef list \<Rightarrow> (ustring \<times> ustring) list" where
  "displays mentions = js_sort longer_first (byDisplay mentions)"

definition serializeMentions :: "(nat \<Rightarrow> bool) \<Rightarrow> ustring \<Rightarrow> MentionRef list \<Rightarrow> ustring" where
  "serializeMentions name_char text mentions =
     (if mentions = [] \<or> 64 \<notin> set text then text
      else if displays mentions = [] then text
      else expand name_char (displays mentions) text)"

section \<open>Reading a body\<close>

definition SS58_MAX_LEN :: nat where "SS58_MAX_LEN = 49"
definition SS58_MIN_LEN :: nat where "SS58_MIN_LEN = 44"

fun prefix_from :: "ss58_lib \<Rightarrow> ustring \<Rightarrow> nat \<Rightarrow> (ustring \<times> nat) option" where
  "prefix_from lib run len =
     (if len < SS58_MIN_LEN then None
      else case normalizeSs58 lib (Some (take len run)) of
             Some a \<Rightarrow> Some (a, len)
           | None \<Rightarrow> (if len = 0 then None else prefix_from lib run (len - 1)))"

declare prefix_from.simps [simp del]

definition validSs58Prefix :: "ss58_lib \<Rightarrow> ustring \<Rightarrow> (ustring \<times> nat) option" where
  "validSs58Prefix lib run = prefix_from lib run (min (length run) SS58_MAX_LEN)"

record ParsedMention =
  pindex :: nat
  plength :: nat
  pss58 :: ustring
  praw :: ustring

text \<open>The matches of \<open>/@[base58]{44,}/g\<close>: the index of a match and the run after the sign.\<close>

function candidates :: "nat \<Rightarrow> ustring \<Rightarrow> (nat \<times> ustring) list" where
  "candidates i [] = []"
| "candidates i (c # cs) =
     (if c = 64 \<and> SS58_MIN_LEN \<le> length (takeWhile base58 cs)
      then (i, takeWhile base58 cs) # candidates (i + 1 + length (takeWhile base58 cs)) (dropWhile base58 cs)
      else candidates (Suc i) cs)"
  by pat_completeness auto

termination
  by (relation "measure (\<lambda>(_, s). length s)") (auto simp: le_imp_less_Suc length_dropWhile_le)

definition parseMentionBody :: "ss58_lib \<Rightarrow> ustring \<Rightarrow> ParsedMention list" where
  "parseMentionBody lib body = List.map_filter (\<lambda>(i, run). case validSs58Prefix lib run of
       None \<Rightarrow> None
     | Some (a, n) \<Rightarrow> Some \<lparr>pindex = i, plength = 1 + n, pss58 = a, praw = take (1 + n) (drop i body)\<rparr>)
     (candidates 0 body)"

section \<open>The round trip\<close>

text \<open>The accounts whose tokens the expansion replaces, in order.\<close>

function resolved :: "(nat \<Rightarrow> bool) \<Rightarrow> (ustring \<times> ustring) list \<Rightarrow> ustring \<Rightarrow> ustring list" where
  "resolved name_char tab [] = []"
| "resolved name_char tab (c # cs) =
     (if c = 64 then
        (case token_at name_char tab cs of
           Some (d, ss58) \<Rightarrow> ss58 # resolved name_char tab (drop (length d) cs)
         | None \<Rightarrow> resolved name_char tab cs)
      else resolved name_char tab cs)"
  by pat_completeness auto

termination
  by (relation "measure (\<lambda>(_, _, s). length s)") auto

text \<open>The author typed no address: no sign in the text is followed by one.\<close>

fun no_address :: "ss58_lib \<Rightarrow> ustring \<Rightarrow> bool" where
  "no_address lib [] = True"
| "no_address lib (c # cs) \<longleftrightarrow> (c = 64 \<longrightarrow> validSs58Prefix lib (takeWhile base58 cs) = None) \<and> no_address lib cs"

text \<open>An address the chain uses: canonical, and of the length the reader tries.\<close>

definition chain_address :: "ss58_lib \<Rightarrow> ustring \<Rightarrow> bool" where
  "chain_address lib a \<longleftrightarrow> normalizeSs58 lib (Some a) = Some a \<and> SS58_MIN_LEN \<le> length a \<and> length a \<le> SS58_MAX_LEN \<and>
     list_all base58 a"

definition found :: "ss58_lib \<Rightarrow> ustring \<Rightarrow> ustring list" where
  "found lib body = List.map_filter (\<lambda>(i, run). map_option fst (validSs58Prefix lib run)) (candidates 0 body)"

lemma found_parse: "map pss58 (parseMentionBody lib body) = found lib body"
proof -
  have "map pss58 (List.map_filter (\<lambda>(i, run). case validSs58Prefix lib run of None \<Rightarrow> None
      | Some (a, n) \<Rightarrow> Some \<lparr>pindex = i, plength = 1 + n, pss58 = a, praw = take (1 + n) (drop i body)\<rparr>) xs) =
    List.map_filter (\<lambda>(i, run). map_option fst (validSs58Prefix lib run)) xs" for xs
    by (induction xs) (auto simp: List.map_filter_def split: option.splits)
  then show ?thesis by (simp add: parseMentionBody_def found_def)
qed

definition runs :: "ustring \<Rightarrow> ustring list" where
  "runs body = map snd (candidates 0 body)"

lemma candidates_shift: "map snd (candidates i body) = map snd (candidates j body)"
proof (induction "length body" arbitrary: i j body rule: less_induct)
  case less
  show ?case
  proof (cases body)
    case (Cons c cs)
    have "length (dropWhile base58 cs) < length body" using length_dropWhile_le [of base58 cs] by (simp add: Cons)
    with less show ?thesis by (simp add: Cons)
  qed simp
qed

lemma runs_simps:
  "runs [] = []"
  "runs (c # cs) = (if c = 64 \<and> SS58_MIN_LEN \<le> length (takeWhile base58 cs)
     then takeWhile base58 cs # runs (dropWhile base58 cs) else runs cs)"
  using candidates_shift by (auto simp: runs_def)

lemma base58_not_at: "base58 c \<Longrightarrow> c \<noteq> 64"
  by (auto simp: base58_def)

lemma runs_skip: "runs (dropWhile base58 body) = runs body"
proof (induction body)
  case (Cons c cs)
  show ?case
  proof (cases "base58 c")
    case True
    then show ?thesis using Cons base58_not_at [OF True] by (simp add: runs_simps(2) [of c cs])
  qed simp
qed simp

lemma found_runs: "found lib body = List.map_filter (\<lambda>run. map_option fst (validSs58Prefix lib run)) (runs body)"
proof -
  have "List.map_filter (\<lambda>(i, run). f run) xs = List.map_filter f (map snd xs)" for f :: "ustring \<Rightarrow> ustring option" and xs :: "(nat \<times> ustring) list"
    by (induction xs) (auto simp: List.map_filter_def)
  then show ?thesis by (simp add: found_def runs_def)
qed

lemma found_simps:
  "found lib [] = []"
  "found lib (c # cs) = (if c = 64 \<and> SS58_MIN_LEN \<le> length (takeWhile base58 cs) then
     (case validSs58Prefix lib (takeWhile base58 cs) of None \<Rightarrow> found lib cs | Some (a, n) \<Rightarrow> a # found lib (dropWhile base58 cs))
     else found lib cs)"
  by (auto simp: found_runs runs_simps runs_skip List.map_filter_def split: option.splits)

lemma short_run: "length run < SS58_MIN_LEN \<Longrightarrow> validSs58Prefix lib run = None"
  by (simp add: validSs58Prefix_def prefix_from.simps [of lib run] min_less_iff_disj)

lemma valid_chain_address: "chain_address lib a \<Longrightarrow> validSs58Prefix lib a = Some (a, length a)"
  by (simp add: validSs58Prefix_def prefix_from.simps [of lib a] chain_address_def)

lemma takeWhile_expand: "takeWhile base58 (expand name_char tab cs) = takeWhile base58 cs"
proof (induction cs)
  case (Cons c cs)
  show ?case
  proof (cases "base58 c")
    case True
    then show ?thesis using Cons base58_not_at [OF True] by simp
  next
    case False
    then show ?thesis by (auto simp: base58_def split: option.splits)
  qed
qed simp

lemma no_address_drop: "no_address lib cs \<Longrightarrow> no_address lib (drop n cs)"
  by (induction cs arbitrary: n) (auto simp: drop_Cons split: nat.splits)

lemma token_at_facts:
  "token_at name_char tab cs = Some (d, a) \<Longrightarrow>
   (d, a) \<in> set tab \<and> \<not> isNameCont name_char (head (drop (length d) cs))"
  unfolding token_at_def find_Some_iff by (auto simp: in_set_conv_nth)

lemma found_expanded:
  assumes a: "chain_address lib a" and h: "\<not> isNameCont name_char (head rest)" and names: "\<forall>c. base58 c \<longrightarrow> name_char c"
  shows "found lib (64 # a @ expand name_char tab rest) = a # found lib (expand name_char tab rest)"
proof -
  have "takeWhile base58 rest = []"
  proof (cases rest)
    case (Cons c cs)
    have "base58 c \<Longrightarrow> c < 0x10000" by (auto simp: base58_def)
    then have "\<not> base58 c" using h names by (auto simp: Cons head_def isNameCont_def)
    then show ?thesis by (simp add: Cons)
  qed simp
  then have e: "takeWhile base58 (expand name_char tab rest) = []" by (simp add: takeWhile_expand)
  then have d: "dropWhile base58 (expand name_char tab rest) = expand name_char tab rest"
    by (metis append.left_neutral takeWhile_dropWhile_id)
  have all: "\<forall>c \<in> set a. base58 c" and len: "SS58_MIN_LEN \<le> length a" using a by (auto simp: chain_address_def list_all_iff)
  have "takeWhile base58 (a @ expand name_char tab rest) = a"
    using all e by (simp add: takeWhile_append2)
  moreover have "dropWhile base58 (a @ expand name_char tab rest) = expand name_char tab rest"
    using all d by (simp add: dropWhile_append2)
  ultimately show ?thesis using len valid_chain_address [OF a] by (simp add: found_simps(2))
qed

lemma expand_found:
  assumes tab: "\<forall>(d, a) \<in> set tab. chain_address lib a" and names: "\<forall>c. base58 c \<longrightarrow> name_char c"
  shows "no_address lib cs \<Longrightarrow> found lib (expand name_char tab cs) = resolved name_char tab cs"
proof (induction "length cs" arbitrary: cs rule: less_induct)
  case less
  show ?case
  proof (cases cs)
    case Nil
    then show ?thesis by (simp add: found_simps)
  next
    case (Cons c rest)
    have IH: "found lib (expand name_char tab (drop n rest)) = resolved name_char tab (drop n rest)" for n
      using less(1) [of "drop n rest"] less(2) no_address_drop [of lib rest n] by (simp add: Cons)
    show ?thesis
    proof (cases "c = 64")
      case at: True
      show ?thesis
      proof (cases "token_at name_char tab rest")
        case None
        have "validSs58Prefix lib (takeWhile base58 (expand name_char tab rest)) = None"
          using less(2) at by (simp add: Cons takeWhile_expand)
        then have "found lib (64 # expand name_char tab rest) = found lib (expand name_char tab rest)"
          by (simp add: found_simps(2))
        then show ?thesis using IH [of 0] by (simp add: Cons at None)
      next
        case (Some da)
        obtain d a where da: "da = (d, a)" by (cases da)
        note tk = token_at_facts [OF Some [unfolded da]]
        have "chain_address lib a" using tk tab by auto
        from found_expanded [OF this _ names, of "drop (length d) rest" tab] tk IH [of "length d"]
        show ?thesis by (simp add: Cons at Some da)
      qed
    next
      case False
      then show ?thesis using IH [of 0] by (simp add: Cons found_simps(2))
    qed
  qed
qed

lemma displays_refs: "(d, a) \<in> set (displays mentions) \<Longrightarrow> \<exists>m \<in> set mentions. mss58 m = a \<and> display m = d"
proof -
  define add where "add = (\<lambda>(m :: MentionRef) tab. if display m \<noteq> [] \<and> map_of tab (display m) = None
    then omap_set (display m) (mss58 m) tab else tab)"
  have sub: "set (omap_set k v m) \<subseteq> insert (k, v) (set m)" for k v and m :: "(ustring, ustring) omap"
    by (induction m) (auto split: if_splits)
  have "set (fold add ms tab) \<subseteq> set tab \<union> {(display m, mss58 m) | m. m \<in> set ms}" for ms tab
  proof (induction ms arbitrary: tab)
    case (Cons m ms)
    have "set (add m tab) \<subseteq> insert (display m, mss58 m) (set tab)" using sub by (auto simp: add_def)
    with Cons [of "add m tab"] show ?case by auto
  qed simp
  from this [of mentions "[]"] show "(d, a) \<in> set (displays mentions) \<Longrightarrow> ?thesis"
    by (auto simp: displays_def byDisplay_def add_def)
qed

text \<open>
  C27: mentions survive the trip through a post's body.  When every picked account has a canonical address and the
  author typed none by hand, reading the submitted body finds exactly the accounts whose tokens the composer
  expanded, in the order of the text.
\<close>

theorem mentions_roundtrip:
  assumes "\<forall>m \<in> set mentions. chain_address lib (mss58 m)" and "\<forall>c. base58 c \<longrightarrow> name_char c" and "no_address lib text"
  shows "map pss58 (parseMentionBody lib (serializeMentions name_char text mentions)) =
    resolved name_char (displays mentions) text"
proof -
  have tab: "\<forall>(d, a) \<in> set (displays mentions). chain_address lib a" using assms(1) displays_refs by fastforce
  have e: "expand name_char tb text = text" if "64 \<notin> set text \<or> tb = []" for tb
    using that by (induction "text") (auto simp: token_at_def)
  have "serializeMentions name_char text mentions = expand name_char (displays mentions) text"
    using e [of "displays mentions"] by (auto simp: serializeMentions_def displays_def byDisplay_def)
  then show ?thesis using expand_found [OF tab assms(2,3)] by (simp add: found_parse)
qed

definition latin_name :: "nat \<Rightarrow> bool" where
  "latin_name c \<longleftrightarrow> between 48 57 c \<or> between 65 90 c \<or> between 97 122 c"

theorem mentions_roundtrip_witness:
  "map pss58 (parseMentionBody demo_lib (serializeMentions latin_name (ascii ''hi @bob!'')
     [\<lparr>mss58 = demo_address, display = ascii ''bob''\<rparr>])) = [demo_address]"
proof -
  let ?refs = "[\<lparr>mss58 = demo_address, display = ascii ''bob''\<rparr>] :: MentionRef list"
  have "list_all base58 demo_address" "length demo_address = 48"
    by (simp_all add: demo_address_def demo_head_def base58_def list_all_iff)
  then have a: "\<forall>m \<in> set ?refs. chain_address demo_lib (mss58 m)"
    using demo_address_normal by (simp add: chain_address_def SS58_MIN_LEN_def SS58_MAX_LEN_def)
  have n: "\<forall>c. base58 c \<longrightarrow> latin_name c" by (auto simp: base58_def latin_name_def between_def)
  have t: "ascii ''hi @bob!'' = [104, 105, 32, 64, 98, 111, 98, 33]" "ascii ''bob'' = [98, 111, 98]"
    by (simp_all add: ascii_def)
  have "length (takeWhile base58 [98, 111, 98, 33]) < SS58_MIN_LEN" by (simp add: SS58_MIN_LEN_def base58_def)
  then have q: "no_address demo_lib (ascii ''hi @bob!'')" using short_run unfolding t by simp
  have "displays ?refs = [([98, 111, 98], demo_address)]" by (simp add: displays_def byDisplay_def t)
  then have "resolved latin_name (displays ?refs) (ascii ''hi @bob!'') = [demo_address]"
    unfolding t by (simp add: token_at_def head_def isNameCont_def latin_name_def between_def)
  then show ?thesis using mentions_roundtrip [OF a n q] by simp
qed

text \<open>A token that the author continued with a letter outside the basic plane is still expanded.\<close>

lemma astral_letter_still_expands:
  "serializeMentions (\<lambda>c. True) [64, 98, 0x1D400] [\<lparr>mss58 = a, display = [98]\<rparr>] = 64 # a @ [0x1D400]"
  by (simp add: serializeMentions_def displays_def byDisplay_def token_at_def head_def isNameCont_def)

end
