(* ===== verification/Post_Text.thy ===== *)
theory Post_Text
  imports Mentions
begin

text \<open>
  The tokenizer of post bodies, \<open>app/src/lib/postText.ts\<close>, over the URL and image helpers of \<open>media.ts\<close>: runs
  of text, links, images, hashtags and mentions, the cap on image blocks and on lines, and the label of a link.
  The scanners walk the text from the left as \<open>matchAll\<close> does, carrying the run that no token has claimed yet.
  The platform's \<open>toLowerCase\<close>, its letters and numbers and its URL parser are arguments.
\<close>

section \<open>media.ts\<close>

definition IMAGE_EXTENSIONS :: "ustring list" where
  "IMAGE_EXTENSIONS = map ascii [''png'', ''jpg'', ''jpeg'', ''gif'', ''webp'', ''avif'', ''svg'']"

definition ext_char :: "nat \<Rightarrow> bool" where
  "ext_char c \<longleftrightarrow> between 97 122 c \<or> between 48 57 c"

definition extensionOf :: "(ustring \<Rightarrow> ustring) \<Rightarrow> ustring \<Rightarrow> ustring option" where
  "extensionOf toLowerCase path =
     (let r = rev (toLowerCase path); e = takeWhile ext_char r
      in if e \<noteq> [] \<and> head (dropWhile ext_char r) = Some 46 then Some (rev e) else None)"

definition ascii_lower :: "nat \<Rightarrow> nat" where
  "ascii_lower c = (if between 65 90 c then c + 32 else c)"

text \<open>A prefix test with the \<open>i\<close> flag, for a pattern of lower-case ASCII letters and signs.\<close>

definition ci_prefix :: "string \<Rightarrow> ustring \<Rightarrow> bool" where
  "ci_prefix p s = prefix (ascii p) (map ascii_lower s)"

definition strip_ci :: "string \<Rightarrow> ustring \<Rightarrow> ustring" where
  "strip_ci p s = (if ci_prefix p s then drop (length p) s else s)"

definition isImageUrl :: "(ustring \<Rightarrow> ustring) \<Rightarrow> ustring \<Rightarrow> bool" where
  "isImageUrl toLowerCase url =
     (let path = takeWhile (\<lambda>c. c \<noteq> 63 \<and> c \<noteq> 35) url
      in if ci_prefix ''ipfs://'' path then
           (if strip_ci ''ipfs/'' (strip_ci ''ipfs://'' path) = [] then False
            else case extensionOf toLowerCase path of None \<Rightarrow> True | Some e \<Rightarrow> e \<in> set IMAGE_EXTENSIONS)
         else if ci_prefix ''http://'' path \<or> ci_prefix ''https://'' path then
           (case extensionOf toLowerCase path of None \<Rightarrow> False | Some e \<Rightarrow> e \<in> set IMAGE_EXTENSIONS)
         else False)"

definition IPFS_GATEWAY :: ustring where "IPFS_GATEWAY = ascii ''https://ipfs.io/ipfs/''"

definition line_end :: "nat \<Rightarrow> bool" where
  "line_end c \<longleftrightarrow> c = 10 \<or> c = 13 \<or> c = 0x2028 \<or> c = 0x2029"

text \<open>\<open>new URL(path, base).toString()\<close> is the argument \<open>resolve\<close>; \<^const>\<open>None\<close> is its exception.\<close>

definition resolveImageSrc :: "(ustring \<Rightarrow> ustring \<Rightarrow> ustring option) \<Rightarrow> ustring \<Rightarrow> ustring" where
  "resolveImageSrc resolve url =
     (let rest = drop 7 url
      in if \<not> (ci_prefix ''ipfs://'' url \<and> rest \<noteq> [] \<and> \<not> list_ex line_end rest) then url
         else let path = utrim (dropWhile (\<lambda>c. c = 46 \<or> c = 47) (strip_ci ''ipfs/'' rest))
              in if path = [] then url
                 else case resolve path IPFS_GATEWAY of
                        None \<Rightarrow> url
                      | Some out \<Rightarrow> if prefix IPFS_GATEWAY out then out else url)"

text \<open>Whatever the URL parser makes of the path, a rewritten source stays under the gateway.\<close>

lemma resolved_under_gateway:
  "resolveImageSrc resolve url = url \<or> prefix IPFS_GATEWAY (resolveImageSrc resolve url)"
  by (auto simp: resolveImageSrc_def Let_def split: option.splits)

definition trailing_punct :: "nat \<Rightarrow> bool" where
  "trailing_punct c \<longleftrightarrow> c \<in> set [46, 44, 33, 63, 58, 59, 41, 93, 125, 39, 34, 0xBB, 0x201D, 0x2019]"

definition trail_of :: "ustring \<Rightarrow> ustring" where
  "trail_of url = rev (takeWhile trailing_punct (rev url))"

definition without_trail :: "ustring \<Rightarrow> ustring" where
  "without_trail url = take (length url - length (trail_of url)) url"

text \<open>The length of the match of \<open>URL_RE\<close> at the head of the text, if there is one.\<close>

definition after_scheme :: "string \<Rightarrow> ustring \<Rightarrow> nat option" where
  "after_scheme p s =
     (if ci_prefix p s then
        let n = length (takeWhile (\<lambda>c. \<not> white c) (drop (length p) s))
        in if 0 < n then Some (length p + n) else None
      else None)"

definition url_len :: "ustring \<Rightarrow> nat option" where
  "url_len s = (case after_scheme ''https://'' s of Some n \<Rightarrow> Some n
     | None \<Rightarrow> (case after_scheme ''http://'' s of Some n \<Rightarrow> Some n | None \<Rightarrow> after_scheme ''ipfs://'' s))"

lemma after_scheme_pos: "after_scheme p s = Some n \<Longrightarrow> p \<noteq> [] \<Longrightarrow> 0 < n"
  by (auto simp: after_scheme_def Let_def split: if_splits)

lemma url_len_pos: "url_len s = Some n \<Longrightarrow> 0 < n"
  by (auto simp: url_len_def after_scheme_pos split: option.splits)

function countImageUrls :: "(ustring \<Rightarrow> ustring) \<Rightarrow> ustring \<Rightarrow> nat" where
  "countImageUrls low [] = 0"
| "countImageUrls low (c # cs) =
     (case url_len (c # cs) of
        Some n \<Rightarrow> (if isImageUrl low (without_trail (take n (c # cs))) then 1 else 0) + countImageUrls low (drop n (c # cs))
      | None \<Rightarrow> countImageUrls low cs)"
  by pat_completeness auto

termination
  by (relation "measure (\<lambda>(_, s). length s)") (auto dest: url_len_pos)

definition MAX_LABEL_SEG :: nat where "MAX_LABEL_SEG = 24"

definition clampSeg :: "ustring option \<Rightarrow> ustring option" where
  "clampSeg seg = map_option (\<lambda>s. if MAX_LABEL_SEG < unit_length s then slice_units MAX_LABEL_SEG s @ [ELLIPSIS] else s) seg"

record url_parts =
  host :: ustring
  pathname :: ustring
  search :: ustring
  hash :: ustring

fun path_segs :: "ustring \<Rightarrow> ustring \<Rightarrow> ustring list" where
  "path_segs cur [] = (if cur = [] then [] else [cur])"
| "path_segs cur (c # cs) = (if c = 47 then (if cur = [] then [] else [cur]) @ path_segs [] cs else path_segs (cur @ [c]) cs)"

definition urlLabel :: "(ustring \<Rightarrow> url_parts option) \<Rightarrow> ustring \<Rightarrow> ustring" where
  "urlLabel parse raw =
     (if ci_prefix ''ipfs://'' raw then
        let cid = drop 7 raw
        in if 18 < unit_length cid then ascii ''ipfs://'' @ slice_units 16 cid @ [ELLIPSIS] else raw
      else case parse raw of
             None \<Rightarrow> raw
           | Some u \<Rightarrow>
               let h = (if prefix (ascii ''www.'') (host u) then drop 4 (host u) else host u);
                   segs = path_segs [] (if pathname u = [47] then [] else pathname u);
                   seg1 = clampSeg (head segs);
                   tail = (search u \<noteq> [] \<or> hash u \<noteq> [])
               in case seg1 of
                    None \<Rightarrow> if tail then h @ [47, ELLIPSIS] else h
                  | Some s \<Rightarrow> if 1 < length segs \<or> tail then h @ [47] @ s @ [47, ELLIPSIS] else h @ [47] @ s)"

section \<open>postText.ts\<close>

datatype Seg = Text ustring | Url ustring | Image ustring | Hashtag ustring | Mention ustring

definition name_run :: "(nat \<Rightarrow> bool) \<Rightarrow> nat \<Rightarrow> bool" where
  "name_run name_char c \<longleftrightarrow> name_char c \<or> c = 95"

definition flush :: "ustring \<Rightarrow> Seg list" where
  "flush pend = (if pend = [] then [] else [Text pend])"

function text_segs :: "(nat \<Rightarrow> bool) \<Rightarrow> ss58_lib \<Rightarrow> ustring \<Rightarrow> ustring \<Rightarrow> Seg list" where
  "text_segs nc lib pend [] = flush pend"
| "text_segs nc lib pend (c # cs) =
     (if c = 35 \<and> takeWhile (name_run nc) cs \<noteq> [] then
        flush pend @ Hashtag (35 # takeWhile (name_run nc) cs) # text_segs nc lib [] (dropWhile (name_run nc) cs)
      else if c = 64 \<and> SS58_MIN_LEN \<le> length (takeWhile base58 cs) then
        (case validSs58Prefix lib (takeWhile base58 cs) of
           Some (a, n) \<Rightarrow> flush pend @ Mention a # text_segs nc lib (drop n (takeWhile base58 cs)) (dropWhile base58 cs)
         | None \<Rightarrow> text_segs nc lib (pend @ c # takeWhile base58 cs) (dropWhile base58 cs))
      else text_segs nc lib (pend @ [c]) cs)"
  by pat_completeness auto

termination
  by (relation "measure (\<lambda>(_, _, _, s). length s)") (auto simp: le_imp_less_Suc length_dropWhile_le)

definition pushText :: "(nat \<Rightarrow> bool) \<Rightarrow> ss58_lib \<Rightarrow> ustring \<Rightarrow> Seg list" where
  "pushText nc lib s = text_segs nc lib [] s"

function segment_from :: "(nat \<Rightarrow> bool) \<Rightarrow> ss58_lib \<Rightarrow> (ustring \<Rightarrow> ustring) \<Rightarrow> ustring \<Rightarrow> ustring \<Rightarrow> Seg list" where
  "segment_from nc lib low pend [] = pushText nc lib pend"
| "segment_from nc lib low pend (c # cs) =
     (case url_len (c # cs) of
        Some n \<Rightarrow>
          (let m = take n (c # cs); url = without_trail m; trail = trail_of m
           in pushText nc lib pend @ (if isImageUrl low url then Image url else Url url) # flush trail @
              segment_from nc lib low [] (drop n (c # cs)))
      | None \<Rightarrow> segment_from nc lib low (pend @ [c]) cs)"
  by pat_completeness auto

termination
  by (relation "measure (\<lambda>(_, _, _, _, s). length s)") (auto dest: url_len_pos)

definition segment :: "(nat \<Rightarrow> bool) \<Rightarrow> ss58_lib \<Rightarrow> (ustring \<Rightarrow> ustring) \<Rightarrow> ustring \<Rightarrow> Seg list" where
  "segment nc lib low s = segment_from nc lib low [] s"

definition MAX_IMAGE_BLOCKS :: nat where "MAX_IMAGE_BLOCKS = 1"
definition IMAGE_REVEAL_STEP :: nat where "IMAGE_REVEAL_STEP = 3"
definition MAX_BODY_LINES :: nat where "MAX_BODY_LINES = 16"

definition expanderLabel :: "nat \<Rightarrow> string" where
  "expanderLabel hidden =
     (if hidden = 0 then ''Show more''
      else if hidden = 1 then ''Show 1 more image''
      else if hidden \<le> IMAGE_REVEAL_STEP then ''Show '' @ show_nat hidden @ '' more images''
      else ''Show '' @ show_nat IMAGE_REVEAL_STEP @ '' more images ('' @ show_nat hidden @ '' hidden)'')"

fun line_scan :: "nat \<Rightarrow> nat \<Rightarrow> ustring \<Rightarrow> bool" where
  "line_scan cap ls [] = False"
| "line_scan cap ls (c # cs) =
     (if c = 10 then (if cap < Suc ls then True else line_scan cap (Suc ls) cs) else line_scan cap ls cs)"

definition exceedsLineCap :: "nat \<Rightarrow> ustring \<Rightarrow> bool" where
  "exceedsLineCap cap s = line_scan cap 1 s"

text \<open>The state of the loop of \<open>capImageSegments\<close>; a cap of \<open>Infinity\<close> is \<^const>\<open>None\<close>.\<close>

record cap_state =
  cout :: "Seg list"
  cseen :: nat
  chidden :: nat
  changed :: bool
  trimAfter :: bool

definition push_run :: "ustring \<Rightarrow> Seg list \<Rightarrow> Seg list" where
  "push_run v out =
     (if v = [] then out
      else case rev out of
             Text u # r \<Rightarrow> rev r @ [Text (u @ v)]
           | _ \<Rightarrow> out @ [Text v])"

definition trimBefore :: "cap_state \<Rightarrow> cap_state" where
  "trimBefore st = (case rev (cout st) of
     Text u # r \<Rightarrow> (case rev u of
         c # v \<Rightarrow> if c = 10 then st\<lparr>changed := True, cout := rev r @ flush (rev v)\<rparr> else st
       | [] \<Rightarrow> st)
   | _ \<Rightarrow> st)"

definition allowed :: "nat option \<Rightarrow> nat \<Rightarrow> bool" where
  "allowed cap n = (case cap of None \<Rightarrow> True | Some k \<Rightarrow> n \<le> k)"

fun cap_step :: "nat option \<Rightarrow> Seg \<Rightarrow> cap_state \<Rightarrow> cap_state" where
  "cap_step cap (Text v) st =
     (let cut = (trimAfter st \<and> head v = Some 10)
      in st\<lparr>cout := push_run (if cut then drop 1 v else v) (cout st), changed := changed st \<or> cut, trimAfter := False\<rparr>)"
| "cap_step cap (Image u) st =
     (let st = st\<lparr>cseen := Suc (cseen st)\<rparr>
      in if allowed cap (cseen st) then (let t = trimBefore st in t\<lparr>cout := cout t @ [Image u], trimAfter := True\<rparr>)
         else (trimBefore (st\<lparr>chidden := Suc (chidden st)\<rparr>))\<lparr>trimAfter := False\<rparr>)"
| "cap_step cap s st = st\<lparr>cout := cout st @ [s], trimAfter := False\<rparr>"

definition capImageSegments :: "Seg list \<Rightarrow> nat option \<Rightarrow> Seg list \<times> nat" where
  "capImageSegments segs cap =
     (let st = fold (cap_step cap) segs \<lparr>cout = [], cseen = 0, chidden = 0, changed = False, trimAfter = False\<rparr>
      in if chidden st = 0 \<and> \<not> changed st then (segs, 0) else (cout st, chidden st))"

section \<open>What the cap keeps\<close>

fun is_text :: "Seg \<Rightarrow> bool" where
  "is_text (Text _) = True"
| "is_text _ = False"

fun is_image :: "Seg \<Rightarrow> bool" where
  "is_image (Image _) = True"
| "is_image _ = False"

definition images :: "Seg list \<Rightarrow> Seg list" where
  "images segs = filter is_image segs"

definition tokens :: "Seg list \<Rightarrow> Seg list" where
  "tokens segs = filter (\<lambda>s. \<not> is_text s \<and> \<not> is_image s) segs"

lemma images_simps [simp]:
  "images [] = []" "images (s # ss) = (if is_image s then s # images ss else images ss)"
  "images (ss @ ts) = images ss @ images ts" "images (rev ss) = rev (images ss)"
  by (simp_all add: images_def rev_filter)

lemma tokens_simps [simp]:
  "tokens [] = []" "tokens (s # ss) = (if is_text s \<or> is_image s then tokens ss else s # tokens ss)"
  "tokens (ss @ ts) = tokens ss @ tokens ts" "tokens (rev ss) = rev (tokens ss)"
  by (simp_all add: tokens_def rev_filter)

lemma flush_kept [simp]: "images (flush v) = []" "tokens (flush v) = []"
  by (simp_all add: flush_def)

lemma last_text: "rev out = Text u # r \<Longrightarrow> images out = images (rev r) \<and> tokens out = tokens (rev r)"
  by (metis append_Nil2 images_simps(1-3) is_image.simps(2) is_text.simps(1) rev.simps(2) rev_rev_ident tokens_simps(1-3))

lemma push_run_kept [simp]: "images (push_run v out) = images out" "tokens (push_run v out) = tokens out"
  by (auto simp: push_run_def last_text split: list.splits Seg.splits)

lemma trimBefore_kept [simp]:
  "images (cout (trimBefore st)) = images (cout st)" "tokens (cout (trimBefore st)) = tokens (cout st)"
  "cseen (trimBefore st) = cseen st" "chidden (trimBefore st) = chidden st"
  by (auto simp: trimBefore_def last_text split: list.splits Seg.splits)

text \<open>The loop keeps the images it has seen up to the cap, counts the rest, and keeps every other token.\<close>

definition cap_inv :: "nat option \<Rightarrow> Seg list \<Rightarrow> cap_state \<Rightarrow> bool" where
  "cap_inv cap done st \<longleftrightarrow>
     cseen st = length (images done) \<and> tokens (cout st) = tokens done \<and>
     (case cap of None \<Rightarrow> chidden st = 0 \<and> images (cout st) = images done
      | Some k \<Rightarrow> chidden st = cseen st - k \<and> images (cout st) = take k (images done))"

lemma cap_step_inv: "cap_inv cap done st \<Longrightarrow> cap_inv cap (done @ [s]) (cap_step cap s st)"
  by (cases s) (auto simp: cap_inv_def Let_def allowed_def split: option.splits)

lemma cap_fold_inv: "cap_inv cap done st \<Longrightarrow> cap_inv cap (done @ segs) (fold (cap_step cap) segs st)"
proof (induction segs arbitrary: "done" st)
  case (Cons s segs)
  from Cons.IH [OF cap_step_inv [OF Cons.prems]] show ?case by simp
qed simp

lemma capped:
  fixes k :: nat and segs :: "Seg list"
  defines "r \<equiv> capImageSegments segs (Some k)"
  shows "images (fst r) = take k (images segs)" "snd r = length (images segs) - k" "tokens (fst r) = tokens segs"
proof -
  define st where "st = fold (cap_step (Some k)) segs \<lparr>cout = [], cseen = 0, chidden = 0, changed = False, trimAfter = False\<rparr>"
  have "cap_inv (Some k) segs st"
    unfolding st_def using cap_fold_inv [of "Some k" "[]" _ segs] by (simp add: cap_inv_def)
  then have i: "images (cout st) = take k (images segs)" and h: "chidden st = length (images segs) - k"
    and t: "tokens (cout st) = tokens segs" by (simp_all add: cap_inv_def)
  have "r = (if chidden st = 0 \<and> \<not> changed st then (segs, 0) else (cout st, chidden st))"
    by (simp add: r_def capImageSegments_def st_def Let_def)
  then show "images (fst r) = take k (images segs)" "snd r = length (images segs) - k" "tokens (fst r) = tokens segs"
    using i h t by (auto split: if_splits)
qed

lemma no_image_text: "images (text_segs nc lib pend s) = []"
  by (induction nc lib pend s rule: text_segs.induct) (auto split: option.splits)

lemma count_images: "length (images (segment_from nc lib low pend s)) = countImageUrls low s"
proof (induction nc lib low pend s rule: segment_from.induct)
  case (2 nc lib low pend c cs)
  then show ?case by (cases "url_len (c # cs)") (simp_all add: Let_def pushText_def no_image_text)
qed (simp add: pushText_def no_image_text)

text \<open>
  C28: the image flood cap and the composer's chip agree with the renderer.  Of the image links that the composer
  counts in a body, the first ones up to the cap are rendered as blocks, the expander reports exactly the rest as
  hidden, and every link, hashtag and mention stays, in order.
\<close>

theorem image_flood_capped:
  "let segs = segment nc lib low body; (kept, hidden) = capImageSegments segs (Some k)
   in length (images kept) = min k (countImageUrls low body) \<and> images kept = take k (images segs) \<and>
      hidden = countImageUrls low body - k \<and> tokens kept = tokens segs"
proof -
  have "length (images (segment nc lib low body)) = countImageUrls low body" by (simp add: segment_def count_images)
  then show ?thesis using capped [of "segment nc lib low body" k] by (simp add: Let_def case_prod_beta min.commute)
qed

section \<open>The tokens of a body\<close>

lemma sublist_middle: "sublist h s \<Longrightarrow> sublist h (p @ s)"
  by (metis sublist_append_rightI sublist_order.order_trans sublist_append_leftI)

lemma hashtag_in_text: "Hashtag h \<in> set (text_segs nc lib pend s) \<Longrightarrow> sublist h s"
proof (induction nc lib pend s rule: text_segs.induct)
  case (2 nc lib pend c cs)
  note IH = 2(1-4)
  have skip: "sublist h (dropWhile P cs) \<Longrightarrow> sublist h (c # cs)" for P
    by (metis append_Cons append_Nil sublist_append_leftI sublist_dropWhile sublist_order.order_trans)
  have one: "sublist h cs \<Longrightarrow> sublist h (c # cs)" by (simp add: sublist_Cons_right)
  have here: "sublist (c # takeWhile P cs) (c # cs)" for P
    by (simp add: prefix_imp_sublist takeWhile_is_prefix)
  from 2(5) consider
      "c = 35" "takeWhile (name_run nc) cs \<noteq> []" "h = 35 # takeWhile (name_run nc) cs"
    | "c = 35" "takeWhile (name_run nc) cs \<noteq> []" "Hashtag h \<in> set (text_segs nc lib [] (dropWhile (name_run nc) cs))"
    | a n where "\<not> (c = 35 \<and> takeWhile (name_run nc) cs \<noteq> [])" "c = 64 \<and> SS58_MIN_LEN \<le> length (takeWhile base58 cs)"
        "validSs58Prefix lib (takeWhile base58 cs) = Some (a, n)"
        "Hashtag h \<in> set (text_segs nc lib (drop n (takeWhile base58 cs)) (dropWhile base58 cs))"
    | "\<not> (c = 35 \<and> takeWhile (name_run nc) cs \<noteq> [])" "c = 64 \<and> SS58_MIN_LEN \<le> length (takeWhile base58 cs)"
        "validSs58Prefix lib (takeWhile base58 cs) = None"
        "Hashtag h \<in> set (text_segs nc lib (pend @ c # takeWhile base58 cs) (dropWhile base58 cs))"
    | "\<not> (c = 35 \<and> takeWhile (name_run nc) cs \<noteq> [])" "\<not> (c = 64 \<and> SS58_MIN_LEN \<le> length (takeWhile base58 cs))"
        "Hashtag h \<in> set (text_segs nc lib (pend @ [c]) cs)"
    by (auto simp: flush_def split: if_splits option.splits)
  then show ?case
  proof cases
    case 1
    then show ?thesis using here by simp
  next
    case 2
    have "sublist h (dropWhile (name_run nc) cs)" by (rule IH(1) [OF _ 2(3)]) (use 2 in simp)
    then show ?thesis by (rule skip)
  next
    case (3 a n)
    have "sublist h (dropWhile base58 cs)" by (rule IH(3) [OF 3(1,2,3) refl 3(4)])
    then show ?thesis by (rule skip)
  next
    case 4
    have "sublist h (dropWhile base58 cs)" by (rule IH(2) [OF 4])
    then show ?thesis by (rule skip)
  next
    case 5
    show ?thesis by (rule one [OF IH(4) [OF 5]])
  qed
qed (simp add: flush_def split: if_splits)

lemma hashtag_in_body: "Hashtag h \<in> set (segment_from nc lib low pend s) \<Longrightarrow> sublist h (pend @ s)"
proof (induction nc lib low pend s rule: segment_from.induct)
  case (1 nc lib low pend)
  then show ?case by (simp add: pushText_def hashtag_in_text)
next
  case (2 nc lib low pend c cs)
  note IH = 2(2)
  show ?case
  proof (cases "url_len (c # cs)")
    case None
    then show ?thesis using 2 by simp
  next
    case (Some n)
    then consider "Hashtag h \<in> set (pushText nc lib pend)" | "Hashtag h \<in> set (segment_from nc lib low [] (drop n (c # cs)))"
      using 2(3) by (auto simp: Let_def flush_def split: if_splits)
    then show ?thesis
    proof cases
      case 1
      then have "sublist h pend" by (simp add: pushText_def hashtag_in_text)
      then show ?thesis by (metis sublist_append_rightI sublist_order.order_trans)
    next
      case 2
      then have "sublist h (drop n (c # cs))" using IH [OF Some] by simp
      then show ?thesis by (metis sublist_append_leftI sublist_drop sublist_order.order_trans)
    qed
  qed
qed

lemma hashtag_sign: "Hashtag h \<in> set (text_segs nc lib pend s) \<Longrightarrow> \<exists>t. h = 35 # t"
  by (induction nc lib pend s rule: text_segs.induct) (auto simp: flush_def split: if_splits option.splits)

lemma segment_hashtag_sign: "Hashtag h \<in> set (segment_from nc lib low pend s) \<Longrightarrow> \<exists>t. h = 35 # t"
proof (induction nc lib low pend s rule: segment_from.induct)
  case (2 nc lib low pend c cs)
  then show ?case by (cases "url_len (c # cs)") (auto simp: Let_def flush_def pushText_def dest: hashtag_sign split: if_splits)
qed (auto simp: pushText_def dest: hashtag_sign)

definition mentioned :: "Seg list \<Rightarrow> ustring list" where
  "mentioned segs = List.map_filter (\<lambda>s. case s of Mention a \<Rightarrow> Some a | _ \<Rightarrow> None) segs"

lemma mentioned_simps [simp]:
  "mentioned [] = []" "mentioned (Mention a # ss) = a # mentioned ss" "mentioned (Hashtag h # ss) = mentioned ss"
  "mentioned (ss @ ts) = mentioned ss @ mentioned ts" "mentioned (flush p) = []"
  by (simp_all add: mentioned_def List.map_filter_def flush_def)

lemma found_skip: "\<forall>c \<in> set p. c \<noteq> 64 \<Longrightarrow> found lib (p @ s) = found lib s"
  by (induction p) (simp_all add: found_simps)

lemma found_dropWhile: "(\<And>c. P c \<Longrightarrow> c \<noteq> 64) \<Longrightarrow> found lib (dropWhile P s) = found lib s"
  by (metis found_skip set_takeWhileD takeWhile_dropWhile_id)

text \<open>The renderer links exactly the accounts the parser of stored bodies finds, in a run that holds no URL.\<close>

lemma render_parse_agree:
  assumes "\<not> nc 64"
  shows "mentioned (text_segs nc lib pend s) = map pss58 (parseMentionBody lib s)"
  unfolding found_parse using assms
proof (induction nc lib pend s rule: text_segs.induct)
  case (2 nc lib pend c cs)
  have n: "found lib (dropWhile (name_run nc) cs) = found lib cs"
    by (rule found_dropWhile) (use 2(5) in \<open>auto simp: name_run_def\<close>)
  have b: "found lib (dropWhile base58 cs) = found lib cs"
    by (rule found_dropWhile) (rule base58_not_at)
  show ?case using 2 n b by (simp add: found_simps(2) split: option.splits)
qed (simp add: found_simps)

end
