(* ===== verification/Topics.thy ===== *)
theory Topics
  imports Post_Text Device_Sets Pallet_Reads
begin

text \<open>
  Topics, \<open>app/src/lib/topics.ts\<close>, and the followed topics of the device (\<open>topicStore.ts\<close>).  A topic is a hashtag of
  the text: its feed is the node's substring search, narrowed by the tokenizer.  The last part relates the two: the
  tokens of a sanitized body to the byte scan \<open>contains_ci\<close> of the pallet.
\<close>

definition TOPIC_MAX_LEN :: nat where "TOPIC_MAX_LEN = 64"

definition topic_re :: "(nat \<Rightarrow> bool) \<Rightarrow> ustring \<Rightarrow> bool" where
  "topic_re nc s \<longleftrightarrow> 1 \<le> length s \<and> length s \<le> TOPIC_MAX_LEN \<and> list_all (name_run nc) s"

definition asciiLower :: "ustring \<Rightarrow> ustring" where
  "asciiLower s = map ascii_lower s"

definition canonicalTag :: "(nat \<Rightarrow> bool) \<Rightarrow> ustring \<Rightarrow> ustring option" where
  "canonicalTag nc tag =
     (let bare = (if head tag = Some 35 then drop 1 tag else tag)
      in if \<not> topic_re nc bare then None else Some (asciiLower bare))"

definition isCanonicalTag :: "(nat \<Rightarrow> bool) \<Rightarrow> ustring \<Rightarrow> bool" where
  "isCanonicalTag nc v \<longleftrightarrow> topic_re nc v \<and> asciiLower v = v"

definition tagLabel :: "ustring \<Rightarrow> ustring" where
  "tagLabel topic = 35 # topic"

definition tagSearchTerm :: "ustring \<Rightarrow> ustring" where
  "tagSearchTerm topic = 35 # topic"

text \<open>What the platform provides: its marks, its segmenter, its letters and numbers, and \<open>toLowerCase\<close>.\<close>

record platform =
  pf_mark :: "nat \<Rightarrow> bool"
  pf_segmenter :: segmenter
  pf_name :: "nat \<Rightarrow> bool"
  pf_lower :: "ustring \<Rightarrow> ustring"

fun topic_loop :: "(nat \<Rightarrow> bool) \<Rightarrow> Seg list \<Rightarrow> ustring list \<Rightarrow> ustring list" where
  "topic_loop nc [] out = out"
| "topic_loop nc (Hashtag v # segs) out =
     (case canonicalTag nc v of
        None \<Rightarrow> topic_loop nc segs out
      | Some t \<Rightarrow> topic_loop nc segs (if t \<in> set out then out else out @ [t]))"
| "topic_loop nc (_ # segs) out = topic_loop nc segs out"

definition parseTopics :: "platform \<Rightarrow> ss58_lib \<Rightarrow> ustring \<Rightarrow> ustring list" where
  "parseTopics pf lib body =
     topic_loop (pf_name pf) (segment (pf_name pf) lib (pf_lower pf) (sanitizeText (pf_mark pf) (pf_segmenter pf) body)) []"

definition topicOfQuery :: "(nat \<Rightarrow> bool) \<Rightarrow> ustring \<Rightarrow> ustring option" where
  "topicOfQuery nc query =
     (let trimmed = utrim query
      in if head trimmed \<noteq> Some 35 \<or> list_ex white trimmed then None else canonicalTag nc trimmed)"

definition bodyHasTopic :: "platform \<Rightarrow> ss58_lib \<Rightarrow> ustring \<Rightarrow> ustring \<Rightarrow> bool" where
  "bodyHasTopic pf lib body topic = (if 35 \<notin> set body then False else topic \<in> set (parseTopics pf lib body))"

section \<open>topicStore.ts\<close>

definition topic_opts :: "(nat \<Rightarrow> bool) \<Rightarrow> set_opts" where
  "topic_opts nc = \<lparr>oprefix = ascii ''cg-topics'', isValid = isCanonicalTag nc, omax = None, oclaimLegacy = False\<rparr>"

text \<open>The three actions return nothing; a tag that has no canonical form leaves the page as it was.\<close>

definition withTopic :: "(nat \<Rightarrow> bool) \<Rightarrow> (ustring \<Rightarrow> ustring list page \<Rightarrow> ustring list page \<times> bool) \<Rightarrow> ustring \<Rightarrow>
    ustring list page \<Rightarrow> ustring list page" where
  "withTopic nc fn tag p = (case canonicalTag nc tag of None \<Rightarrow> p | Some t \<Rightarrow> fst (fn t p))"

record topic_actions =
  follow_topic :: "ustring \<Rightarrow> ustring list page \<Rightarrow> ustring list page"
  unfollow_topic :: "ustring \<Rightarrow> ustring list page \<Rightarrow> ustring list page"
  toggle_topic :: "ustring \<Rightarrow> ustring list page \<Rightarrow> ustring list page"

definition topicActionsFor :: "(nat \<Rightarrow> bool) \<Rightarrow> ustring option \<Rightarrow> topic_actions" where
  "topicActionsFor nc who = (let a = actionsFor (topic_opts nc) who in
     \<lparr>follow_topic = withTopic nc (act_add a), unfollow_topic = withTopic nc (act_remove a),
      toggle_topic = withTopic nc (act_toggle a)\<rparr>)"

definition useTopicFollowed :: "(nat \<Rightarrow> bool) \<Rightarrow> ustring option \<Rightarrow> ustring list \<Rightarrow> bool" where
  "useTopicFollowed nc tag snap = (case tag of None \<Rightarrow> False
     | Some r \<Rightarrow> (case canonicalTag nc r of None \<Rightarrow> False | Some t \<Rightarrow> t \<in> set snap))"

definition useFollowedTopics :: "ustring list \<Rightarrow> ustring list" where
  "useFollowedTopics snap = js_sort unit_cmp snap"

definition readFollowedTopics :: "(nat \<Rightarrow> bool) \<Rightarrow> ustring option \<Rightarrow> ustring list page \<Rightarrow> ustring list" where
  "readFollowedTopics nc who p = js_sort unit_cmp (snd (readFor (string_set_store (topic_opts nc)) who p))"

section \<open>Canonical tags\<close>

lemma ascii_lower_idem [simp]: "ascii_lower (ascii_lower c) = ascii_lower c"
  by (simp add: ascii_lower_def between_def)

text \<open>The letters and digits of ASCII are letters and numbers of the platform.\<close>

definition ascii_names :: "(nat \<Rightarrow> bool) \<Rightarrow> bool" where
  "ascii_names nc \<longleftrightarrow> (\<forall>c. between 97 122 c \<longrightarrow> nc c)"

lemma name_run_lower: "ascii_names nc \<Longrightarrow> name_run nc c \<Longrightarrow> name_run nc (ascii_lower c)"
  by (auto simp: ascii_lower_def ascii_names_def name_run_def between_def)

text \<open>What the canonicalizer returns, the validator of the store accepts: a followed tag is never dropped on reload.\<close>

lemma canonical_is_valid: "ascii_names nc \<Longrightarrow> canonicalTag nc tag = Some t \<Longrightarrow> isCanonicalTag nc t"
  by (auto simp: canonicalTag_def isCanonicalTag_def topic_re_def asciiLower_def Let_def list_all_iff name_run_lower
      split: if_splits)

text \<open>A tag and its label name the same topic.\<close>

lemma canonical_fixed: "isCanonicalTag nc t \<Longrightarrow> \<not> nc 35 \<Longrightarrow> canonicalTag nc t = Some t \<and> canonicalTag nc (tagLabel t) = Some t"
  by (cases t) (auto simp: canonicalTag_def isCanonicalTag_def topic_re_def tagLabel_def head_def name_run_def)

section \<open>The topic feed and the node's scan\<close>

lemma lower_fromText: "map to_ascii_lowercase (fromText (asciiLower s)) = map to_ascii_lowercase (fromText s)"
proof (induction s)
  case (Cons c s)
  have "map to_ascii_lowercase (fromText [ascii_lower c]) = map to_ascii_lowercase (fromText [c])"
  proof (cases "between 65 90 c")
    case True
    then have r: "65 \<le> c" "c \<le> 90" by (simp_all add: between_def)
    then have "c + 32 < 256" by simp
    then have "unat (of_nat c :: u8) = c" "unat (of_nat (c + 32) :: u8) = c + 32"
      using r by (simp_all add: unat_of_nat take_bit_eq_mod del: of_nat_add)
    then show ?thesis using r True
      by (simp add: fromText_def utf8_char_def ascii_lower_def to_ascii_lowercase_def)
  qed (simp add: ascii_lower_def)
  with Cons show ?case using fromText_append [of "[_]"] by (simp add: asciiLower_def fromText_def)
qed (simp add: asciiLower_def fromText_def)

lemma contains_ci_window:
  assumes "map to_ascii_lowercase w = map to_ascii_lowercase needle"
  shows "contains_ci (p @ w @ q) needle"
proof -
  have len: "length w = length needle" using assms by (metis length_map)
  have "list_all2 (\<lambda>a b. to_ascii_lowercase a = to_ascii_lowercase b) w needle"
    using assms by (simp add: list_all2_conv_all_nth len list_eq_iff_nth_eq)
  then show ?thesis
    using len by (auto simp: contains_ci_def list_ex_iff intro!: bexI [of _ "length p"])
qed

lemma topic_loop_set:
  "set (topic_loop nc segs out) = set out \<union> {t. \<exists>h. Hashtag h \<in> set segs \<and> canonicalTag nc h = Some t}"
  by (induction nc segs out rule: topic_loop.induct) (auto split: option.splits)

lemma topic_in_text:
  assumes "t \<in> set (parseTopics pf lib body)"
  obtains bare where "sublist (35 # bare) (sanitizeText (pf_mark pf) (pf_segmenter pf) body)" "t = asciiLower bare"
proof -
  define s where "s = sanitizeText (pf_mark pf) (pf_segmenter pf) body"
  from assms obtain h where h: "Hashtag h \<in> set (segment_from (pf_name pf) lib (pf_lower pf) [] s)"
    and c: "canonicalTag (pf_name pf) h = Some t"
    by (auto simp: parseTopics_def topic_loop_set segment_def s_def)
  from segment_hashtag_sign [OF h] obtain bare where b: "h = 35 # bare" by blast
  have "sublist h s" using hashtag_in_body [OF h] by simp
  moreover have "t = asciiLower bare" using c by (auto simp: b canonicalTag_def head_def Let_def split: if_splits)
  ultimately show ?thesis using that b s_def by simp
qed

lemma sanitize_adds_nothing: "keeps_text sg \<Longrightarrow> set (sanitizeText mark sg s) \<subseteq> set s"
proof -
  assume k: "keeps_text sg"
  have "set (stripped s) \<subseteq> set s" by (auto simp: stripped_def)
  then show ?thesis
    using set_collapse_joiners [of 0 "clampStacks mark sg (stripped s)"] set_clampStacks [OF k, of mark "stripped s"]
    by (auto simp: sanitizeText_def)
qed

text \<open>The cheap reject of \<open>bodyHasTopic\<close> loses nothing.\<close>

lemma cheap_reject_sound:
  assumes "keeps_text (pf_segmenter pf)"
  shows "bodyHasTopic pf lib body topic \<longleftrightarrow> topic \<in> set (parseTopics pf lib body)"
proof -
  have "35 \<in> set body" if t: "topic \<in> set (parseTopics pf lib body)"
  proof -
    from topic_in_text [OF t] obtain bare where "sublist (35 # bare) (sanitizeText (pf_mark pf) (pf_segmenter pf) body)" .
    then have "35 \<in> set (sanitizeText (pf_mark pf) (pf_segmenter pf) body)" by (auto simp: sublist_def)
    then show ?thesis using sanitize_adds_nothing [OF assms] by blast
  qed
  then show ?thesis by (auto simp: bodyHasTopic_def)
qed

text \<open>
  C29: the topic feed misses no post.  When sanitizing leaves a body as it is, every topic the tokenizer reads in it
  passes the reader's filter, and the node's case-insensitive byte scan for the topic's search term finds the body's
  stored bytes.
\<close>

theorem topic_feed_complete:
  assumes "keeps_text (pf_segmenter pf)" "sanitizeText (pf_mark pf) (pf_segmenter pf) body = body"
    and "topic \<in> set (parseTopics pf lib body)"
  shows "bodyHasTopic pf lib body topic \<and> contains_ci (fromText body) (fromText (tagSearchTerm topic))"
proof
  show "bodyHasTopic pf lib body topic" using assms cheap_reject_sound by blast
  from topic_in_text [OF assms(3)] obtain bare where "sublist (35 # bare) body" and t: "topic = asciiLower bare"
    using assms(2) by metis
  then obtain p q where body: "body = p @ (35 # bare) @ q" by (auto simp: sublist_def)
  have "tagSearchTerm topic = asciiLower (35 # bare)"
    by (simp add: t tagSearchTerm_def asciiLower_def ascii_lower_def between_def)
  then have "map to_ascii_lowercase (fromText (35 # bare)) = map to_ascii_lowercase (fromText (tagSearchTerm topic))"
    using lower_fromText by simp
  from contains_ci_window [OF this] show "contains_ci (fromText body) (fromText (tagSearchTerm topic))"
    by (simp only: body fromText_append)
qed

definition demo_platform :: platform where
  "demo_platform = \<lparr>pf_mark = (\<lambda>c. between 0x300 0x36F c), pf_segmenter = None,
     pf_name = (\<lambda>c. between 48 57 c \<or> between 65 90 c \<or> between 97 122 c), pf_lower = asciiLower\<rparr>"

lemmas scan_defs = demo_platform_def ascii_def between_def ci_prefix_def after_scheme_def url_len_def ascii_lower_def
  name_run_def flush_def white_def pushText_def asciiLower_def

lemmas clean_defs = sanitizeText_def stripped_def clampStacks_def bidi_def invisible_def control_def joiner_def ZWNJ_def
  ZWJ_def MAX_MARKS_def

lemma demo_clean:
  "sanitizeText (pf_mark demo_platform) (pf_segmenter demo_platform) (ascii ''on #Ada'') = ascii ''on #Ada''"
  "sanitizeText (pf_mark demo_platform) (pf_segmenter demo_platform) (ascii ''#A'' @ 0x200B # ascii ''da'') = ascii ''#Ada''"
  by (simp_all add: clean_defs scan_defs)

lemma demo_segs:
  "segment (pf_name demo_platform) lib low (ascii ''on #Ada'') = [Text (ascii ''on ''), Hashtag (ascii ''#Ada'')]"
  "segment (pf_name demo_platform) lib low (ascii ''#Ada'') = [Hashtag (ascii ''#Ada'')]"
  by (simp_all add: segment_def scan_defs)

lemma demo_tag: "canonicalTag (pf_name demo_platform) (ascii ''#Ada'') = Some (ascii ''ada'')"
  by (simp add: canonicalTag_def topic_re_def TOPIC_MAX_LEN_def head_def scan_defs)

theorem topic_feed_complete_witness:
  "bodyHasTopic demo_platform demo_lib (ascii ''on #Ada'') (ascii ''ada'') \<and>
   contains_ci (fromText (ascii ''on #Ada'')) (fromText (tagSearchTerm (ascii ''ada'')))"
proof (rule topic_feed_complete)
  show "keeps_text (pf_segmenter demo_platform)" by (simp add: keeps_text_def demo_platform_def)
  show "sanitizeText (pf_mark demo_platform) (pf_segmenter demo_platform) (ascii ''on #Ada'') = ascii ''on #Ada''"
    by (rule demo_clean)
  show "ascii ''ada'' \<in> set (parseTopics demo_platform demo_lib (ascii ''on #Ada''))"
    by (simp add: parseTopics_def demo_clean demo_segs demo_tag)
qed

text \<open>With an invisible separator inside the tag the reader sees the topic, but the node's scan of the stored bytes
  does not find the post.\<close>

lemma hidden_separator_not_found:
  "parseTopics demo_platform lib (ascii ''#A'' @ 0x200B # ascii ''da'') = [ascii ''ada''] \<and>
   \<not> contains_ci (fromText (ascii ''#A'' @ 0x200B # ascii ''da'')) (fromText (tagSearchTerm (ascii ''ada'')))"
proof
  show "parseTopics demo_platform lib (ascii ''#A'' @ 0x200B # ascii ''da'') = [ascii ''ada'']"
    by (simp add: parseTopics_def demo_clean demo_segs demo_tag)
  have "fromText (ascii ''#A'' @ 0x200B # ascii ''da'') = [35, 65, 0xE2, 0x80, 0x8B, 100, 97]"
    "fromText (tagSearchTerm (ascii ''ada'')) = [35, 97, 100, 97]"
    by (simp_all add: fromText_def tagSearchTerm_def utf8_char_def surrogate_def ascii_def)
  then show "\<not> contains_ci (fromText (ascii ''#A'' @ 0x200B # ascii ''da'')) (fromText (tagSearchTerm (ascii ''ada'')))"
    by (simp add: contains_ci_def to_ascii_lowercase_def upt_rec)
qed

end
