(* ===== verification/Papi_Source.thy ===== *)
theory Papi_Source
  imports Denylist Thread_Reads People Topics
begin

text \<open>
  The one reader of the application, \<open>app/src/lib/feed/papi-source.ts\<close>: which node read a query is answered by, the
  page it is wrapped into, the revocation flag of its authors with the memo of \<open>feed/revocationCache.ts\<close>, threads,
  reply pages, profiles and people.  The methods that read polls and viewer states are those of the source \<open>base\<close>.

  The reads of one call at the best block see one chain state, and those at the finalized default another.  What the profile, stake and role pallets store is the record
  \<open>rows\<close>; a revocation read that rejects is \<open>Inl\<close>.
\<close>

section \<open>The revocation memo\<close>

definition REVOCATION_TTL_MS :: rat where "REVOCATION_TTL_MS = 5 * 60 * 1000"
definition SWEEP_AT :: nat where "SWEEP_AT = 512"

text \<open>An entry is the time it was made and the read, by its number, whose promise it holds.\<close>

record rev_entry =
  re_at :: rat
  re_read :: nat

record rev_cache =
  rc_entries :: "(ss58, rev_entry) omap"
  rc_reads :: nat

definition createRevocationCache :: rev_cache where
  "createRevocationCache = \<lparr>rc_entries = [], rc_reads = 0\<rparr>"

definition cache_get :: "rat \<Rightarrow> rat \<Rightarrow> ss58 \<Rightarrow> rev_cache \<Rightarrow> nat \<times> rev_cache" where
  "cache_get ttl now account c =
     (let es = rc_entries c;
          miss = (rc_reads c, \<lparr>rc_entries = omap_set account \<lparr>re_at = now, re_read = rc_reads c\<rparr>
                     (if SWEEP_AT \<le> length es then filter (\<lambda>(k, e). \<not> re_at e \<le> now - ttl) es else es),
                   rc_reads = Suc (rc_reads c)\<rparr>)
      in case map_of es account of
           Some hit \<Rightarrow> if now - re_at hit < ttl then (re_read hit, c) else miss
         | None \<Rightarrow> miss)"

definition read_failed :: "ss58 \<Rightarrow> nat \<Rightarrow> rev_cache \<Rightarrow> rev_cache" where
  "read_failed account r c = (case map_of (rc_entries c) account of
     Some e \<Rightarrow> if re_read e = r then c\<lparr>rc_entries := omap_del account (rc_entries c)\<rparr> else c
   | None \<Rightarrow> c)"

text \<open>The answer handed out is a read of that account started less than the lifetime ago, or the one started now.\<close>

lemma cache_get_fresh:
  assumes "0 < ttl"
  shows "\<exists>e. map_of (rc_entries (snd (cache_get ttl now account c))) account = Some e \<and>
    re_read e = fst (cache_get ttl now account c) \<and> now - re_at e < ttl"
  using assms by (auto simp: cache_get_def Let_def split: option.split)

text \<open>A failed read is not kept: the next asker starts a new one.\<close>

lemma failed_read_retried:
  assumes "omap_ok (rc_entries c)" and "map_of (rc_entries c) account = Some e" and "re_read e = r"
  shows "fst (cache_get ttl now account (read_failed account r c)) = rc_reads c"
proof -
  have "map_of (omap_del account (rc_entries c)) account = None" by (auto simp: omap_del_def map_of_eq_None_iff)
  with assms show ?thesis by (simp add: cache_get_def read_failed_def Let_def)
qed

text \<open>Past the sweep size a miss leaves only entries that can still be served.\<close>

lemma cache_swept:
  assumes "SWEEP_AT \<le> length (rc_entries c)" and "fst (cache_get ttl now account c) = rc_reads c" and "0 < ttl"
    and "\<forall>e \<in> snd ` set (rc_entries c). re_read e < rc_reads c"
  shows "\<forall>(k, e) \<in> set (rc_entries (snd (cache_get ttl now account c))). now - re_at e < ttl"
proof -
  have set_omap: "(k, e) \<in> set (omap_set a v m) \<Longrightarrow> (k, e) = (a, v) \<or> (k, e) \<in> set m" for k e a v and m :: "(ss58, rev_entry) omap"
    by (induction m) (auto split: if_splits)
  have "\<not> (\<exists>hit. map_of (rc_entries c) account = Some hit \<and> now - re_at hit < ttl)"
  proof
    assume "\<exists>hit. map_of (rc_entries c) account = Some hit \<and> now - re_at hit < ttl"
    then obtain hit where hit: "map_of (rc_entries c) account = Some hit" "now - re_at hit < ttl" by blast
    then have "re_read hit = rc_reads c" using assms(2) by (simp add: cache_get_def Let_def)
    with assms(4) map_of_SomeD [OF hit(1)] show False by force
  qed
  then have "snd (cache_get ttl now account c) = \<lparr>rc_entries = omap_set account \<lparr>re_at = now, re_read = rc_reads c\<rparr>
      (filter (\<lambda>(k, e). \<not> re_at e \<le> now - ttl) (rc_entries c)), rc_reads = Suc (rc_reads c)\<rparr>"
    using assms(1) by (auto simp: cache_get_def Let_def split: option.split)
  then show ?thesis using assms(3) by (auto dest!: set_omap)
qed

section \<open>Pages\<close>

definition first_rejection :: "('e + 'a) list \<Rightarrow> 'e option" where
  "first_rejection rs = (case dropWhile (\<lambda>r. case r of Inl _ \<Rightarrow> False | Inr _ \<Rightarrow> True) rs of Inl e # _ \<Rightarrow> Some e | _ \<Rightarrow> None)"

definition flag_revoked :: "(ss58 \<Rightarrow> 'e + bool) \<Rightarrow> cogno_post \<Rightarrow> cogno_post" where
  "flag_revoked revoked p = p\<lparr>p_authorRevoked := Some (case revoked (p_author p) of Inr b \<Rightarrow> b | Inl _ \<Rightarrow> False)\<rparr>"

definition flagRevocations :: "(ss58 \<Rightarrow> 'e + bool) \<Rightarrow> cogno_post list \<Rightarrow> 'e + cogno_post list" where
  "flagRevocations revoked posts =
     (case first_rejection (map revoked (remdups (map p_author posts))) of
        Some e \<Rightarrow> Inl e
      | None \<Rightarrow> Inr (map (flag_revoked revoked) posts))"

definition toFeedPage :: "(ss58 \<Rightarrow> 'e + bool) \<Rightarrow> id_page \<Rightarrow> 'e + feed_page" where
  "toFeedPage revoked pg = map_sum id (\<lambda>posts.
     \<lparr>fp_posts = posts, fp_endCursor = map_option show_nat (ip_nextCursor pg), fp_hasNextPage = (ip_nextCursor pg \<noteq> None),
      fp_totalCount = None, fp_asOf = None\<rparr>) (flagRevocations revoked (ip_posts pg))"

definition emptyPage :: feed_page where
  "emptyPage = \<lparr>fp_posts = [], fp_endCursor = None, fp_hasNextPage = False, fp_totalCount = Some 0, fp_asOf = None\<rparr>"

definition FEED_PAGE_SIZE :: nat where "FEED_PAGE_SIZE = 50"
definition DEFAULT_FIRST :: nat where "DEFAULT_FIRST = FEED_PAGE_SIZE"

text \<open>\<open>if (s)\<close> of an optional string.\<close>

definition truthy :: "string option \<Rightarrow> bool" where
  "truthy s = (case s of Some x \<Rightarrow> x \<noteq> [] | None \<Rightarrow> False)"

text \<open>\<open>BigInt(q.after)\<close>: a cursor is a decimal the source made itself; any other text is taken for a syntax error.\<close>

definition decode_cursor :: "string option \<Rightarrow> string + nat option" where
  "decode_cursor a = (case a of None \<Rightarrow> Inr None
     | Some s \<Rightarrow> if is_digits s then Inr (Some (parse_nat s)) else Inl (''Cannot convert '' @ s @ '' to a BigInt''))"

text \<open>What the reader is made of: the codec of the client, the platform and address library of the tokenizer, the member
  reads that fail, and the answers of the revocation memo.\<close>

record reader =
  rd_papi :: papi
  rd_platform :: platform
  rd_lib :: ss58_lib
  rd_rejects :: "ss58 \<Rightarrow> rejection option"
  rd_revoked :: "ss58 \<Rightarrow> string + bool"

definition papi_page :: "reader \<Rightarrow> chain \<Rightarrow> feed_query \<Rightarrow> string + feed_page" where
  "papi_page rd st q =
     (let pa = rd_papi rd; wrap = toFeedPage (rd_revoked rd); first = coalesce (fq_first q) DEFAULT_FIRST; viewer = fq_viewer q;
          author = the (fq_authorId q)
      in case decode_cursor (fq_after q) of
           Inl e \<Rightarrow> Inl e
         | Inr beforeId \<Rightarrow>
             if truthy (fq_search q) \<and> js_trim (the (fq_search q)) \<noteq> []
             then wrap (nodeSearchPosts pa (js_trim (the (fq_search q))) viewer (fq_maxHops q)
                    (map_option (\<lambda>topic p. bodyHasTopic (rd_platform rd) (rd_lib rd) (ascii (p_text p)) (ascii topic)) (fq_topic q))
                    st beforeId first)
             else if (case fq_members q of Some (m # ms) \<Rightarrow> True | _ \<Rightarrow> False)
             then (case nodeMembersFeedPage pa (rd_rejects rd) (the (fq_members q)) viewer st beforeId first of
                     Inl e \<Rightarrow> Inl e | Inr pg \<Rightarrow> wrap pg)
             else if fq_role q \<noteq> None
             then wrap (nodeRoleFeedPage pa (the (fq_role q)) viewer (fq_maxHops q) st beforeId first)
             else if fq_tab q = Some RepliesTab \<and> truthy (fq_authorId q)
             then wrap (nodeAuthorRepliesPage pa author viewer st beforeId first)
             else if fq_tab q = Some LikesTab \<and> truthy (fq_authorId q)
             then wrap (nodeLikesPage pa author viewer st beforeId first)
             else if fq_tab q = Some FollowingTab \<or> truthy (fq_followeeOf q)
             then (case (case fq_followeeOf q of Some t \<Rightarrow> Some t | None \<Rightarrow> fq_authorId q) of
                     None \<Rightarrow> Inr emptyPage
                   | Some target \<Rightarrow> if target = [] then Inr emptyPage
                       else wrap (nodeFollowingFeedPage pa target st beforeId first))
             else if truthy (fq_authorId q)
             then wrap (nodeAuthorFeedPage pa author viewer st beforeId first)
             else wrap (nodeGlobalFeedPage pa viewer st beforeId first))"

section \<open>Threads and profiles\<close>

text \<open>\<open>state_call_fails\<close>: the enriched read failed and the keyed reads answer, which read the finalized state \<open>fin\<close> by default.\<close>

definition papi_thread :: "reader \<Rightarrow> bool \<Rightarrow> chain \<Rightarrow> chain \<Rightarrow> nat \<Rightarrow> ss58 option \<Rightarrow> string + thread_view" where
  "papi_thread rd state_call_fails fin st rootId viewer =
     (let node = nodeThread (rd_papi rd) rootId viewer st;
          raw = (case (state_call_fails, node) of (False, Inr t) \<Rightarrow> Inr t | _ \<Rightarrow> getThread (rd_papi rd) rootId fin st)
      in case raw of
           Inl e \<Rightarrow> Inl e
         | Inr t \<Rightarrow> map_sum id (\<lambda>flagged.
             let root = flagged ! 0;
                 ancestors = take (length (ct_ancestors t)) (drop 1 flagged);
                 replies = drop (1 + length (ct_ancestors t)) flagged
             in \<lparr>t_root = root, t_ancestors = ancestors, t_replies = replies, t_replyCount = ct_replyCount t,
                 t_repliesCursor = map_option int (ct_repliesCursor t), t_parent = None,
                 t_lastActivity = Some (foldl (\<lambda>mx p. if mx < p_at p then p_at p else mx) (p_at root) (root # replies))\<rparr>)
             (flagRevocations (rd_revoked rd) (ct_root t # ct_ancestors t @ ct_replies t)))"

definition papi_repliesPage :: "reader \<Rightarrow> chain \<Rightarrow> int \<Rightarrow> nat option \<Rightarrow> nat \<Rightarrow> ss58 option \<Rightarrow> string + replies_page" where
  "papi_repliesPage rd st parentId beforeSeq limit viewer =
     (let pg = nodeRepliesPage (rd_papi rd) (nat parentId) viewer st beforeSeq limit
      in map_sum id (\<lambda>posts. \<lparr>rp_posts = posts, rp_nextCursor = ip_nextCursor pg\<rparr>) (flagRevocations (rd_revoked rd) (ip_posts pg)))"

record profile_row =
  row_display_name :: bytes
  row_bio :: bytes
  row_avatar :: bytes
  row_banner :: bytes
  row_location :: bytes
  row_website :: bytes

record pallet_rows =
  AccountOf :: "string \<Rightarrow> ss58 option"
  IdentityOf :: "ss58 \<Rightarrow> string option"
  AllowedStake :: "ss58 \<Rightarrow> int option"
  Profiles :: "ss58 \<Rightarrow> profile_row option"
  PinnedPost :: "ss58 \<Rightarrow> int option"
  ObservedRoles :: "ss58 \<Rightarrow> observed_role_view list"

definition stamp_banned :: "bool \<Rightarrow> cogno_post \<Rightarrow> cogno_post" where
  "stamp_banned banned p = p\<lparr>p_authorRevoked := Some banned\<rparr>"

definition papi_profile :: "reader \<Rightarrow> bool \<Rightarrow> pallet_rows \<Rightarrow> chain \<Rightarrow> chain \<Rightarrow> profile_args \<Rightarrow> string + profile_view" where
  "papi_profile rd state_call_fails rows fin st args =
     (let pa = rd_papi rd;
          account = (if truthy (pg_author args) then pg_author args
                     else if truthy (pg_identityHash args) then AccountOf rows (the (pg_identityHash args)) else pg_author args)
      in if \<not> truthy account then Inr (no_profile (pg_identityHash args))
         else
           let a = the account;
               banned = (IdentityOf rows a = None);
               field = (\<lambda>f. case Profiles rows a of None \<Rightarrow> None | Some r \<Rightarrow> binTextOpt pa (f r));
               pg = (if pg_tab args = Some LikesTab then nodeLikesPage pa a (pg_viewer args) st None DEFAULT_FIRST
                     else if pg_tab args = Some RepliesTab then nodeAuthorRepliesPage pa a (pg_viewer args) st None DEFAULT_FIRST
                     else nodeAuthorFeedPage pa a (pg_viewer args) st None DEFAULT_FIRST);
               flagged = (if pg_tab args = Some LikesTab then flagRevocations (rd_revoked rd) (ip_posts pg)
                          else Inr (map (stamp_banned banned) (ip_posts pg)))
           in map_sum id (\<lambda>posts.
             \<lparr>pr_author = Some a, pr_identityHash = (case pg_identityHash args of Some h \<Rightarrow> Some h | None \<Rightarrow> IdentityOf rows a),
              pr_postCount = int (if state_call_fails then ByAuthorCount fin a else nodeAuthorPostCount a fin), pr_banned = banned,
              pr_weight = AllowedStake rows a, pr_displayName = field row_display_name, pr_bio = field row_bio,
              pr_avatar = field row_avatar, pr_banner = field row_banner, pr_location = field row_location,
              pr_website = field row_website, pr_pinnedPostId = PinnedPost rows a,
              pr_followerCount = Some (int (FollowerCount fin a)), pr_followingCount = Some (int (FollowingCount fin a)),
              pr_observedRoles = Some (ObservedRoles rows a),
              pr_page = \<lparr>fp_posts = posts, fp_endCursor = map_option show_nat (ip_nextCursor pg),
                 fp_hasNextPage = (ip_nextCursor pg \<noteq> None), fp_totalCount = Some (int (length posts)), fp_asOf = None\<rparr>\<rparr>) flagged)"

definition watchLatestPostId :: "chain \<Rightarrow> int option" where
  "watchLatestPostId st = (if 0 < NextPostId st then Some (int (NextPostId st) - 1) else None)"

text \<open>A search term without a character left after normalising finds nobody.\<close>

definition papi_searchPeople :: "reader \<Rightarrow> people_env \<Rightarrow> chain \<Rightarrow> string \<Rightarrow> nat \<Rightarrow> suggestion list" where
  "papi_searchPeople rd env st q limit =
     (let needle = map char_of (normalizeQuery (ascii q))
      in if needle = [] then [] else nodeSearchPeople (rd_papi rd) env st needle limit)"

definition createPapiFeedSource ::
  "reader \<Rightarrow> bool \<Rightarrow> pallet_rows \<Rightarrow> people_env \<Rightarrow> chain \<Rightarrow> chain \<Rightarrow> string feed_source \<Rightarrow> string feed_source" where
  "createPapiFeedSource rd state_call_fails rows env fin st base =
     base\<lparr>liveHeadId := watchLatestPostId st, page := papi_page rd st,
          thread := (\<lambda>rootId viewer. papi_thread rd state_call_fails fin st (nat rootId) viewer),
          repliesPage := papi_repliesPage rd st, profile := papi_profile rd state_call_fails rows fin st,
          followEdges := (\<lambda>who. Inr (nodeFollowEdges state_call_fails who st)),
          whoToFollow := (\<lambda>who limit. Inr (nodeWhoToFollow (rd_papi rd) env st limit)),
          searchPeople := (\<lambda>q limit. Inr (papi_searchPeople rd env st q limit))\<rparr>"

lemma createPapi_simps [simp]:
  "page (createPapiFeedSource rd sf rows env fin st base) = papi_page rd st"
  "liveHeadId (createPapiFeedSource rd sf rows env fin st base) = watchLatestPostId st"
  by (simp_all add: createPapiFeedSource_def)

lemma withServe_page [simp]: "page (withServeDenylist lib d source) = served_page lib d (page source)"
  by (simp add: withServeDenylist_def Let_def)

section \<open>The home feed as it is served\<close>

definition answers :: "(ss58 \<Rightarrow> 'e + bool) \<Rightarrow> bool" where
  "answers revoked \<longleftrightarrow> (\<forall>a. \<exists>b. revoked a = Inr b)"

lemma flagRevocations_ok: "answers revoked \<Longrightarrow> flagRevocations revoked posts = Inr (map (flag_revoked revoked) posts)"
proof -
  assume "answers revoked"
  then have "case revoked a of Inl _ \<Rightarrow> False | Inr _ \<Rightarrow> True" for a by (metis answers_def sum.case(2))
  then have "dropWhile (\<lambda>r. case r of Inl _ \<Rightarrow> False | Inr _ \<Rightarrow> True) (map revoked xs) = []" for xs
    by (simp add: dropWhile_eq_Nil_conv)
  then show ?thesis unfolding flagRevocations_def first_rejection_def by (simp only: list.case option.case)
qed

text \<open>The query of the home feed (\<open>baseQuery\<close> of \<open>useLiveFeed\<close>).\<close>

definition home_query :: "ss58 option \<Rightarrow> nat \<Rightarrow> feed_query" where
  "home_query viewer n = \<lparr>fq_first = Some n, fq_after = None, fq_search = None, fq_authorId = None, fq_tab = Some ForYou,
     fq_followeeOf = None, fq_topic = None, fq_role = None, fq_members = None, fq_maxHops = None, fq_viewer = viewer\<rparr>"

lemma home_page:
  assumes "answers (rd_revoked rd)"
  shows "papi_page rd st ((home_query viewer n)\<lparr>fq_after := map_option show_nat c\<rparr>) =
    Inr \<lparr>fp_posts = map (flag_revoked (rd_revoked rd)) (ip_posts (nodeGlobalFeedPage (rd_papi rd) viewer st c n)),
         fp_endCursor = map_option show_nat (ip_nextCursor (nodeGlobalFeedPage (rd_papi rd) viewer st c n)),
         fp_hasNextPage = (ip_nextCursor (nodeGlobalFeedPage (rd_papi rd) viewer st c n) \<noteq> None), fp_totalCount = None, fp_asOf = None\<rparr>"
proof -
  have "decode_cursor (map_option show_nat c) = Inr c" by (cases c) (simp_all add: decode_cursor_def)
  then show ?thesis
    by (simp add: papi_page_def home_query_def Let_def truthy_def coalesce_def toFeedPage_def flagRevocations_ok [OF assms])
qed

lemma walk_of_pages:
  assumes "\<And>c. \<exists>pg. read (q\<lparr>fq_after := map_option show_nat c\<rparr>) = Inr pg \<and> fp_posts pg = map g (fst (f c n)) \<and>
      fp_endCursor pg = map_option show_nat (snd (f c n))"
    and "walk_pages f n fuel c = Some xs"
  shows "walk_source read (q\<lparr>fq_after := map_option show_nat c\<rparr>) fuel = Some (Inr (map g xs))"
  using assms(2)
proof (induction fuel arbitrary: c xs)
  case (Suc fuel)
  from assms(1) [of c] obtain pg where pg: "read (q\<lparr>fq_after := map_option show_nat c\<rparr>) = Inr pg" "fp_posts pg = map g (fst (f c n))"
    "fp_endCursor pg = map_option show_nat (snd (f c n))" by blast
  show ?case
  proof (cases "snd (f c n)")
    case None
    with Suc.prems pg show ?thesis by (simp add: Let_def)
  next
    case (Some c')
    with Suc.prems obtain ys where ys: "walk_pages f n fuel (Some c') = Some ys" "xs = fst (f c n) @ ys" by (auto simp: Let_def)
    from Suc.IH [OF ys(1)] pg Some ys(2) show ?thesis by simp
  qed
qed simp

text \<open>
  C38: the home feed as it is served is complete.  Paging the application's own source to its end, through the reader and
  the operator's list, with any page size up to the cap, shows every top-level post of the chain that is not denied exactly
  once, newest first, each decoded and flagged, and the walk ends.
\<close>

theorem served_feed_walk:
  assumes "readable st" and "0 < n" and "n \<le> MAX_PAGE" and "NextTopLevelSeq st < fuel" and "answers (rd_revoked rd)"
  shows "walk_source (page (withServeDenylist lib d (createPapiFeedSource rd fails rows env fin st base))) (home_query viewer n) fuel =
    Some (Inr (filterDenied lib d (map (\<lambda>i. flag_revoked (rd_revoked rd) (author_row (rd_papi rd) viewer st i))
      (rev (post_ids (\<lambda>p. po_parent p = None) st)))))"
proof -
  have q: "(home_query viewer n)\<lparr>fq_after := map_option show_nat None\<rparr> = home_query viewer n" by (simp add: home_query_def)
  have "walk_source (papi_page rd st) ((home_query viewer n)\<lparr>fq_after := map_option show_nat None\<rparr>) fuel =
      Some (Inr (map (flag_revoked (rd_revoked rd))
        (map (author_row (rd_papi rd) viewer st) (rev (post_ids (\<lambda>p. po_parent p = None) st)))))"
    by (rule walk_of_pages [OF _ global_feed_walk [OF assms(1-4)]]) (simp add: home_page [OF assms(5)])
  from served_walk [OF this [unfolded q]] show ?thesis by (simp add: comp_def)
qed

definition demo_reader :: reader where
  "demo_reader = \<lparr>rd_papi = demo_papi, rd_platform = demo_platform, rd_lib = demo_lib, rd_rejects = (\<lambda>_. None), rd_revoked = (\<lambda>_. Inr False)\<rparr>"

definition demo_rows :: pallet_rows where
  "demo_rows = \<lparr>AccountOf = (\<lambda>_. None), IdentityOf = (\<lambda>_. None), AllowedStake = (\<lambda>_. None), Profiles = (\<lambda>_. None),
     PinnedPost = (\<lambda>_. None), ObservedRoles = (\<lambda>_. [])\<rparr>"

theorem served_feed_walk_witness:
  "walk_source (page (withServeDenylist demo_lib demo_deny (createPapiFeedSource demo_reader False demo_rows demo_people demo_chain demo_chain silent_source)))
     (home_query None 1) 4 =
   Some (Inr (filterDenied demo_lib demo_deny (map (\<lambda>i. flag_revoked (rd_revoked demo_reader) (author_row (rd_papi demo_reader) None demo_chain i))
      (rev (post_ids (\<lambda>p. po_parent p = None) demo_chain)))))"
proof (rule served_feed_walk [OF readable_demo])
  show "NextTopLevelSeq demo_chain < 4"
    by (simp add: demo_chain_def demo_posted_def demo_bound_def genesis_def insert_post_indexes u64_max_def saturating_add_def)
  show "answers (rd_revoked demo_reader)" unfolding answers_def by (intro allI exI [of _ False]) (simp add: demo_reader_def)
qed (simp_all add: MAX_PAGE_def)

end
