(* ===== verification/Live_Feed.thy ===== *)
theory Live_Feed
  imports Optimistic Papi_Source Chain_Errors
begin

text \<open>
  The home feed, \<open>app/src/hooks/useLiveFeed.ts\<close>: a paged list, the head that announces new posts, the pill they
  wait behind, the snapshot that survives a navigation, and the reconciliation with the optimistic overlay.  A read
  of the source is a request in flight; its reply is a step of its own, so replies arrive in any order and after the
  source has changed.  A state setter takes effect at once, and \<open>cancelled\<close> of an effect's closure is that its
  generation is no longer the current one.  Only the closure of the current generation is kept: the callbacks of
  older ones return at once.
\<close>

definition MAX_LIVE_FETCH :: int where "MAX_LIVE_FETCH = 500"

text \<open>The requests in flight, with the generation of the effect that sent them, the head a seed or a bridge is for, the
  number of posts a bridge asks for and the cursor a further page continues from.\<close>

datatype request = SeedReq nat int | BridgeReq nat int int | MoreReq nat string | RefreshReq nat | VoteReq nat

text \<open>The query each of them sends.\<close>

fun request_query :: "ss58 option \<Rightarrow> request \<Rightarrow> feed_query" where
  "request_query who (BridgeReq g h n) = home_query who (nat n)"
| "request_query who (MoreReq g c) = (home_query who FEED_PAGE_SIZE)\<lparr>fq_after := Some c\<rparr>"
| "request_query who r = home_query who FEED_PAGE_SIZE"

datatype reply = Page feed_page | Rejected thrown

record live_feed =
  lf_source :: bool
  lf_me :: "ss58 option"
  lf_loaded :: "cogno_post list"
  lf_buffered :: "cogno_post list"
  lf_cursor :: "string option"
  lf_ready :: bool
  lf_error :: "string option"
  lf_loadingMore :: bool
  lf_lastPage :: "cogno_post list option"
  lf_loadedIds :: "string list"
  lf_bufferedIds :: "string list"
  lf_epoch :: nat
  lf_refreshing :: bool
  lf_seeded :: bool
  lf_seeding :: bool
  lf_lastHead :: "int option"
  lf_voteRun :: nat
  lf_flight :: "request list"
  lf_provider :: provider
  lf_held :: held

definition key_of :: "cogno_post \<Rightarrow> string" where
  "key_of p = show_int (p_id p)"

text \<open>The number of posts a bridge asks for.\<close>

definition bridge_gap :: "int option \<Rightarrow> int \<Rightarrow> int" where
  "bridge_gap lastHead h = (case lastHead of Some l \<Rightarrow> h - l | None \<Rightarrow> int FEED_PAGE_SIZE)"

definition bridge_first :: "int option \<Rightarrow> int \<Rightarrow> int" where
  "bridge_first lastHead h = bridgeFetchSize (bridge_gap lastHead h) MAX_LIVE_FETCH"

definition applyFresh :: "cogno_post list \<Rightarrow> live_feed \<Rightarrow> live_feed" where
  "applyFresh fresh st =
     (let part = partitionFresh fresh (lf_loadedIds st) (lf_bufferedIds st) (lf_me st);
          st = (if newOwn part \<noteq> [] \<or> refreshLoaded part \<noteq> []
                then st\<lparr>lf_loadedIds := lf_loadedIds st @ map key_of (newOwn part),
                        lf_loaded := mergeById (newOwn part @ lf_loaded st) (refreshLoaded part)\<rparr>
                else st)
      in if newOthers part \<noteq> [] \<or> refreshBuffered part \<noteq> []
         then st\<lparr>lf_bufferedIds := lf_bufferedIds st @ map key_of (newOthers part),
                 lf_buffered := mergeById (lf_buffered st) (newOthers part @ refreshBuffered part)\<rparr>
         else st)"

text \<open>The cleanup on unmount, or when the snapshot key changes: the page is handed to the next mount.\<close>

definition save_snapshot :: "int \<Rightarrow> live_feed \<Rightarrow> live_feed" where
  "save_snapshot scrollY st = st\<lparr>lf_held := saveFeedSnapshot (feedSnapshotKey ''forYou'' (lf_me st))
     \<lparr>fs_posts = lf_loaded st, fs_cursor = lf_cursor st, fs_scrollY = scrollY, fs_head = lf_lastHead st\<rparr> (lf_held st)\<rparr>"

text \<open>The effect of a new source or viewer.\<close>

definition reset :: "bool \<Rightarrow> ss58 option \<Rightarrow> live_feed \<Rightarrow> live_feed" where
  "reset source who st =
     (let st = st\<lparr>lf_source := source, lf_me := who, lf_epoch := Suc (lf_epoch st), lf_bufferedIds := [], lf_buffered := [],
                  lf_error := None, lf_lastPage := None, lf_loadingMore := False\<rparr>;
          (restored, rest) = (if source then takeFeedSnapshot (feedSnapshotKey ''forYou'' who) (lf_held st)
                              else (None, lf_held st));
          st = st\<lparr>lf_held := rest, lf_seeding := False\<rparr>
      in case restored of
           Some snap \<Rightarrow> st\<lparr>lf_loadedIds := map key_of (fs_posts snap), lf_loaded := fs_posts snap,
                           lf_cursor := fs_cursor snap, lf_ready := True, lf_seeded := True, lf_lastHead := fs_head snap\<rparr>
         | None \<Rightarrow> st\<lparr>lf_loadedIds := [], lf_loaded := [], lf_cursor := None, lf_ready := False,
                      lf_seeded := False, lf_lastHead := (if source then None else lf_lastHead st)\<rparr>)"

definition seed :: "int \<Rightarrow> live_feed \<Rightarrow> live_feed" where
  "seed h st = (if lf_seeding st then st
     else st\<lparr>lf_seeding := True, lf_flight := lf_flight st @ [SeedReq (lf_epoch st) h]\<rparr>)"

definition handleHead :: "int option \<Rightarrow> live_feed \<Rightarrow> live_feed" where
  "handleHead h st =
     (if \<not> lf_source st then st
      else if \<not> lf_seeded st then
        (if lf_seeding st then st
         else case h of
                None \<Rightarrow> st\<lparr>lf_seeded := True, lf_lastHead := None, lf_loaded := [], lf_cursor := None, lf_ready := True\<rparr>
              | Some i \<Rightarrow> seed i st)
      else case h of
             None \<Rightarrow> st
           | Some i \<Rightarrow>
               if (case lf_lastHead st of Some l \<Rightarrow> i \<le> l | None \<Rightarrow> False) then st
               else st\<lparr>lf_flight := lf_flight st @ [BridgeReq (lf_epoch st) i (bridge_first (lf_lastHead st) i)]\<rparr>)"

definition headError :: "thrown \<Rightarrow> live_feed \<Rightarrow> live_feed" where
  "headError e st = st\<lparr>lf_error := Some (readErrorCopy e ''Live updates stopped.'')\<rparr>"

definition loadMore :: "live_feed \<Rightarrow> live_feed" where
  "loadMore st =
     (case lf_cursor st of
        None \<Rightarrow> st
      | Some c \<Rightarrow> if \<not> lf_source st \<or> lf_loadingMore st then st
          else st\<lparr>lf_loadingMore := True, lf_error := None, lf_flight := lf_flight st @ [MoreReq (lf_epoch st) c]\<rparr>)"

definition flush_pill :: "live_feed \<Rightarrow> live_feed" where
  "flush_pill st =
     (let buf = lf_buffered st
      in if buf = [] then st
         else st\<lparr>lf_loadedIds := lf_loadedIds st @ map key_of buf,
                 lf_bufferedIds := filter (\<lambda>k. k \<notin> key_of ` set buf) (lf_bufferedIds st),
                 lf_loaded := mergeById (lf_loaded st) buf,
                 lf_buffered := filter (\<lambda>p. key_of p \<notin> key_of ` set buf) (lf_buffered st)\<rparr>)"

definition refresh :: "live_feed \<Rightarrow> live_feed" where
  "refresh st =
     (let st = flush_pill st
      in if \<not> lf_source st \<or> lf_refreshing st then st
         else st\<lparr>lf_refreshing := True, lf_flight := lf_flight st @ [RefreshReq (lf_epoch st)]\<rparr>)"

section \<open>Replies\<close>

definition seed_reply :: "nat \<Rightarrow> int \<Rightarrow> reply \<Rightarrow> live_feed \<Rightarrow> live_feed" where
  "seed_reply g h r st = (if g \<noteq> lf_epoch st then st else case r of
     Page pg \<Rightarrow> st\<lparr>lf_seeded := True, lf_seeding := False, lf_lastHead := Some h,
                   lf_loadedIds := lf_loadedIds st @ map key_of (fp_posts pg), lf_loaded := fp_posts pg,
                   lf_lastPage := Some (fp_posts pg), lf_cursor := fp_endCursor pg, lf_ready := True\<rparr>
   | Rejected e \<Rightarrow> st\<lparr>lf_seeding := False,
                     lf_error := Some (readErrorCopy e (''Couldn'' @ [CHR 0x27] @ ''t load the feed.''))\<rparr>)"

definition bridge_reply :: "nat \<Rightarrow> int \<Rightarrow> reply \<Rightarrow> live_feed \<Rightarrow> live_feed" where
  "bridge_reply g h r st = (if g \<noteq> lf_epoch st then st else case r of
     Page pg \<Rightarrow> (applyFresh (fp_posts pg) st)\<lparr>lf_lastHead := Some h\<rparr>
   | Rejected e \<Rightarrow> st)"

definition more_reply :: "nat \<Rightarrow> reply \<Rightarrow> live_feed \<Rightarrow> live_feed" where
  "more_reply g r st = (if g \<noteq> lf_epoch st then st
     else (case r of
         Page pg \<Rightarrow> st\<lparr>lf_loadedIds := lf_loadedIds st @ map key_of (fp_posts pg),
                       lf_loaded := mergeById (lf_loaded st) (fp_posts pg),
                       lf_lastPage := Some (fp_posts pg), lf_cursor := fp_endCursor pg\<rparr>
       | Rejected e \<Rightarrow> st\<lparr>lf_error := Some (readErrorCopy e (''Couldn'' @ [CHR 0x27] @ ''t load more.''))\<rparr>)\<lparr>lf_loadingMore := False\<rparr>)"

definition refresh_page :: "feed_page \<Rightarrow> live_feed \<Rightarrow> live_feed" where
  "refresh_page pg st =
     (let fresh = key_of ` set (fp_posts pg);
          st = st\<lparr>lf_loadedIds := lf_loadedIds st @ map key_of (fp_posts pg),
                  lf_bufferedIds := filter (\<lambda>k. k \<notin> fresh) (lf_bufferedIds st),
                  lf_loaded := mergeById (lf_loaded st) (fp_posts pg),
                  lf_buffered := filter (\<lambda>p. key_of p \<notin> fresh) (lf_buffered st), lf_error := None\<rparr>
      in if \<not> lf_ready st then st\<lparr>lf_ready := True, lf_cursor := fp_endCursor pg\<rparr> else st)"

definition refresh_reply :: "nat \<Rightarrow> reply \<Rightarrow> live_feed \<Rightarrow> live_feed" where
  "refresh_reply g r st =
     (if g \<noteq> lf_epoch st then st else case r of Page pg \<Rightarrow> refresh_page pg st | Rejected e \<Rightarrow> st)\<lparr>lf_refreshing := False\<rparr>"

section \<open>The overlay\<close>

definition shown_posts :: "live_feed \<Rightarrow> cogno_post list" where
  "shown_posts st = mergeFeed (lf_loaded st) (pv_overlay (lf_provider st))"

definition newCount :: "(cogno_post list \<Rightarrow> cogno_post list) option \<Rightarrow> live_feed \<Rightarrow> nat" where
  "newCount moderate st = (case moderate of Some f \<Rightarrow> length (f (lf_buffered st)) | None \<Rightarrow> length (lf_buffered st))"

text \<open>Presence: a pending card is retired once its twin is in the list.\<close>

definition retire_pending :: "live_feed \<Rightarrow> live_feed" where
  "retire_pending st =
     (let pv = lf_provider st;
          top = filter (\<lambda>pp. pp_parentId pp = None) (ov_pending (pv_overlay pv));
          realKeys = set (map pendingKey (lf_loaded st))
      in st\<lparr>lf_provider := fold (\<lambda>pp pv. if pendingKey (pp_post pp) \<in> realKeys then dropPending (pp_clientId pp) pv else pv) top pv\<rparr>)"

text \<open>The vote effect re-runs on every block and on every change of the overlay; a re-run cancels the one before.\<close>

definition start_votes :: "live_feed \<Rightarrow> live_feed" where
  "start_votes st =
     (let st = st\<lparr>lf_voteRun := Suc (lf_voteRun st)\<rparr>
      in if lf_source st \<and> list_ex (\<lambda>(k, v). vp_expected v = Some True \<and> k \<in> set (lf_loadedIds st)) (ov_viewer (pv_overlay (lf_provider st)))
         then st\<lparr>lf_flight := lf_flight st @ [VoteReq (lf_voteRun st)]\<rparr> else st)"

definition clear_settled :: "cogno_post list \<Rightarrow> provider \<Rightarrow> provider" where
  "clear_settled ps pv =
     fold (\<lambda>p acc. if (case map_of (ov_viewer (pv_overlay pv)) (key_of p) of
                          Some patch \<Rightarrow> vp_expected patch = Some True \<and>
                            viewerPatchSettled \<lparr>vs_myVote = coalesce (p_myVote p) None\<rparr> (Some patch)
                        | None \<Rightarrow> False)
                    then clearPost (p_id p) acc else acc) ps pv"

definition vote_reply :: "nat \<Rightarrow> reply \<Rightarrow> live_feed \<Rightarrow> live_feed" where
  "vote_reply g r st = (if g \<noteq> lf_voteRun st then st else case r of
     Page pg \<Rightarrow> applyFresh (fp_posts pg) (st\<lparr>lf_provider := clear_settled (fp_posts pg) (lf_provider st)\<rparr>)
   | Rejected e \<Rightarrow> st)"

text \<open>
  A new source or viewer runs both effects, after the cleanup of the snapshot effect where the viewer's key has changed; a
  new mount starts from an empty state and the snapshot that is held.
\<close>

definition connect :: "int \<Rightarrow> bool \<Rightarrow> ss58 option \<Rightarrow> live_feed \<Rightarrow> live_feed" where
  "connect scrollY source who st =
     (let st = (if feedSnapshotKey ''forYou'' who = feedSnapshotKey ''forYou'' (lf_me st) then st else save_snapshot scrollY st)
      in start_votes (reset source who st))"

definition mounted :: "provider \<Rightarrow> held \<Rightarrow> live_feed" where
  "mounted pv hold = \<lparr>lf_source = False, lf_me = None, lf_loaded = [], lf_buffered = [], lf_cursor = None, lf_ready = False,
     lf_error = None, lf_loadingMore = False, lf_lastPage = None, lf_loadedIds = [], lf_bufferedIds = [], lf_epoch = 0,
     lf_refreshing = False, lf_seeded = False, lf_seeding = False, lf_lastHead = None, lf_voteRun = 0, lf_flight = [],
     lf_provider = pv, lf_held = hold\<rparr>"

fun answer :: "request \<Rightarrow> reply \<Rightarrow> live_feed \<Rightarrow> live_feed" where
  "answer (SeedReq g h) r st = seed_reply g h r st"
| "answer (BridgeReq g h n) r st = bridge_reply g h r st"
| "answer (MoreReq g c) r st = more_reply g r st"
| "answer (RefreshReq g) r st = refresh_reply g r st"
| "answer (VoteReq g) r st = vote_reply g r st"

definition drop_nth :: "nat \<Rightarrow> 'a list \<Rightarrow> 'a list" where
  "drop_nth i xs = take i xs @ drop (Suc i) xs"

definition on_reply :: "nat \<Rightarrow> reply \<Rightarrow> live_feed \<Rightarrow> live_feed" where
  "on_reply i r st = answer (lf_flight st ! i) r (st\<lparr>lf_flight := drop_nth i (lf_flight st)\<rparr>)"

section \<open>Steps of a mounted feed\<close>

text \<open>A page of the source is newest first.\<close>

fun reply_ok :: "reply \<Rightarrow> bool" where
  "reply_ok (Page pg) = newest_first (fp_posts pg)"
| "reply_ok (Rejected e) = True"

inductive live_step :: "live_feed \<Rightarrow> live_feed \<Rightarrow> bool" where
  head: "live_step st (handleHead h st)"
| head_error: "live_step st (headError e st)"
| more: "live_step st (loadMore st)"
| pill: "live_step st (flush_pill st)"
| again: "live_step st (refresh st)"
| votes: "live_step st (start_votes st)"
| twins: "live_step st (retire_pending st)"
| others: "live_step st (st\<lparr>lf_provider := pv\<rparr>)"
| reply: "i < length (lf_flight st) \<Longrightarrow> reply_ok r \<Longrightarrow> live_step st (on_reply i r st)"

inductive live_reachable :: "live_feed \<Rightarrow> bool" where
  first_mount: "live_reachable (mounted pv None)"
| stepped: "live_reachable st \<Longrightarrow> live_step st st' \<Longrightarrow> live_reachable st'"
| connected: "live_reachable st \<Longrightarrow> live_reachable (connect y source who st)"
| remounted: "live_reachable st \<Longrightarrow> live_reachable (mounted pv (lf_held (save_snapshot y st)))"

definition ids :: "cogno_post list \<Rightarrow> int set" where
  "ids ps = p_id ` set ps"

lemma ids_simps [simp]: "ids [] = {}" "ids (ps @ qs) = ids ps \<union> ids qs" "ids (mergeById ps qs) = ids ps \<union> ids qs"
  by (auto simp: ids_def mergeById_ids)

lemma key_of_eq [simp]: "key_of p = key_of q \<longleftrightarrow> p_id p = p_id q"
  by (simp add: key_of_def)

definition keys :: "cogno_post list \<Rightarrow> string set" where
  "keys ps = key_of ` set ps"

lemma keys_ids: "keys ps = show_int ` ids ps"
  by (simp add: keys_def ids_def key_of_def image_image)

lemma keys_simps [simp]: "keys [] = {}" "keys (ps @ qs) = keys ps \<union> keys qs" "keys (mergeById ps qs) = keys ps \<union> keys qs"
  by (simp_all add: keys_ids image_Un)

fun seed_of :: "nat \<Rightarrow> request \<Rightarrow> bool" where
  "seed_of e (SeedReq g h) \<longleftrightarrow> g = e"
| "seed_of e _ = False"

fun not_later :: "nat \<Rightarrow> request \<Rightarrow> bool" where
  "not_later e (SeedReq g h) \<longleftrightarrow> g \<le> e"
| "not_later e _ = True"

definition seed_inv :: "live_feed \<Rightarrow> bool" where
  "seed_inv st \<longleftrightarrow> length (filter (seed_of (lf_epoch st)) (lf_flight st)) \<le> (if lf_seeding st then 1 else 0) \<and>
     (lf_seeded st \<longrightarrow> \<not> lf_seeding st) \<and> list_all (not_later (lf_epoch st)) (lf_flight st)"

definition rows_inv :: "live_feed \<Rightarrow> bool" where
  "rows_inv st \<longleftrightarrow> newest_first (lf_loaded st) \<and> newest_first (lf_buffered st) \<and>
     keys (lf_loaded st) \<subseteq> set (lf_loadedIds st) \<and> keys (lf_buffered st) = set (lf_bufferedIds st)"

definition held_inv :: "live_feed \<Rightarrow> bool" where
  "held_inv st \<longleftrightarrow> (case lf_held st of Some (k, snap) \<Rightarrow> newest_first (fs_posts snap) | None \<Rightarrow> True)"

text \<open>What a fold of fresh posts does to the rows.\<close>

lemma key_image [simp]: "key_of ` set ps = keys ps"
  by (simp add: keys_def)

lemma keys_filter [simp]: "keys (filter (\<lambda>p. key_of p \<notin> K) ps) = keys ps - K"
  by (auto simp: keys_def simp del: key_image)

lemma ids_filter [simp]: "ids (filter (\<lambda>p. key_of p \<notin> keys qs) ps) = ids ps - ids qs"
  by (auto simp: keys_def ids_def key_of_def simp del: key_image)

lemma part_keys:
  fixes fresh L B m
  defines "part \<equiv> partitionFresh fresh L B m"
  shows "keys (refreshLoaded part) \<subseteq> set L" "keys (refreshBuffered part) \<subseteq> set B"
  by (auto simp: part_def partitionFresh_eq keys_def key_of_def simp del: key_image)

lemma applyFresh_rows: "rows_inv st \<Longrightarrow> rows_inv (applyFresh fresh st)"
  using part_keys [of fresh "lf_loadedIds st" "lf_bufferedIds st" "lf_me st"]
  unfolding rows_inv_def applyFresh_def Let_def by (auto simp: mergeById_newest_first)

lemma applyFresh_frame [simp]:
  "lf_flight (applyFresh fresh st) = lf_flight st" "lf_epoch (applyFresh fresh st) = lf_epoch st"
  "lf_seeded (applyFresh fresh st) = lf_seeded st" "lf_seeding (applyFresh fresh st) = lf_seeding st"
  "lf_held (applyFresh fresh st) = lf_held st" "lf_lastHead (applyFresh fresh st) = lf_lastHead st"
  by (simp_all add: applyFresh_def Let_def)

lemma applyFresh_keeps:
  "ids (lf_loaded st) \<subseteq> ids (lf_loaded (applyFresh fresh st))" "ids (lf_buffered st) \<subseteq> ids (lf_buffered (applyFresh fresh st))"
  by (auto simp: applyFresh_def Let_def)

lemma part_cover:
  fixes fresh L B m
  defines "part \<equiv> partitionFresh fresh L B m"
  assumes "p \<in> set fresh"
  shows "p \<in> set (newOwn part) \<or> p \<in> set (refreshLoaded part) \<or> p \<in> set (newOthers part) \<or> p \<in> set (refreshBuffered part)"
  using assms by (auto simp: part_def partitionFresh_eq)

lemma applyFresh_holds:
  assumes "p \<in> set fresh"
  shows "p_id p \<in> ids (lf_loaded (applyFresh fresh st)) \<union> ids (lf_buffered (applyFresh fresh st))"
proof -
  let ?part = "partitionFresh fresh (lf_loadedIds st) (lf_bufferedIds st) (lf_me st)"
  have in_ids: "p \<in> set ps \<Longrightarrow> p_id p \<in> ids ps \<and> ps \<noteq> []" for ps by (auto simp: ids_def)
  from part_cover [OF assms, of "lf_loadedIds st" "lf_bufferedIds st" "lf_me st"] consider
    "p \<in> set (newOwn ?part) \<or> p \<in> set (refreshLoaded ?part)" | "p \<in> set (newOthers ?part) \<or> p \<in> set (refreshBuffered ?part)"
    by blast
  then show ?thesis
  proof cases
    case 1
    then have "newOwn ?part \<noteq> [] \<or> refreshLoaded ?part \<noteq> []" by auto
    then show ?thesis using 1 in_ids by (auto simp: applyFresh_def Let_def)
  next
    case 2
    then have "newOthers ?part \<noteq> [] \<or> refreshBuffered ?part \<noteq> []" by auto
    then show ?thesis using 2 in_ids by (auto simp: applyFresh_def Let_def)
  qed
qed

lemma flush_pill_rows: "rows_inv st \<Longrightarrow> rows_inv (flush_pill st)"
  by (auto simp: rows_inv_def flush_pill_def Let_def mergeById_newest_first newest_first_filter)

lemma flush_pill_frame [simp]:
  "lf_flight (flush_pill st) = lf_flight st" "lf_epoch (flush_pill st) = lf_epoch st" "lf_seeded (flush_pill st) = lf_seeded st"
  "lf_seeding (flush_pill st) = lf_seeding st" "lf_held (flush_pill st) = lf_held st" "lf_source (flush_pill st) = lf_source st"
  by (simp_all add: flush_pill_def Let_def)

lemma flush_pill_keeps: "ids (lf_loaded (flush_pill st)) = ids (lf_loaded st) \<union> ids (lf_buffered st)" "lf_buffered (flush_pill st) = []"
  by (auto simp: flush_pill_def Let_def filter_empty_conv keys_def simp del: key_image)

lemma refresh_page_rows: "rows_inv st \<Longrightarrow> rows_inv (refresh_page pg st)"
  by (auto simp: rows_inv_def refresh_page_def Let_def mergeById_newest_first newest_first_filter)

lemma refresh_page_frame [simp]:
  "lf_flight (refresh_page pg st) = lf_flight st" "lf_epoch (refresh_page pg st) = lf_epoch st"
  "lf_seeded (refresh_page pg st) = lf_seeded st" "lf_seeding (refresh_page pg st) = lf_seeding st"
  "lf_held (refresh_page pg st) = lf_held st"
  by (simp_all add: refresh_page_def Let_def)

lemma refresh_page_keeps:
  "ids (lf_loaded (refresh_page pg st)) = ids (lf_loaded st) \<union> ids (fp_posts pg)"
  "ids (lf_buffered st) \<subseteq> ids (lf_loaded (refresh_page pg st)) \<union> ids (lf_buffered (refresh_page pg st))"
  by (auto simp: refresh_page_def Let_def)

definition live_inv :: "live_feed \<Rightarrow> bool" where
  "live_inv st \<longleftrightarrow> rows_inv st \<and> seed_inv st \<and> held_inv st"

text \<open>A step that changes neither the rows nor what the seed depends on, except for a request of another kind.\<close>

definition untouched :: "live_feed \<Rightarrow> live_feed \<Rightarrow> bool" where
  "untouched st st' \<longleftrightarrow> lf_loaded st' = lf_loaded st \<and> lf_buffered st' = lf_buffered st \<and> lf_loadedIds st' = lf_loadedIds st \<and>
     lf_bufferedIds st' = lf_bufferedIds st \<and> lf_epoch st' = lf_epoch st \<and> lf_seeded st' = lf_seeded st \<and>
     lf_seeding st' = lf_seeding st \<and> lf_held st' = lf_held st \<and>
     (lf_flight st' = lf_flight st \<or> (\<exists>q. lf_flight st' = lf_flight st @ [q] \<and> (\<forall>e. \<not> seed_of e q \<and> not_later e q)))"

lemma untouched_inv: "untouched st st' \<Longrightarrow> live_inv st \<Longrightarrow> live_inv st'"
  by (auto simp: untouched_def live_inv_def rows_inv_def seed_inv_def held_inv_def)

lemma seed_inv_same:
  "seed_inv st \<Longrightarrow> lf_flight st' = lf_flight st \<Longrightarrow> lf_epoch st' = lf_epoch st \<Longrightarrow> lf_seeded st' = lf_seeded st \<Longrightarrow>
   lf_seeding st' = lf_seeding st \<Longrightarrow> seed_inv st'"
  by (simp add: seed_inv_def)

lemma held_inv_same: "held_inv st \<Longrightarrow> lf_held st' = lf_held st \<Longrightarrow> held_inv st'"
  by (simp add: held_inv_def)

text \<open>What a step keeps of a feed that has been seeded.\<close>

definition kept :: "live_feed \<Rightarrow> live_feed \<Rightarrow> bool" where
  "kept st st' \<longleftrightarrow> lf_seeded st' \<and> ids (lf_loaded st) \<subseteq> ids (lf_loaded st') \<and>
     ids (lf_buffered st) \<subseteq> ids (lf_loaded st') \<union> ids (lf_buffered st')"

lemma kept_trans: "kept a b \<Longrightarrow> kept b c \<Longrightarrow> kept a c"
  by (auto simp: kept_def)

lemma untouched_kept: "untouched st st' \<Longrightarrow> lf_seeded st \<Longrightarrow> kept st st'"
  by (simp add: untouched_def kept_def)

lemma untouched_steps:
  "untouched st (headError e st)" "untouched st (loadMore st)" "untouched st (start_votes st)" "untouched st (retire_pending st)"
  "untouched st (st\<lparr>lf_provider := pv\<rparr>)" "lf_seeded st \<Longrightarrow> untouched st (handleHead h st)"
  by (auto simp: untouched_def headError_def loadMore_def start_votes_def retire_pending_def handleHead_def Let_def split: option.splits)

lemma head_inv: "live_inv st \<Longrightarrow> live_inv (handleHead h st)"
proof (cases "lf_seeded st")
  case True
  assume "live_inv st"
  with True show ?thesis using untouched_inv untouched_steps(6) by blast
next
  case False
  assume inv: "live_inv st"
  show ?thesis
  proof (cases "lf_source st \<and> \<not> lf_seeding st")
    case True
    then show ?thesis using inv False
      by (cases h) (auto simp: handleHead_def seed_def live_inv_def rows_inv_def seed_inv_def held_inv_def)
  next
    case no: False
    then have "handleHead h st = st" using False by (auto simp: handleHead_def)
    with inv show ?thesis by simp
  qed
qed

lemma refresh_inv: "live_inv st \<Longrightarrow> live_inv (refresh st)"
proof -
  assume inv: "live_inv st"
  then have "live_inv (flush_pill st)"
    using flush_pill_rows seed_inv_same [of st "flush_pill st"] held_inv_same [of st "flush_pill st"] by (simp add: live_inv_def)
  moreover have "untouched (flush_pill st) (refresh st)" by (simp add: untouched_def refresh_def Let_def)
  ultimately show ?thesis using untouched_inv by blast
qed

lemma refresh_kept: "lf_seeded st \<Longrightarrow> kept st (refresh st)"
  by (auto simp: kept_def refresh_def Let_def flush_pill_keeps)

subsection \<open>Replies\<close>

lemma set_drop_nth: "set (drop_nth i xs) \<subseteq> set xs"
  using set_take_subset [of i xs] set_drop_subset [of "Suc i" xs] by (auto simp: drop_nth_def)

lemma filter_drop_nth:
  "i < length xs \<Longrightarrow> filter P (drop_nth i xs) = (if P (xs ! i) then drop_nth (length (filter P (take i xs))) (filter P xs) else filter P xs)"
proof -
  assume i: "i < length xs"
  have "filter P xs = filter P (take i xs) @ filter P (xs ! i # drop (Suc i) xs)"
    by (metis filter_append id_take_nth_drop [OF i])
  then show ?thesis by (simp add: drop_nth_def)
qed

lemma length_drop_nth: "i < length xs \<Longrightarrow> length (drop_nth i xs) = length xs - 1"
  by (simp add: drop_nth_def)

text \<open>Taking a request off the flight: at most a seed of the current generation disappears.\<close>

lemma popped_inv: "live_inv st \<Longrightarrow> i < length (lf_flight st) \<Longrightarrow> live_inv (st\<lparr>lf_flight := drop_nth i (lf_flight st)\<rparr>)"
proof -
  assume inv: "live_inv st" and i: "i < length (lf_flight st)"
  have "length (filter P (drop_nth i (lf_flight st))) \<le> length (filter P (lf_flight st))" for P
    by (subst filter_drop_nth [OF i]) (auto simp: drop_nth_def)
  from le_trans [OF this] have "seed_inv (st\<lparr>lf_flight := drop_nth i (lf_flight st)\<rparr>)"
    using inv set_drop_nth [of i "lf_flight st"] by (simp add: live_inv_def seed_inv_def list_all_iff subset_iff)
  then show ?thesis using inv by (simp add: live_inv_def rows_inv_def held_inv_def)
qed

text \<open>Once the seed of the current generation is taken off, none is left.\<close>

lemma popped_seed:
  assumes "live_inv st" "i < length (lf_flight st)" "lf_flight st ! i = SeedReq (lf_epoch st) h"
  shows "filter (seed_of (lf_epoch st)) (drop_nth i (lf_flight st)) = []" "\<not> lf_seeded st"
proof -
  let ?P = "seed_of (lf_epoch st)"
  have in_f: "SeedReq (lf_epoch st) h \<in> set (filter ?P (lf_flight st))" using assms nth_mem by fastforce
  then have "filter ?P (lf_flight st) \<noteq> []" by (metis empty_iff empty_set)
  then have pos: "0 < length (filter ?P (lf_flight st))" by simp
  moreover have le: "length (filter ?P (lf_flight st)) \<le> (if lf_seeding st then 1 else 0)"
    using assms(1) by (simp add: live_inv_def seed_inv_def)
  ultimately have "lf_seeding st" by (cases "lf_seeding st") simp_all
  with le have "length (filter ?P (lf_flight st)) \<le> 1" by presburger
  with pos have one: "length (filter ?P (lf_flight st)) = 1" by linarith
  show "\<not> lf_seeded st" using assms(1) \<open>lf_seeding st\<close> by (auto simp: live_inv_def seed_inv_def)
  let ?j = "length (filter ?P (take i (lf_flight st)))"
  have "filter ?P (lf_flight st) = filter ?P (take i (lf_flight st)) @ filter ?P (lf_flight st ! i # drop (Suc i) (lf_flight st))"
    by (metis filter_append id_take_nth_drop [OF assms(2)])
  with one have "?j = 0" by (simp add: assms(3))
  with one show "filter ?P (drop_nth i (lf_flight st)) = []"
    by (subst filter_drop_nth [OF assms(2)]) (simp add: assms(3) drop_nth_def)
qed

lemma seed_reply_inv:
  assumes "live_inv st" "reply_ok r" "g = lf_epoch st \<Longrightarrow> filter (seed_of (lf_epoch st)) (lf_flight st) = []"
  shows "live_inv (seed_reply g h r st)"
  using assms
  by (cases r) (auto simp: seed_reply_def live_inv_def rows_inv_def seed_inv_def held_inv_def)

lemma other_reply_inv:
  assumes inv: "live_inv st"
  shows "live_inv (bridge_reply g h r st)" "live_inv (more_reply g r st)" "live_inv (refresh_reply g r st)"
    "live_inv (vote_reply g r st)"
proof -
  have same: "live_inv st'" if "rows_inv st'" "lf_flight st' = lf_flight st" "lf_epoch st' = lf_epoch st"
      "lf_seeded st' = lf_seeded st" "lf_seeding st' = lf_seeding st" "lf_held st' = lf_held st" for st'
    using that inv seed_inv_same [of st st'] held_inv_same [of st st'] by (simp add: live_inv_def)
  have rows: "rows_inv st" using inv by (simp add: live_inv_def)
  have upd: "rows_inv (s\<lparr>lf_lastHead := l\<rparr>) = rows_inv s" "rows_inv (s\<lparr>lf_provider := p\<rparr>) = rows_inv s"
    "rows_inv (s\<lparr>lf_refreshing := b\<rparr>) = rows_inv s" for s l p b by (simp_all add: rows_inv_def)
  show "live_inv (bridge_reply g h r st)"
    by (rule same) (auto simp: bridge_reply_def upd rows applyFresh_rows split: reply.split)
  show "live_inv (more_reply g r st)"
    by (rule same) (use rows in \<open>auto simp: more_reply_def rows_inv_def mergeById_newest_first split: reply.split\<close>)
  show "live_inv (refresh_reply g r st)"
    by (rule same) (auto simp: refresh_reply_def upd rows refresh_page_rows split: reply.split)
  show "live_inv (vote_reply g r st)"
    by (rule same) (auto simp: vote_reply_def upd rows applyFresh_rows split: reply.split)
qed

lemma other_reply_kept:
  assumes "lf_seeded st"
  shows "kept st (bridge_reply g h r st)" "kept st (more_reply g r st)" "kept st (refresh_reply g r st)"
    "kept st (vote_reply g r st)"
proof -
  have fresh: "ids (lf_loaded st) \<subseteq> ids (lf_loaded (applyFresh f (st\<lparr>lf_provider := p\<rparr>)))"
    "ids (lf_buffered st) \<subseteq> ids (lf_buffered (applyFresh f (st\<lparr>lf_provider := p\<rparr>)))" for f p
    using applyFresh_keeps [of "st\<lparr>lf_provider := p\<rparr>" f] by simp_all
  show "kept st (bridge_reply g h r st)"
    using assms applyFresh_keeps [of st] by (auto simp: kept_def bridge_reply_def split: reply.split)
  show "kept st (more_reply g r st)" using assms by (auto simp: kept_def more_reply_def split: reply.split)
  show "kept st (refresh_reply g r st)"
    using assms refresh_page_keeps [where st = st] by (auto simp: kept_def refresh_reply_def split: reply.split)
  show "kept st (vote_reply g r st)" using assms fresh by (fastforce simp: kept_def vote_reply_def split: reply.split)
qed

lemma reply_step:
  assumes inv: "live_inv st" and i: "i < length (lf_flight st)" and r: "reply_ok r"
  shows "live_inv (on_reply i r st)" and "lf_seeded st \<Longrightarrow> kept st (on_reply i r st)"
proof -
  let ?st = "st\<lparr>lf_flight := drop_nth i (lf_flight st)\<rparr>"
  have inv': "live_inv ?st" by (rule popped_inv [OF inv i])
  show "live_inv (on_reply i r st)"
  proof (cases "lf_flight st ! i")
    case (SeedReq g h)
    have "filter (seed_of (lf_epoch ?st)) (lf_flight ?st) = []" if "g = lf_epoch ?st"
      using popped_seed(1) [OF inv i] SeedReq that by simp
    then show ?thesis using seed_reply_inv [OF inv' r] by (simp add: on_reply_def SeedReq)
  qed (simp_all add: on_reply_def other_reply_inv [OF inv'])
  assume sd: "lf_seeded st"
  have "kept ?st (on_reply i r st)"
  proof (cases "lf_flight st ! i")
    case (SeedReq g h)
    have "g \<noteq> lf_epoch st" using popped_seed(2) [OF inv i] SeedReq sd by blast
    then show ?thesis using sd by (simp add: on_reply_def SeedReq seed_reply_def kept_def)
  qed (use sd in \<open>simp_all add: on_reply_def other_reply_kept\<close>)
  then show "kept st (on_reply i r st)" by (simp add: kept_def)
qed

lemma live_step_inv: "live_step st st' \<Longrightarrow> live_inv st \<Longrightarrow> live_inv st' \<and> (lf_seeded st \<longrightarrow> kept st st')"
proof (induction rule: live_step.induct)
  case (head st h)
  then show ?case using head_inv untouched_kept untouched_steps(6) by blast
next
  case (pill st)
  then have "live_inv (flush_pill st)"
    using flush_pill_rows seed_inv_same [of st "flush_pill st"] held_inv_same [of st "flush_pill st"] by (simp add: live_inv_def)
  then show ?case by (auto simp: kept_def flush_pill_keeps)
next
  case (again st)
  then show ?case using refresh_inv refresh_kept by blast
next
  case (reply i st r)
  then show ?case using reply_step by blast
qed (use untouched_inv untouched_kept untouched_steps in blast)+

lemma live_run_kept:
  "live_step\<^sup>*\<^sup>* st st' \<Longrightarrow> live_inv st \<Longrightarrow> lf_seeded st \<Longrightarrow> live_inv st' \<and> kept st st'"
proof (induction rule: rtranclp_induct)
  case base
  then show ?case by (simp add: kept_def)
next
  case (step st' st'')
  then have k: "live_inv st'" "kept st st'" by simp_all
  then have "lf_seeded st'" by (simp add: kept_def)
  with live_step_inv [OF step.hyps(2) k(1)] k(2) show ?case using kept_trans by blast
qed

lemma save_snapshot_inv: "live_inv st \<Longrightarrow> live_inv (save_snapshot y st)"
  by (auto simp: save_snapshot_def saveFeedSnapshot_def live_inv_def rows_inv_def seed_inv_def held_inv_def)

lemma reset_inv: "live_inv st \<Longrightarrow> live_inv (reset source who st)"
proof -
  assume inv: "live_inv st"
  have seeds: "filter (seed_of (Suc (lf_epoch st))) (lf_flight st) = []" "list_all (not_later (Suc (lf_epoch st))) (lf_flight st)"
  proof -
    have later: "not_later e q \<Longrightarrow> \<not> seed_of (Suc e) q \<and> not_later (Suc e) q" for e q by (cases q) simp_all
    have "list_all (not_later (lf_epoch st)) (lf_flight st)" using inv by (simp add: live_inv_def seed_inv_def)
    then show "filter (seed_of (Suc (lf_epoch st))) (lf_flight st) = []" "list_all (not_later (Suc (lf_epoch st))) (lf_flight st)"
      using later by (auto simp: list_all_iff filter_empty_conv)
  qed
  show ?thesis
    using inv seeds
    by (auto simp: reset_def Let_def takeFeedSnapshot_def live_inv_def rows_inv_def seed_inv_def held_inv_def
        split: option.splits prod.splits if_splits)
qed

lemma connect_inv: "live_inv st \<Longrightarrow> live_inv (connect y source who st)"
  by (auto simp: connect_def Let_def intro!: untouched_inv [OF untouched_steps(3)] reset_inv save_snapshot_inv)

lemma live_reachable_inv: "live_reachable st \<Longrightarrow> live_inv st"
proof (induction rule: live_reachable.induct)
  case (first_mount pv)
  show ?case by (simp add: mounted_def live_inv_def rows_inv_def seed_inv_def held_inv_def)
next
  case (stepped st st')
  then show ?case using live_step_inv by blast
next
  case (connected st y source who)
  then show ?case by (simp add: connect_inv)
next
  case (remounted st pv y)
  then show ?case
    by (auto simp: mounted_def save_snapshot_def saveFeedSnapshot_def live_inv_def rows_inv_def seed_inv_def held_inv_def)
qed

text \<open>
  C39: the feed loses no row.  Once it is seeded, whatever heads, replies, refreshes, flushes and reconciliations
  follow, in any order and however late the replies come, every loaded post stays loaded, every post behind the pill
  is loaded or still behind it, and both lists stay newest first without duplicates.
\<close>

theorem feed_rows_kept:
  assumes "live_reachable st" and "lf_seeded st" and "live_step\<^sup>*\<^sup>* st st'"
  shows "newest_first (lf_loaded st') \<and> newest_first (lf_buffered st') \<and> distinct (map p_id (lf_loaded st')) \<and>
    ids (lf_loaded st) \<subseteq> ids (lf_loaded st') \<and>
    ids (lf_buffered st) \<subseteq> ids (lf_loaded st') \<union> ids (lf_buffered st')"
  using live_run_kept [OF assms(3) live_reachable_inv [OF assms(1)] assms(2)] newest_first_distinct
  by (auto simp: live_inv_def rows_inv_def kept_def)

definition demo_feed_page :: feed_page where
  "demo_feed_page = \<lparr>fp_posts = [bare_post 3 ''A'' ''x'' 0], fp_endCursor = None, fp_hasNextPage = False, fp_totalCount = None, fp_asOf = None\<rparr>"

definition demo_feed :: live_feed where
  "demo_feed = on_reply 0 (Page demo_feed_page) (handleHead (Some 3) (connect 0 True None (mounted init_provider None)))"

theorem feed_rows_kept_witness:
  "ids (lf_loaded demo_feed) \<subseteq> ids (lf_loaded (refresh demo_feed)) \<and> 3 \<in> ids (lf_loaded demo_feed)"
proof -
  have sent: "lf_flight (handleHead (Some 3) (connect 0 True None (mounted init_provider None))) = [SeedReq 1 3]"
    by (simp add: handleHead_def seed_def connect_def reset_def start_votes_def mounted_def takeFeedSnapshot_def
        init_provider_def EMPTY_OVERLAY_def)
  have r: "live_reachable demo_feed"
    unfolding demo_feed_def
    by (rule stepped [OF stepped [OF connected [OF first_mount] head] reply]) (simp_all add: sent demo_feed_page_def)
  have e: "lf_seeded demo_feed" "3 \<in> ids (lf_loaded demo_feed)"
    unfolding demo_feed_def on_reply_def sent
    by (simp_all add: seed_reply_def handleHead_def seed_def connect_def reset_def start_votes_def mounted_def
        takeFeedSnapshot_def init_provider_def EMPTY_OVERLAY_def demo_feed_page_def ids_def)
  have "live_step\<^sup>*\<^sup>* demo_feed (refresh demo_feed)" by (rule r_into_rtranclp) (rule again)
  from feed_rows_kept [OF r e(1) this] e(2) show ?thesis by simp
qed

section \<open>Bridging a head\<close>

lemma newest_in_take:
  fixes ys :: "nat list"
  assumes "sorted_wrt (>) ys" and "i \<in> set ys" and "l < int i" and "\<And>j. j \<in> set ys \<Longrightarrow> int j \<le> h"
  shows "i \<in> set (take (nat (h - l)) ys)"
proof -
  from assms(2) obtain j where j: "j < length ys" "ys ! j = i" by (auto simp: in_set_conv_nth)
  have ge: "i \<le> ys ! m" if "m \<le> j" for m
    using sorted_wrt_nth_less [OF assms(1), of m j] that j by (cases "m = j") auto
  have "distinct ys" using assms(1) by (induction ys) auto
  then have "card (set (take (Suc j) ys)) = Suc j" using j by (simp add: distinct_card)
  moreover have "int ` set (take (Suc j) ys) \<subseteq> {l<..h}"
  proof
    fix x
    assume "x \<in> int ` set (take (Suc j) ys)"
    then obtain m where m: "m < Suc j" "m < length ys" "x = int (ys ! m)" by (auto simp: in_set_conv_nth)
    with ge [of m] assms(3,4) show "x \<in> {l<..h}" by fastforce
  qed
  then have "card (int ` set (take (Suc j) ys)) \<le> nat (h - l)" using card_mono [of "{l<..h}"] by fastforce
  ultimately have "j < nat (h - l)" by (simp add: card_image)
  then show ?thesis using j by (metis in_set_conv_nth length_take min_less_iff_conj nth_take)
qed

lemma top_ids_desc: "sorted_wrt (>) (rev (post_ids P st))"
  by (simp add: sorted_wrt_rev post_ids_sorted)

text \<open>
  C40: a bridge leaves no gap.  When the head advances by at most the page cap and the page the bridge asks the served
  source for is read at the chain state that announced this head and arrives, the feed is at that head and every
  top-level post of the gap that is not denied is loaded or behind the pill.
\<close>

theorem bridge_complete:
  fixes base :: "string feed_source"
  assumes "readable st" and "answers (rd_revoked rd)" and "lf_source lf" and "lf_seeded lf" and "lf_lastHead lf = Some l"
    and "watchLatestPostId st = Some h" and "l < h" and "h - l \<le> int MAX_PAGE"
    and "page (withServeDenylist lib d (createPapiFeedSource rd fails rows env fin st base))
           (request_query (lf_me lf) (BridgeReq (lf_epoch lf) h (bridge_first (Some l) h))) = Inr pg"
  defines "lf' \<equiv> on_reply (length (lf_flight lf)) (Page pg) (handleHead (Some h) lf)"
  shows "lf_lastHead lf' = Some h \<and>
    (\<forall>i \<in> set (post_ids (\<lambda>p. po_parent p = None) st). l < int i \<and> \<not> isDenied lib d (int i) (po_author (the (Posts st i))) \<longrightarrow>
       int i \<in> ids (lf_loaded lf') \<union> ids (lf_buffered lf'))"
proof -
  let ?top = "post_ids (\<lambda>p. po_parent p = None) st" and ?n = "nat (h - l)"
  let ?row = "\<lambda>i. flag_revoked (rd_revoked rd) (author_row (rd_papi rd) (lf_me lf) st i)"
  have gap: "bridge_first (Some l) h = h - l"
    using assms(7,8) by (simp add: bridge_first_def bridge_gap_def bridgeFetchSize_def MAX_LIVE_FETCH_def MAX_PAGE_def)
  have n: "clampLimit ?n = ?n" using assms(7,8) by (auto simp: clampLimit_def MAX_PAGE_def)
  let ?lf = "(handleHead (Some h) lf)\<lparr>lf_flight := drop_nth (length (lf_flight lf)) (lf_flight (handleHead (Some h) lf))\<rparr>"
  have "lf' = (applyFresh (fp_posts pg) ?lf)\<lparr>lf_lastHead := Some h\<rparr>"
    using assms(3-5,7) by (simp add: lf'_def on_reply_def handleHead_def bridge_reply_def)
  then have lf': "lf_lastHead lf' = Some h" "lf_loaded lf' = lf_loaded (applyFresh (fp_posts pg) ?lf)"
    "lf_buffered lf' = lf_buffered (applyFresh (fp_posts pg) ?lf)" by simp_all
  have q: "(home_query (lf_me lf) ?n)\<lparr>fq_after := map_option show_nat None\<rparr> = home_query (lf_me lf) ?n" by (simp add: home_query_def)
  from home_page [OF assms(2), where st = st and viewer = "lf_me lf" and n = ?n and c = None] obtain pg0
    where pg0: "papi_page rd st (home_query (lf_me lf) ?n) = Inr pg0" "fp_posts pg0 = map ?row (take ?n (rev ?top))"
    unfolding q global_first_page [OF assms(1)] n by (auto simp: comp_def)
  have "served_page lib d (papi_page rd st) (home_query (lf_me lf) ?n) = Inr pg" using assms(9) by (simp add: gap)
  note kept = served_page_keeps [OF pg0(1) this]
  have "int i \<in> ids (lf_loaded lf') \<union> ids (lf_buffered lf')"
    if i: "i \<in> set ?top" "l < int i" "\<not> isDenied lib d (int i) (po_author (the (Posts st i)))" for i
  proof -
    have "int j \<le> h" if "j \<in> set (rev ?top)" for j
      using that post_ids_bound [of j _ st] assms(6) by (fastforce simp: watchLatestPostId_def split: if_splits)
    from newest_in_take [OF top_ids_desc _ i(2) this] i(1) have "i \<in> set (take ?n (rev ?top))" by simp
    then have mem: "?row i \<in> set (fp_posts pg0)" unfolding pg0(2) by simp
    have row: "p_id (?row i) = int i" "p_author (?row i) = po_author (the (Posts st i))"
      using post_ids_exist [OF i(1)] by (auto simp: flag_revoked_def author_row_def fetch_enriched_def)
    have "?row i \<in> set (fp_posts pg)" using kept mem i(3) row by (auto simp: subset_iff)
    from applyFresh_holds [OF this, of ?lf] show ?thesis by (simp add: lf' row)
  qed
  with lf'(1) show ?thesis by blast
qed

text \<open>A bridge reads no more than the page cap, whatever it asks for: the posts of a longer gap beyond it are not read.\<close>

lemma bridge_page_capped:
  assumes "readable st"
  shows "length (ip_posts (nodeGlobalFeedPage pa viewer st None (nat (bridge_first l h)))) \<le> MAX_PAGE"
  by (simp add: global_first_page [OF assms] clampLimit_def)

definition demo_behind :: live_feed where
  "demo_behind = (mounted init_provider None)\<lparr>lf_source := True, lf_seeded := True, lf_ready := True, lf_lastHead := Some 0\<rparr>"

definition demo_served :: "string feed_source" where
  "demo_served = withServeDenylist demo_lib demo_deny (createPapiFeedSource demo_reader False demo_rows demo_people demo_chain demo_chain silent_source)"

lemma demo_answers: "answers (rd_revoked demo_reader)"
  unfolding answers_def by (intro allI exI [of _ False]) (simp add: demo_reader_def)

lemma demo_deny_empty: "denylistEmpty demo_deny"
  by (simp add: denylistEmpty_def demo_deny_def)

theorem bridge_complete_witness:
  "\<exists>pg. page demo_served (request_query None (BridgeReq 0 2 (bridge_first (Some 0) 2))) = Inr pg \<and>
    lf_lastHead (on_reply 0 (Page pg) (handleHead (Some 2) demo_behind)) = Some 2"
proof -
  let ?q = "request_query None (BridgeReq 0 2 (bridge_first (Some 0) 2))"
  have q: "?q = (home_query None 2)\<lparr>fq_after := map_option show_nat None\<rparr>"
    by (simp add: bridge_first_def bridge_gap_def bridgeFetchSize_def MAX_LIVE_FETCH_def home_query_def)
  obtain pg where pg: "page demo_served ?q = Inr pg"
    unfolding q demo_served_def withServe_page createPapi_simps empty_list_inert [OF demo_deny_empty] home_page [OF demo_answers]
    by simp
  have lf: "lf_source demo_behind" "lf_seeded demo_behind" "lf_lastHead demo_behind = Some 0" "lf_epoch demo_behind = 0"
    "lf_me demo_behind = None" "lf_flight demo_behind = []"
    by (simp_all add: demo_behind_def mounted_def)
  from bridge_complete [OF readable_demo demo_answers lf(1-3), of 2 demo_lib demo_deny False demo_rows demo_people demo_chain silent_source pg] pg lf
  show ?thesis by (auto simp: watchLatestPostId_def MAX_PAGE_def demo_served_def)
qed

end
