(* ===== verification/Spec2Isabelle.thy ===== *)
theory Spec2Isabelle
  imports Routes Capacity Session_Gate Pending_Lock Read_State Writes Live_Feed
begin

text \<open>
  A model of cogno, a microblog whose posts, votes, follows and polls live on a chain of their own and whose right to
  write is a battery that Cardano stake charges.  Paths below are relative to \<open>src/\<close>; \<open>lib/\<close> and \<open>hooks/\<close> are those of
  \<open>app/src/\<close>.

  \<^bold>\<open>The parts and how they meet.\<close>  The pallet (\<open>pallets/microblog\<close>) stores the posts with the indexes and counters it
  reads them by, and serves pages of enriched posts through the runtime API (\<open>runtime/src/apis.rs\<close>).  The client reads
  those pages (\<open>lib/chain/node-reads.ts\<close>), falls back to keyed reads for a thread (\<open>lib/chain/reads.ts\<close>), wraps both as
  one feed source (\<open>lib/feed/papi-source.ts\<close>), takes the operator's denied accounts and posts out of it
  (\<open>lib/feed/denylist-source.ts\<close>) and keeps the home feed live (\<open>hooks/useLiveFeed.ts\<close>).  A write goes the other way:
  the composer's gate and the chain's own extension agree on who may post, the nonce manager and the phase stream
  (\<open>lib/chain/nonce.ts\<close>, \<open>post.ts\<close>, \<open>mutations.ts\<close>) submit it, and an optimistic overlay (\<open>lib/optimistic.ts\<close>)
  shows its effect until the chain does.  Beside this stand the session of a tab, the stores of a device, the observer
  of Cardano and the treatment of text.

  \<^bold>\<open>Conventions.\<close>  A \<open>bigint\<close> or an integral number is an \<^typ>\<open>int\<close>, a time or a parsed JSON number a \<^typ>\<open>rat\<close>, an
  unsigned integer of the chain a \<^typ>\<open>nat\<close> with its saturation written out, a byte a word of eight bits.  The older
  theories on the feed take a string as a \<^typ>\<open>string\<close>; those on text and devices as the list of its code points.
  \<open>null\<close> and \<open>undefined\<close> are \<^const>\<open>None\<close>, a \<open>Map\<close> is an association list in insertion order, a read or call that
  fails is \<open>Inl\<close>.  What comes from outside \<open>src/\<close> is an argument: the text and hex codecs of polkadot-api
  (\<open>papi\<close>), the ss58 codec (\<open>ss58_lib\<close> with \<open>ss58_laws\<close>), the character classes, lower-casing, URL parser and grapheme
  segmenter of the platform, the events of the submission stream, and the answers of a wallet.

  \<^bold>\<open>Shared theories.\<close>  \<open>Cogno_Prelude\<close>: the JavaScript operations, ordered maps, and the locale \<open>comparator\<close> of every
  \<open>sort\<close> of the sources.  \<open>Cogno_Types\<close>: the records of \<open>lib/types.ts\<close>.  \<open>Unicode\<close>: UTF-8, white space, the query
  parser and \<open>lib/bytes.ts\<close>.  \<open>Addresses\<close>: \<open>lib/ss58.ts\<close>.

  \<^bold>\<open>The chain.\<close>  \<open>Pallet_Microblog\<close>: the record \<open>chain\<close> of the pallet's storage and its event log, one definition per
  call with every error branch, and \<open>chain_inv\<close>, the invariant of \<open>check_tally_consistency\<close> without its section on a
  poll that is being closed; every reachable state satisfies it (C6).  \<open>Pallet_Reads\<close>: the enriched post and the feed,
  author, Following and search pages, each an interpretation of the locale \<open>paged_read\<close> (a walk over its pages shows what
  the read promises, each item once, and ends) or of \<open>dense_read\<close>, which extends it.  \<open>Thread_Reads\<close>: threads, reply
  pages, likes and follow edges.  \<open>People\<close>: the people reads under their scan budget.

  \<^bold>\<open>The readers.\<close>  \<open>Node_Reads\<close>: \<open>chasePage\<close> and the readers over it, shown to satisfy \<open>paged_read\<close> again over client
  posts, and the merge of a list's members (C7).  \<open>Thread_Reads\<close>: a conversation of any length is read whole (C34), the
  Likes tab is exact (C35), what the keyed fallback shows of the finalized state and what its cards lack (C36), and
  the ancestor walk ends on any links (C37).  \<open>Denylist\<close>: the operator's lists, the wrapper as an interpretation of the locale
  \<open>withholding\<close>, and the cards, quote boxes and mentions that show a stub (C33).  \<open>Papi_Source\<close>: the reader
  and the revocation memo; paging the served home feed to its end shows every top-level post that is not denied (C38).
  \<open>Feed_Rank\<close>: merging, ranking, the tail and the snapshot.  \<open>Live_Feed\<close>: the home feed as a transition
  system in which replies arrive in any order: no row is lost (C39), and a bridge over at most a page of new posts leaves no
  gap (C40).

  \<^bold>\<open>Writing.\<close>  \<open>Optimistic\<close>: the overlay against the chain's tally as its specification (C1 to C5).  \<open>Capacity\<close>: the
  bucket and the extension \<open>CheckCapacity\<close> of the pallet with the price of every call, and the client's replay: the
  composer's button agrees with the extension (C11), the announced wait is exact (C12), the replay is exact (C13) and
  a new weight gives no credit for the past (C14).  \<open>Chain_Errors\<close>: the classification and the wording of failures.  \<open>Writes\<close>:
  the nonce manager and the phase stream as a transition system over all writes (C30), the one outcome a
  caller gets (C31) and the deadline of a poll (C32).

  \<^bold>\<open>The visitor.\<close>  \<open>Routes\<close>: the return target never leaves the origin (C9) and survives its URL (C10).  \<open>Session_Gate\<close>: the gates and
  the posting key of a tab; signing out is final (C15) and is adopted by other tabs (C16).

  \<^bold>\<open>The device.\<close>  \<open>Device_Store\<close>: the persistent store, the locale \<open>codec\<close> of what is stored, and several tabs with their
  storage events as a step relation.  \<open>Device_Sets\<close>: buckets per account and the sets in them (C17 to C19).
  \<open>Device_Lists\<close>: private lists (C20).  \<open>Device_Records\<close>, \<open>Pending_Lock\<close>: recent searches, and the record of a lock until its
  credit (C21).  \<open>Read_State\<close>: what of the notifications was read (C24).  \<open>Observer\<close>: the app's view of the observer
  against the pallet's stall alarm (C22, C23).

  \<^bold>\<open>Text.\<close>  The byte clamp of \<open>Unicode\<close> (C8); \<open>Sanitize\<close>: the hardening of text (C25) and where the single-line form falls short
  of it (C26); \<open>Mentions\<close>: the round trip of a mention (C27); \<open>Post_Text\<close>: the tokenizer and the cap on images
  (C28); \<open>Topics\<close>: a topic's feed against the node's byte scan (C29).

  \<^bold>\<open>Bounds and fuel.\<close>  The loops of the sources are structural or carry the source's own bound: the scan budgets of the
  pallet, the hop caps of \<open>chasePage\<close> and \<open>chasePeoplePage\<close>, \<open>MAX_TOP_UP\<close>, the depth cap of an ancestor walk.  Only the walks
  over all pages of a read (\<open>walk_pages\<close>, \<open>walk_source\<close>) take fuel; the properties state that more fuel than the read
  has items gives the whole result, so running out is excluded there.

  \<^bold>\<open>Idealisations.\<close>  The reads of one call see one chain state, except that the keyed fallback and the profile header read the
  finalized state and the rest the best one.  The page of a bridge in C40 is read at the state that announced the head.  The hot
  score is a real number without rounding.  A React setter takes effect at once.

  \<^bold>\<open>Not modelled.\<close>  Rendering, layout and browser events; wallets, vault transactions and proofs; the socket,
  descriptors and metadata cache; \<open>close_poll\<close> with its paged tally and the poll, profile and notification reads; the observer pallet
  beyond its alarm (its inherent, weights, roles and scan rotation); the other pallets, the node, the command line, the
  contracts, scripts and deployment.  They are third-party or input-output code, or parts on which the modelled ones depend
  only through the values that are arguments here.
\<close>

end
